(* ===== verification/Prelude.thy ===== *)
theory Prelude
  imports Main "HOL-Library.Word"
begin

unbundle bit_operations_syntax

text \<open>
  The vocabulary every component shares: machine integers and byte sequences, Rust's
  \<^verbatim>\<open>Result\<close> with its \<^verbatim>\<open>?\<close> operator, and the little- and big-endian integer codecs.

  \<^item> \<^verbatim>\<open>Bytes\<close>, \<^verbatim>\<open>BytesMut\<close>, \<^verbatim>\<open>Vec<u8>\<close> and \<^verbatim>\<open>&[u8]\<close> are lists of 8-bit words; a reader takes the
    sequence and returns the value with the rest of the sequence, a writer returns the
    bytes it appends. The accessors \<^verbatim>\<open>put_u32_le\<close>, \<^verbatim>\<open>try_get_u32_le\<close> and so on are Rust's
    \<^verbatim>\<open>to_le_bytes\<close> and \<^verbatim>\<open>from_le_bytes\<close> at the end and at the front of the sequence.
  \<^item> A failing operation returns \<open>Inl\<close> of an \<open>error\<close>; a panic is an error value of its own,
    so that code which handles an \<^verbatim>\<open>Err\<close> does not handle a panic.
\<close>

section \<open>Integers, bytes, results\<close>

type_synonym u8 = "8 word"
type_synonym u16 = "16 word"
type_synonym u32 = "32 word"
type_synonym u64 = "64 word"
type_synonym bytes = "u8 list"

datatype error =
    TryGetError nat nat
  | UnexpectedEof
  | Anyhow string
  | Panic string

type_synonym 'a res = "error + 'a"

named_theorems codec_simps \<open>reading back what a writer wrote\<close>
named_theorems res_simps \<open>the result type and its sequencing\<close>

definition and_then :: "'a res \<Rightarrow> ('a \<Rightarrow> 'b res) \<Rightarrow> 'b res" where
  "and_then m f = (case m of Inl e \<Rightarrow> Inl e | Inr x \<Rightarrow> f x)"

lemma and_then_simps [simp, res_simps]:
  "and_then (Inl e) f = Inl e"
  "and_then (Inr x) f = f x"
  by (simp_all add: and_then_def)

lemma and_then_assoc [res_simps]:
  "and_then (and_then m f) g = and_then m (\<lambda>x. and_then (f x) g)"
  by (cases m) simp_all

lemma and_then_Inr_iff [res_simps]:
  "and_then m f = Inr y \<longleftrightarrow> (\<exists>x. m = Inr x \<and> f x = Inr y)"
  by (cases m) simp_all

lemma and_then_Inl_iff:
  "and_then m f = Inl e \<longleftrightarrow> m = Inl e \<or> (\<exists>x. m = Inr x \<and> f x = Inl e)"
  by (cases m) simp_all

lemma and_then_cong [fundef_cong]:
  "m = m' \<Longrightarrow> (\<And>x. m' = Inr x \<Longrightarrow> f x = g x) \<Longrightarrow> and_then m f = and_then m' g"
  by (cases m') simp_all

lemma and_then_split:
  "P (and_then m f) \<longleftrightarrow> (\<forall>e. m = Inl e \<longrightarrow> P (Inl e)) \<and> (\<forall>x. m = Inr x \<longrightarrow> P (f x))"
  by (cases m) simp_all

definition is_panic :: "error \<Rightarrow> bool" where
  "is_panic e = (case e of Panic _ \<Rightarrow> True | _ \<Rightarrow> False)"

lemma is_panic_simps [simp]:
  "is_panic (Panic s)" "\<not> is_panic (Anyhow s)" "\<not> is_panic (TryGetError n k)" "\<not> is_panic UnexpectedEof"
  by (simp_all add: is_panic_def)

section \<open>Lists\<close>

lemma list_all2_subset:
  "list_all2 R ks xs \<Longrightarrow> (\<And>k x. R k x \<Longrightarrow> k \<in> A) \<Longrightarrow> set ks \<subseteq> A"
  by (induction rule: list_all2_induct) auto

section \<open>Integer codecs\<close>

primrec to_le :: "nat \<Rightarrow> 'a::len word \<Rightarrow> bytes" where
  "to_le 0 w = []"
| "to_le (Suc n) w = ucast w # to_le n (drop_bit 8 w)"

primrec from_le :: "bytes \<Rightarrow> 'a::len word" where
  "from_le [] = 0"
| "from_le (b # bs) = ucast b OR push_bit 8 (from_le bs)"

lemma length_to_le [simp]: "length (to_le n w) = n"
  by (induction n arbitrary: w) simp_all

lemma bit_from_le:
  "bit (from_le bs :: 'a::len word) i \<longleftrightarrow>
     i < LENGTH('a) \<and> i div 8 < length bs \<and> bit (bs ! (i div 8)) (i mod 8)"
proof (induction bs arbitrary: i)
  case Nil
  then show ?case by simp
next
  case (Cons b bs)
  show ?case
  proof (cases "i < 8")
    case True
    then show ?thesis
      by (auto simp: bit_simps)
  next
    case False
    then have "i div 8 = Suc ((i - 8) div 8)" "i mod 8 = (i - 8) mod 8"
      by (simp_all add: le_div_geq le_mod_geq)
    moreover have "\<not> bit b i"
      using False by (auto dest: bit_imp_le_length)
    ultimately show ?thesis
      using False Cons.IH [of "i - 8"] by (auto simp: bit_simps)
  qed
qed

lemma nth_to_le: "i < n \<Longrightarrow> to_le n w ! i = ucast (drop_bit (8 * i) w)"
proof (induction n arbitrary: i w)
  case 0
  then show ?case by simp
next
  case (Suc n)
  show ?case
  proof (cases i)
    case 0
    then show ?thesis by simp
  next
    case (Suc j)
    with Suc.prems Suc.IH [of j "drop_bit 8 w"] show ?thesis
      by (simp add: algebra_simps)
  qed
qed

lemma from_le_to_le:
  fixes w :: "'a::len word"
  assumes "LENGTH('a) \<le> 8 * n"
  shows "from_le (to_le n w) = w"
proof (rule bit_word_eqI)
  fix i assume "i < LENGTH('a)"
  with assms have "i div 8 < n" by simp
  then show "bit (from_le (to_le n w) :: 'a word) i \<longleftrightarrow> bit w i"
    using \<open>i < LENGTH('a)\<close> by (simp add: bit_from_le nth_to_le bit_simps)
qed

lemma to_le_from_le:
  assumes "8 * length bs \<le> LENGTH('a)"
  shows "to_le (length bs) (from_le bs :: 'a::len word) = bs"
proof (rule nth_equalityI)
  show "length (to_le (length bs) (from_le bs :: 'a word)) = length bs" by simp
next
  fix i assume "i < length (to_le (length bs) (from_le bs :: 'a word))"
  then have i: "i < length bs" by simp
  have "ucast (drop_bit (8 * i) (from_le bs :: 'a word)) = bs ! i"
  proof (rule bit_word_eqI)
    fix j assume j: "j < LENGTH(8)"
    with i assms have "8 * i + j < LENGTH('a)" by simp
    with i j show "bit (ucast (drop_bit (8 * i) (from_le bs :: 'a word)) :: u8) j \<longleftrightarrow> bit (bs ! i) j"
      by (simp add: bit_simps bit_from_le)
  qed
  with i show "to_le (length bs) (from_le bs :: 'a word) ! i = bs ! i"
    by (simp add: nth_to_le)
qed

text \<open>The writers: the bytes a \<^verbatim>\<open>put_*\<close> call appends.\<close>

definition put_u8 :: "u8 \<Rightarrow> bytes" where "put_u8 x = [x]"
definition put_u16_le :: "u16 \<Rightarrow> bytes" where "put_u16_le x = to_le 2 x"
definition put_u32_le :: "u32 \<Rightarrow> bytes" where "put_u32_le x = to_le 4 x"
definition put_u64_le :: "u64 \<Rightarrow> bytes" where "put_u64_le x = to_le 8 x"
definition put_u32 :: "u32 \<Rightarrow> bytes" where "put_u32 x = rev (to_le 4 x)"
definition put_u64 :: "u64 \<Rightarrow> bytes" where "put_u64 x = rev (to_le 8 x)"

text \<open>The readers: the value at the front of the sequence and what follows it.\<close>

definition try_take :: "nat \<Rightarrow> bytes \<Rightarrow> (bytes \<times> bytes) res" where
  "try_take n b = (if length b < n then Inl (TryGetError n (length b)) else Inr (take n b, drop n b))"

definition try_get_u8 :: "bytes \<Rightarrow> (u8 \<times> bytes) res" where
  "try_get_u8 b = and_then (try_take 1 b) (\<lambda>(x, r). Inr (from_le x, r))"

definition try_get_u16_le :: "bytes \<Rightarrow> (u16 \<times> bytes) res" where
  "try_get_u16_le b = and_then (try_take 2 b) (\<lambda>(x, r). Inr (from_le x, r))"

definition try_get_u32_le :: "bytes \<Rightarrow> (u32 \<times> bytes) res" where
  "try_get_u32_le b = and_then (try_take 4 b) (\<lambda>(x, r). Inr (from_le x, r))"

definition try_get_u64_le :: "bytes \<Rightarrow> (u64 \<times> bytes) res" where
  "try_get_u64_le b = and_then (try_take 8 b) (\<lambda>(x, r). Inr (from_le x, r))"

definition try_get_u32 :: "bytes \<Rightarrow> (u32 \<times> bytes) res" where
  "try_get_u32 b = and_then (try_take 4 b) (\<lambda>(x, r). Inr (from_le (rev x), r))"

definition try_get_u64 :: "bytes \<Rightarrow> (u64 \<times> bytes) res" where
  "try_get_u64 b = and_then (try_take 8 b) (\<lambda>(x, r). Inr (from_le (rev x), r))"

lemmas put_defs = put_u8_def put_u16_le_def put_u32_le_def put_u64_le_def put_u32_def put_u64_def
lemmas try_get_defs = try_get_u8_def try_get_u16_le_def try_get_u32_le_def try_get_u64_le_def
  try_get_u32_def try_get_u64_def

lemma length_put [simp]:
  "length (put_u8 a) = 1" "length (put_u16_le b) = 2" "length (put_u32_le c) = 4"
  "length (put_u64_le d) = 8" "length (put_u32 c) = 4" "length (put_u64 d) = 8"
  by (simp_all add: put_defs)

lemma try_take_append [simp]: "length x = n \<Longrightarrow> try_take n (x @ r) = Inr (x, r)"
  by (simp add: try_take_def)

lemma try_take_Inr_iff:
  "try_take n b = Inr (x, r) \<longleftrightarrow> b = x @ r \<and> length x = n"
  by (auto simp: try_take_def)

lemma try_take_Inl_iff:
  "try_take n b = Inl e \<longleftrightarrow> length b < n \<and> e = TryGetError n (length b)"
  by (auto simp: try_take_def)

section \<open>The codec contract\<close>

text \<open>
  A codec is a writer and a reader such that the reader consumes exactly what the writer
  produced and accepts nothing else. The laws give injectivity, prefix-freeness and, for
  a repeated field, the round trip of a whole sequence of values.
\<close>

primrec get_many :: "(bytes \<Rightarrow> ('a \<times> bytes) res) \<Rightarrow> nat \<Rightarrow> bytes \<Rightarrow> ('a list \<times> bytes) res" where
  "get_many dec 0 b = Inr ([], b)"
| "get_many dec (Suc n) b = and_then (dec b) (\<lambda>(x, r). and_then (get_many dec n r) (\<lambda>(xs, r'). Inr (x # xs, r')))"

locale codec =
  fixes wf :: "'a \<Rightarrow> bool"
    and enc :: "'a \<Rightarrow> bytes"
    and dec :: "bytes \<Rightarrow> ('a \<times> bytes) res"
  assumes dec_enc: "wf x \<Longrightarrow> dec (enc x @ r) = Inr (x, r)"
    and dec_sound: "dec b = Inr (x, r) \<Longrightarrow> wf x \<and> b = enc x @ r"
begin

lemma dec_iff: "dec b = Inr (x, r) \<longleftrightarrow> wf x \<and> b = enc x @ r"
  using dec_enc dec_sound by blast

lemma enc_inj: "wf x \<Longrightarrow> wf y \<Longrightarrow> enc x = enc y \<Longrightarrow> x = y"
  using dec_enc [of x "[]"] dec_enc [of y "[]"] by simp

lemma enc_prefix_free: "wf x \<Longrightarrow> wf y \<Longrightarrow> enc x @ r = enc y @ s \<Longrightarrow> x = y \<and> r = s"
  using dec_enc [of x r] dec_enc [of y s] by (metis Inr_inject Pair_inject)

lemma get_many_enc:
  "list_all wf xs \<Longrightarrow> n = length xs \<Longrightarrow> get_many dec n (concat (map enc xs) @ r) = Inr (xs, r)"
  by (induction xs arbitrary: n) (simp_all add: dec_enc)

lemma get_many_sound:
  "get_many dec n b = Inr (xs, r) \<Longrightarrow> list_all wf xs \<and> length xs = n \<and> b = concat (map enc xs) @ r"
proof (induction n arbitrary: b xs)
  case 0
  then show ?case by simp
next
  case (Suc n)
  then show ?case
    by (fastforce simp: and_then_Inr_iff dest: dec_sound)
qed

end

lemma to_le_from_le': "length bs = n \<Longrightarrow> 8 * n \<le> LENGTH('a) \<Longrightarrow> to_le n (from_le bs :: 'a::len word) = bs"
  using to_le_from_le by blast

lemma put_u8_alt: "put_u8 x = to_le 1 x"
  by (simp add: put_u8_def)

lemmas le_codec_simps = put_defs(2-) put_u8_alt try_get_defs and_then_Inr_iff try_take_Inr_iff
  from_le_to_le to_le_from_le'

lemma singleton_from_le: "length b = Suc 0 \<Longrightarrow> [from_le b] = (b :: bytes)"
  using to_le_from_le' [of b 1, where 'a = 8] by simp

interpretation u8c: codec "\<lambda>_. True" put_u8 try_get_u8
  by unfold_locales (auto simp: le_codec_simps singleton_from_le)

interpretation u16c: codec "\<lambda>_. True" put_u16_le try_get_u16_le
  by unfold_locales (auto simp: le_codec_simps)

interpretation u32c: codec "\<lambda>_. True" put_u32_le try_get_u32_le
  by unfold_locales (auto simp: le_codec_simps)

interpretation u64c: codec "\<lambda>_. True" put_u64_le try_get_u64_le
  by unfold_locales (auto simp: le_codec_simps)

interpretation u32bec: codec "\<lambda>_. True" put_u32 try_get_u32
  by unfold_locales (auto simp: le_codec_simps)

interpretation u64bec: codec "\<lambda>_. True" put_u64 try_get_u64
  by unfold_locales (auto simp: le_codec_simps)

end
