(* ===== verification/Utils.thy ===== *)
theory Utils
  imports Prelude
begin

text \<open>
  The \<^verbatim>\<open>BufExt\<close> readers (\<^verbatim>\<open>common/src/utils.rs\<close>): the variable-length integers of the game
  protocol and the checked skip, and the contract every reader of a packet keeps: it
  consumes a prefix of the bytes and its result depends on that prefix only.

  \<^verbatim>\<open>abbreviate_number\<close> formats sizes for the log; the formatting of a floating point quotient is a
  parameter. \<^verbatim>\<open>get_local_ip\<close> only asks the operating system and is not modelled.
\<close>

section \<open>Definitions\<close>

definition try_get_factorio_varint32 :: "bytes \<Rightarrow> (u32 \<times> bytes) res" where
  "try_get_factorio_varint32 b =
     and_then (try_get_u8 b) (\<lambda>(byte, r).
       if byte = 0xFF then try_get_u32_le r else Inr (ucast byte, r))"

definition try_get_factorio_varint16 :: "bytes \<Rightarrow> (u16 \<times> bytes) res" where
  "try_get_factorio_varint16 b =
     and_then (try_get_u8 b) (\<lambda>(byte, r).
       if byte = 0xFF then try_get_u16_le r else Inr (ucast byte, r))"

definition try_advance :: "nat \<Rightarrow> bytes \<Rightarrow> (unit \<times> bytes) res" where
  "try_advance len b = (if length b < len then Inl (TryGetError len (length b)) else Inr ((), drop len b))"

text \<open>
  \<^verbatim>\<open>u64::to_string\<close>, \<^verbatim>\<open>u64::ilog(1000)\<close> and \<^verbatim>\<open>abbreviate_number\<close>; \<open>fmt x y\<close> is the quotient of two
  numbers converted to \<^verbatim>\<open>f64\<close>, written with two decimals.
\<close>

fun to_string :: "nat \<Rightarrow> string" where
  "to_string n = (if n < 10 then [char_of (48 + n)] else to_string (n div 10) @ [char_of (48 + n mod 10)])"

fun ilog1000 :: "nat \<Rightarrow> nat" where
  "ilog1000 n = (if n < 1000 then 0 else Suc (ilog1000 (n div 1000)))"

definition POWER_UNITS :: string where "POWER_UNITS = ''kMGTPEZY''"

definition abbreviate_number :: "(u64 \<Rightarrow> u64 \<Rightarrow> string) \<Rightarrow> u64 \<Rightarrow> string" where
  "abbreviate_number fmt num =
     (if num \<le> 0 then to_string (unat num)
      else let power = ilog1000 (unat num) in
        if power \<le> 0 then to_string (unat num)
        else let unit = if power - 1 < length POWER_UNITS then POWER_UNITS ! (power - 1) else CHR ''?''
             in fmt num (1000 ^ power) @ [unit])"

section \<open>The reader contract\<close>

locale reader =
  fixes dec :: "bytes \<Rightarrow> ('a \<times> bytes) res"
  assumes dec_prefix: "dec b = Inr (x, r) \<Longrightarrow> \<exists>p. b = p @ r \<and> (\<forall>s. dec (p @ s) = Inr (x, s))"
begin

lemma dec_append: "dec b = Inr (x, r) \<Longrightarrow> dec (b @ s) = Inr (x, r @ s)"
  by (frule dec_prefix) auto

lemma dec_rest_length: "dec b = Inr (x, r) \<Longrightarrow> length r \<le> length b"
  by (frule dec_prefix) auto

lemma dec_rest_suffix: "dec b = Inr (x, r) \<Longrightarrow> \<exists>n. r = drop n b"
  by (frule dec_prefix) (metis append_eq_conv_conj)

end

sublocale codec \<subseteq> reader dec
  by unfold_locales (auto dest: dec_sound intro: dec_enc)

text \<open>Reading two things in a row, and reading on a condition, are readers again.\<close>

lemma reader_and_then:
  assumes "reader f" "\<And>x. reader (g x)"
  shows "reader (\<lambda>b. and_then (f b) (\<lambda>(x, r). g x r))"
proof
  fix b y r assume "and_then (f b) (\<lambda>(x, r). g x r) = Inr (y, r)"
  then obtain x q where 1: "f b = Inr (x, q)" "g x q = Inr (y, r)" by (auto simp: and_then_Inr_iff)
  from reader.dec_prefix [OF assms(1) 1(1)] obtain p1 where p1: "b = p1 @ q" "\<forall>s. f (p1 @ s) = Inr (x, s)"
    by blast
  from reader.dec_prefix [OF assms(2) 1(2)] obtain p2 where p2: "q = p2 @ r" "\<forall>s. g x (p2 @ s) = Inr (y, s)"
    by blast
  from p1 p2 show "\<exists>p. b = p @ r \<and> (\<forall>s. and_then (f (p @ s)) (\<lambda>(x, r). g x r) = Inr (y, s))"
    by (intro exI [of _ "p1 @ p2"]) simp
qed

lemma reader_return: "reader (\<lambda>r. Inr (x, r))"
  by unfold_locales auto

lemma reader_if: "reader f \<Longrightarrow> reader g \<Longrightarrow> reader (if c then f else g)"
  by simp

lemmas reader_intros = reader_and_then reader_return reader_if u8c.reader_axioms u16c.reader_axioms
  u32c.reader_axioms

interpretation varint32: reader try_get_factorio_varint32
proof -
  have "reader (\<lambda>r. if byte = 0xFF then try_get_u32_le r else Inr (ucast byte, r))" for byte :: u8
    by (cases "byte = 0xFF") (simp_all add: reader_intros)
  from reader_and_then [OF u8c.reader_axioms this]
  show "reader try_get_factorio_varint32" by (simp add: try_get_factorio_varint32_def [abs_def])
qed

interpretation varint16: reader try_get_factorio_varint16
proof -
  have "reader (\<lambda>r. if byte = 0xFF then try_get_u16_le r else Inr (ucast byte, r))" for byte :: u8
    by (cases "byte = 0xFF") (simp_all add: reader_intros)
  from reader_and_then [OF u8c.reader_axioms this]
  show "reader try_get_factorio_varint16" by (simp add: try_get_factorio_varint16_def [abs_def])
qed

interpretation advance: reader "try_advance len" for len
proof
  fix b x r assume "try_advance len b = Inr (x, r)"
  then show "\<exists>p. b = p @ r \<and> (\<forall>s. try_advance len (p @ s) = Inr (x, s))"
    by (intro exI [of _ "take len b"]) (auto simp: try_advance_def split: if_splits)
qed

section \<open>Variable-length integers\<close>

text \<open>The writer of the game's side of the protocol: one byte below 255, otherwise a marker and the value.\<close>

definition put_factorio_varint32 :: "u32 \<Rightarrow> bytes" where
  "put_factorio_varint32 x = (if unat x < 255 then [ucast x] else 0xFF # put_u32_le x)"

definition put_factorio_varint16 :: "u16 \<Rightarrow> bytes" where
  "put_factorio_varint16 x = (if unat x < 255 then [ucast x] else 0xFF # put_u16_le x)"

lemma try_get_u8_Cons [simp]: "try_get_u8 (x # r) = Inr (x, r)"
  using u8c.dec_enc [of x r] by (simp add: put_u8_def)

lemma try_get_u8_Nil [simp]: "try_get_u8 [] = Inl (TryGetError 1 0)"
  by (simp add: try_get_u8_def try_take_def)

lemma varint32_dec_enc: "try_get_factorio_varint32 (put_factorio_varint32 x @ r) = Inr (x, r)"
proof (cases "unat x < 255")
  case True
  then have small: "unat (ucast x :: u8) = unat x"
    by (simp add: unsigned_ucast_eq take_bit_nat_eq_self)
  then have "(ucast x :: u8) \<noteq> 0xFF" using True by (auto simp: word_unat_eq_iff)
  moreover have "(ucast (ucast x :: u8) :: u32) = x"
    using True by (simp add: word_unat_eq_iff unsigned_ucast_eq unsigned_take_bit_eq take_bit_nat_eq_self)
  ultimately show ?thesis
    using True by (simp add: try_get_factorio_varint32_def put_factorio_varint32_def)
qed (simp add: try_get_factorio_varint32_def put_factorio_varint32_def u32c.dec_enc)

lemma varint16_dec_enc: "try_get_factorio_varint16 (put_factorio_varint16 x @ r) = Inr (x, r)"
proof (cases "unat x < 255")
  case True
  then have small: "unat (ucast x :: u8) = unat x"
    by (simp add: unsigned_ucast_eq take_bit_nat_eq_self)
  then have "(ucast x :: u8) \<noteq> 0xFF" using True by (auto simp: word_unat_eq_iff)
  moreover have "(ucast (ucast x :: u8) :: u16) = x"
    using True by (simp add: word_unat_eq_iff unsigned_ucast_eq unsigned_take_bit_eq take_bit_nat_eq_self)
  ultimately show ?thesis
    using True by (simp add: try_get_factorio_varint16_def put_factorio_varint16_def)
qed (simp add: try_get_factorio_varint16_def put_factorio_varint16_def u16c.dec_enc)

section \<open>Abbreviated numbers\<close>

declare ilog1000.simps [simp del] to_string.simps [simp del]

lemma ilog1000_bounds: "0 < n \<Longrightarrow> 1000 ^ ilog1000 n \<le> n \<and> n < 1000 ^ Suc (ilog1000 n)"
proof (induction n rule: ilog1000.induct)
  case (1 n)
  show ?case
  proof (cases "n < 1000")
    case False
    then have "1000 ^ ilog1000 (n div 1000) \<le> n div 1000" "n div 1000 < 1000 ^ Suc (ilog1000 (n div 1000))"
      using 1 by auto
    then have "1000 * 1000 ^ ilog1000 (n div 1000) \<le> n" "n < 1000 * 1000 ^ Suc (ilog1000 (n div 1000))" by linarith+
    with False show ?thesis by (simp add: ilog1000.simps [of n])
  qed (use 1 in \<open>simp add: ilog1000.simps [of n]\<close>)
qed

lemma ilog1000_u64: "ilog1000 (unat (n :: u64)) \<le> 6"
proof (rule ccontr)
  assume big: "\<not> ?thesis"
  then have "(1000 :: nat) ^ 7 \<le> 1000 ^ ilog1000 (unat n)" by (intro power_increasing) auto
  moreover have "unat n \<noteq> 0"
  proof
    assume "unat n = 0"
    then have "ilog1000 (unat n) = 0" using ilog1000.simps [of 0] by simp
    with big show False by simp
  qed
  ultimately have "(1000 :: nat) ^ 7 \<le> unat n" using ilog1000_bounds [of "unat n"] by simp
  then show False using unsigned_less [of n, where 'a = nat] by simp
qed

text \<open>
  A number below a thousand is written out; any other is divided by the power of a thousand
  below it, which does not overflow, and gets the unit of that power, never a question mark.
\<close>

lemma abbreviate_number_correct:
  "abbreviate_number fmt num =
     (if unat num < 1000 then to_string (unat num)
      else let p = ilog1000 (unat num) in fmt num (1000 ^ p) @ [''kMGTPE'' ! (p - 1)])"
  "0 < unat num \<Longrightarrow> unat ((1000 :: u64) ^ ilog1000 (unat num)) = 1000 ^ ilog1000 (unat num)"
proof -
  have p: "ilog1000 (unat num) \<le> 6" by (rule ilog1000_u64)
  have "unat num < 1000 \<longleftrightarrow> ilog1000 (unat num) = 0" by (simp add: ilog1000.simps [of "unat num"])
  moreover have "\<And>i. i < 6 \<Longrightarrow> POWER_UNITS ! i = ''kMGTPE'' ! i"
    by (auto simp: POWER_UNITS_def numeral_eq_Suc less_Suc_eq)
  ultimately show "abbreviate_number fmt num =
     (if unat num < 1000 then to_string (unat num)
      else let p = ilog1000 (unat num) in fmt num (1000 ^ p) @ [''kMGTPE'' ! (p - 1)])"
    using p by (auto simp: abbreviate_number_def Let_def POWER_UNITS_def [THEN arg_cong [of _ _ length]])
  have "(1000 :: nat) ^ ilog1000 (unat num) \<le> 1000 ^ 6" using p by (intro power_increasing) auto
  then have "(1000 :: nat) ^ ilog1000 (unat num) < 2 ^ LENGTH(64)" by simp
  moreover have "(1000 :: u64) ^ ilog1000 (unat num) = of_nat (1000 ^ ilog1000 (unat num))" by simp
  ultimately show "unat ((1000 :: u64) ^ ilog1000 (unat num)) = 1000 ^ ilog1000 (unat num)"
    by (simp only: unat_of_nat mod_less)
qed

end
