(* ===== verification/Chunker.thy ===== *)
theory Chunker
  imports Prelude
begin

text \<open>
  The content-defined chunker (\<^verbatim>\<open>common/src/chunker.rs\<close>): the rolling Rabin-Karp hash over a
  ring buffer of 32 values, and the iterator that cuts a byte sequence where the low
  eleven bits of the hash are zero, between the minimum and the maximum chunk size.

  The lemmas show that the incremental hash is the polynomial hash of the last 32 bytes,
  that the unchecked window accesses are in range, that the chunks partition the data and
  respect the size bounds, where exactly the cuts are, and that two inputs which share a
  suffix from a cut on are chunked alike from there.
\<close>

section \<open>Definitions\<close>

definition MIN_CHUNK_SIZE :: nat where "MIN_CHUNK_SIZE = 2 ^ 9"
definition MAX_CHUNK_SIZE :: nat where "MAX_CHUNK_SIZE = 2 ^ 12"
definition CHUNK_MASK :: u32 where "CHUNK_MASK = push_bit 11 1 - 1"

definition WINDOW_SIZE :: nat where "WINDOW_SIZE = 32"
definition OFFSET :: u32 where "OFFSET = 31"
definition MULT :: u32 where "MULT = 0x08104225"
definition WINDOW_MULT :: u32 where "WINDOW_MULT = MULT ^ (WINDOW_SIZE + 1)"

record rabin_karp_hash =
  rk_hash :: u32
  rk_window :: "u32 list"
  rk_window_pos :: nat

definition rk_new :: rabin_karp_hash where
  "rk_new = \<lparr> rk_hash = 0, rk_window = replicate WINDOW_SIZE 0, rk_window_pos = 0 \<rparr>"

definition rk_update :: "rabin_karp_hash \<Rightarrow> u8 \<Rightarrow> rabin_karp_hash \<times> u32" where
  "rk_update h added_byte =
     (let added = ucast added_byte + OFFSET;
          removed = rk_window h ! rk_window_pos h * WINDOW_MULT;
          hash = (rk_hash h + added) * MULT - removed
      in (h\<lparr> rk_hash := hash,
             rk_window := (rk_window h)[rk_window_pos h := added],
             rk_window_pos := (rk_window_pos h + 1) mod WINDOW_SIZE \<rparr>, hash))"

definition rk_reset :: "rabin_karp_hash \<Rightarrow> rabin_karp_hash" where
  "rk_reset h = h\<lparr> rk_hash := 0, rk_window := map (\<lambda>_. 0) (rk_window h), rk_window_pos := 0 \<rparr>"

record chunker =
  rolling_hash :: rabin_karp_hash
  chunker_data :: bytes

definition chunker_new :: "bytes \<Rightarrow> chunker" where
  "chunker_new d = \<lparr> rolling_hash = rk_new, chunker_data = d \<rparr>"

text \<open>The \<^verbatim>\<open>for\<close> loop of \<^verbatim>\<open>Chunker::next\<close>: the hasher and the chunk size it leaves behind.\<close>

fun scan :: "rabin_karp_hash \<Rightarrow> bytes \<Rightarrow> nat \<Rightarrow> rabin_karp_hash \<times> nat" where
  "scan h [] chunk_size = (h, chunk_size)"
| "scan h (byte # rest) chunk_size =
     (let (h', hash) = rk_update h byte; chunk_size' = chunk_size + 1
      in if hash AND CHUNK_MASK = 0 \<or> MAX_CHUNK_SIZE \<le> chunk_size' then (h', chunk_size')
         else scan h' rest chunk_size')"

definition chunker_next :: "chunker \<Rightarrow> bytes option \<times> chunker" where
  "chunker_next c =
     (if chunker_data c = [] then (None, c)
      else let start = min MIN_CHUNK_SIZE (length (chunker_data c));
               (h, chunk_size) = scan (rolling_hash c) (drop start (chunker_data c)) start
           in (Some (take chunk_size (chunker_data c)),
               \<lparr> rolling_hash = rk_reset h, chunker_data = drop chunk_size (chunker_data c) \<rparr>))"

section \<open>The rolling hash is the polynomial hash of the window\<close>

text \<open>The reference: the most recent value first, the j-th value weighted by the (j+1)-th power.\<close>

primrec poly_hash :: "u32 list \<Rightarrow> u32" where
  "poly_hash [] = 0"
| "poly_hash (w # ws) = (w + poly_hash ws) * MULT"

definition window_hash :: "bytes \<Rightarrow> u32" where
  "window_hash bs = poly_hash (map (\<lambda>b. ucast b + OFFSET) (take WINDOW_SIZE (rev bs)))"

definition rk_feed :: "rabin_karp_hash \<Rightarrow> bytes \<Rightarrow> rabin_karp_hash" where
  "rk_feed h bs = foldl (\<lambda>h b. fst (rk_update h b)) h bs"

definition rk_recent :: "rabin_karp_hash \<Rightarrow> u32 list" where
  "rk_recent h = rev (rotate (rk_window_pos h) (rk_window h))"

definition rk_wf :: "rabin_karp_hash \<Rightarrow> bool" where
  "rk_wf h \<longleftrightarrow> length (rk_window h) = WINDOW_SIZE \<and> rk_window_pos h < WINDOW_SIZE \<and>
     rk_hash h = poly_hash (rk_recent h)"

lemma poly_hash_append_zeros [simp]: "poly_hash (ws @ replicate n 0) = poly_hash ws"
proof -
  have "poly_hash (replicate n 0) = 0" by (induction n) simp_all
  then show ?thesis by (induction ws) simp_all
qed

lemma poly_hash_snoc: "poly_hash (ws @ [x]) = poly_hash ws + x * MULT ^ Suc (length ws)"
  by (induction ws) (simp_all add: algebra_simps)

lemma ring_write:
  assumes "i < length xs"
  shows "rotate (Suc i mod length xs) (xs[i := a]) = tl (rotate i xs) @ [a]"
    and "rotate i xs = (xs ! i) # tl (rotate i xs)"
proof -
  obtain us x vs where xs: "xs = us @ x # vs" and i: "i = length us"
    using assms by (metis id_take_nth_drop length_take min.absorb4)
  show "rotate i xs = (xs ! i) # tl (rotate i xs)"
    by (simp add: xs i rotate_drop_take)
  show "rotate (Suc i mod length xs) (xs[i := a]) = tl (rotate i xs) @ [a]"
    by (cases vs) (simp_all add: xs i rotate_drop_take)
qed

lemma rk_recent_update:
  assumes "rk_wf h"
  shows "rk_recent (fst (rk_update h b)) = (ucast b + OFFSET) # butlast (rk_recent h)"
  using assms ring_write [of "rk_window_pos h" "rk_window h"]
  by (simp add: rk_wf_def rk_recent_def rk_update_def Let_def WINDOW_SIZE_def)

lemma rk_wf_update:
  assumes "rk_wf h"
  shows "rk_wf (fst (rk_update h b))"
proof -
  let ?x = "rk_window h ! rk_window_pos h" and ?a = "ucast b + OFFSET :: u32"
  define rest where "rest = butlast (rk_recent h)"
  have rec: "rk_recent h = rest @ [?x]"
    using assms ring_write(2) [of "rk_window_pos h" "rk_window h"]
    by (metis butlast_snoc rest_def rev.simps(2) rk_recent_def rk_wf_def)
  have "length (rk_recent h) = WINDOW_SIZE"
    using assms by (simp add: rk_wf_def rk_recent_def)
  then have len: "Suc (length rest) = WINDOW_SIZE" by (simp add: rec)
  have "(rk_hash h + ?a) * MULT - ?x * WINDOW_MULT = poly_hash (?a # rest)"
    using assms by (simp add: rk_wf_def rec poly_hash_snoc len WINDOW_MULT_def algebra_simps)
  moreover have "rk_recent (fst (rk_update h b)) = ?a # rest"
    using assms by (simp add: rk_recent_update rest_def)
  ultimately show ?thesis
    using assms by (simp add: rk_wf_def rk_update_def Let_def)
qed

lemma rk_wf_new: "rk_wf rk_new"
  using poly_hash_append_zeros [of "[]" WINDOW_SIZE]
  by (simp add: rk_wf_def rk_new_def rk_recent_def WINDOW_SIZE_def)

lemma rk_reset_new: "length (rk_window h) = WINDOW_SIZE \<Longrightarrow> rk_reset h = rk_new"
  by (simp add: rk_reset_def rk_new_def map_replicate_const)

lemma snd_rk_update: "snd (rk_update h b) = rk_hash (fst (rk_update h b))"
  by (simp add: rk_update_def Let_def)

lemma rk_feed_simps [simp]:
  "rk_feed h [] = h" "rk_feed h (b # bs) = rk_feed (fst (rk_update h b)) bs"
  by (simp_all add: rk_feed_def)

lemma rk_feed_append: "rk_feed h (xs @ ys) = rk_feed (rk_feed h xs) ys"
  by (simp add: rk_feed_def)

lemma rk_wf_feed: "rk_wf h \<Longrightarrow> rk_wf (rk_feed h bs)"
  by (induction bs arbitrary: h) (simp_all add: rk_wf_update)

lemma rk_recent_feed:
  "rk_wf h \<Longrightarrow> rk_recent (rk_feed h bs) =
     take WINDOW_SIZE (rev (map (\<lambda>b. ucast b + OFFSET) bs) @ rk_recent h)"
proof (induction bs arbitrary: h)
  case Nil
  then show ?case by (simp add: rk_wf_def rk_recent_def)
next
  case (Cons b bs)
  have "length (rk_recent h) = WINDOW_SIZE"
    using Cons.prems by (simp add: rk_wf_def rk_recent_def)
  then show ?case
    using Cons by (simp add: rk_wf_update rk_recent_update butlast_conv_take)
      (auto simp: take_Cons' WINDOW_SIZE_def min_def)
qed

lemma rk_recent_new: "rk_recent rk_new = replicate WINDOW_SIZE 0"
  by (simp add: rk_recent_def rk_new_def)

lemma rk_hash_feed_new: "rk_hash (rk_feed rk_new bs) = window_hash bs"
proof -
  have "rk_hash (rk_feed rk_new bs) = poly_hash (rk_recent (rk_feed rk_new bs))"
    using rk_wf_feed [OF rk_wf_new] by (simp add: rk_wf_def)
  also have "\<dots> = poly_hash (take WINDOW_SIZE (rev (map (\<lambda>b. ucast b + OFFSET) bs)) @
      replicate (WINDOW_SIZE - length bs) 0)"
    by (simp add: rk_recent_feed [OF rk_wf_new] rk_recent_new min_def)
  finally show ?thesis
    by (simp add: window_hash_def rev_map take_map)
qed

section \<open>The chunk iterator\<close>

text \<open>Where the scan stops: a split position is the maximum size or a masked hash of zero.\<close>

definition split_at :: "bytes \<Rightarrow> nat \<Rightarrow> bool" where
  "split_at d n \<longleftrightarrow> MAX_CHUNK_SIZE \<le> n \<or>
     window_hash (drop MIN_CHUNK_SIZE (take n d)) AND CHUNK_MASK = 0"

lemma scan_Cons:
  "scan h (b # rest) n =
     (let h' = fst (rk_update h b)
      in if rk_hash h' AND CHUNK_MASK = 0 \<or> MAX_CHUNK_SIZE \<le> n + 1 then (h', n + 1) else scan h' rest (n + 1))"
  by (simp add: case_prod_beta snd_rk_update Let_def)

declare scan.simps(2) [simp del]

lemma scan_wf: "rk_wf h \<Longrightarrow> rk_wf (fst (scan h bs n))"
  by (induction bs arbitrary: h n) (simp_all add: scan_Cons rk_wf_update Let_def)

lemma scan_spec:
  assumes "scan (rk_feed rk_new pre) rest n = (h', m)"
  shows "n \<le> m \<and> m \<le> n + length rest \<and> (rest \<noteq> [] \<longrightarrow> n < m)
    \<and> (m < n + length rest \<longrightarrow> MAX_CHUNK_SIZE \<le> m \<or> window_hash (pre @ take (m - n) rest) AND CHUNK_MASK = 0)
    \<and> (\<forall>k. n < k \<and> k < m \<longrightarrow> k < MAX_CHUNK_SIZE \<and> window_hash (pre @ take (k - n) rest) AND CHUNK_MASK \<noteq> 0)"
  using assms
proof (induction rest arbitrary: pre n)
  case Nil
  then show ?case by auto
next
  case (Cons b rest)
  have h: "fst (rk_update (rk_feed rk_new pre) b) = rk_feed rk_new (pre @ [b])"
    by (simp add: rk_feed_append)
  show ?case
  proof (cases "window_hash (pre @ [b]) AND CHUNK_MASK = 0 \<or> MAX_CHUNK_SIZE \<le> n + 1")
    case True
    then have "m = n + 1"
      using Cons.prems by (simp add: scan_Cons h rk_hash_feed_new Let_def)
    then show ?thesis using True by auto
  next
    case False
    then have "scan (rk_feed rk_new (pre @ [b])) rest (n + 1) = (h', m)"
      using Cons.prems by (simp add: scan_Cons h rk_hash_feed_new Let_def)
    note IH = Cons.IH [OF this]
    have shift: "take (k - n) (b # rest) = b # take (k - (n + 1)) rest" if "n < k" for k
      using that by (metis Suc_diff_Suc Suc_eq_plus1 take_Suc_Cons)
    show ?thesis
    proof (intro conjI allI impI)
      fix k assume k: "n < k \<and> k < m"
      show "k < MAX_CHUNK_SIZE"
        using IH k False by (cases "k = n + 1") auto
      show "window_hash (pre @ take (k - n) (b # rest)) AND CHUNK_MASK \<noteq> 0"
        using IH k False shift [of k] by (cases "k = n + 1") auto
    qed (use IH shift [of m] in auto)
  qed
qed

lemma chunker_next_spec:
  assumes "d \<noteq> []"
  obtains n where "chunker_next (chunker_new d) = (Some (take n d), chunker_new (drop n d))"
    and "0 < n" "n \<le> length d"
    and "n < length d \<longrightarrow> MIN_CHUNK_SIZE < n \<and> split_at d n"
    and "n \<le> MAX_CHUNK_SIZE"
    and "\<forall>k. MIN_CHUNK_SIZE < k \<and> k < n \<longrightarrow> \<not> split_at d k"
proof -
  define s where "s = min MIN_CHUNK_SIZE (length d)"
  obtain h n where sc: "scan rk_new (drop s d) s = (h, n)" by fastforce
  have sp: "s \<le> n \<and> n \<le> s + length (drop s d) \<and> (drop s d \<noteq> [] \<longrightarrow> s < n)
    \<and> (n < s + length (drop s d) \<longrightarrow> MAX_CHUNK_SIZE \<le> n \<or> window_hash (take (n - s) (drop s d)) AND CHUNK_MASK = 0)
    \<and> (\<forall>k. s < k \<and> k < n \<longrightarrow> k < MAX_CHUNK_SIZE \<and> window_hash (take (k - s) (drop s d)) AND CHUNK_MASK \<noteq> 0)"
    using scan_spec [of "[]" "drop s d" s h n] sc by simp
  have "rk_wf h" using scan_wf [OF rk_wf_new, of "drop s d" s] sc by simp
  then have "rk_reset h = rk_new" by (simp add: rk_wf_def rk_reset_new)
  with sc assms have "chunker_next (chunker_new d) = (Some (take n d), chunker_new (drop n d))"
    by (simp add: chunker_next_def chunker_new_def flip: s_def)
  moreover have "0 < n" "n \<le> length d"
    using sp assms by (auto simp: s_def MIN_CHUNK_SIZE_def)
  moreover have small: "take (k - s) (drop s d) = drop MIN_CHUNK_SIZE (take k d)"
    if "MIN_CHUNK_SIZE < length d" for k
    using that by (simp add: s_def drop_take)
  then have "n < length d \<longrightarrow> MIN_CHUNK_SIZE < n \<and> split_at d n"
    using sp by (auto simp: split_at_def s_def min_def split: if_splits)
  moreover have "n \<le> MAX_CHUNK_SIZE"
  proof (rule ccontr)
    assume "\<not> n \<le> MAX_CHUNK_SIZE"
    moreover have "s < MAX_CHUNK_SIZE" by (simp add: s_def MIN_CHUNK_SIZE_def MAX_CHUNK_SIZE_def)
    ultimately show False using sp by (metis less_irrefl not_le)
  qed
  moreover have "\<forall>k. MIN_CHUNK_SIZE < k \<and> k < n \<longrightarrow> \<not> split_at d k"
    using sp small by (auto simp: split_at_def s_def min_def split: if_splits)
  ultimately show thesis by (rule that)
qed

text \<open>Running the iterator to its end, as the \<^verbatim>\<open>for chunk in chunker\<close> loop does.\<close>

lemma chunker_next_shrinks:
  assumes "chunker_next c = (Some x, c')"
  shows "length (chunker_data c') < length (chunker_data c)"
proof -
  have mono: "n \<le> snd (scan h bs n)" for h bs n
    by (induction bs arbitrary: h n) (auto simp: scan_Cons Let_def intro: Suc_leD)
  from assms have ne: "chunker_data c \<noteq> []"
    by (auto simp: chunker_next_def)
  define s where "s = min MIN_CHUNK_SIZE (length (chunker_data c))"
  have "0 < s" using ne by (simp add: s_def MIN_CHUNK_SIZE_def)
  also have "s \<le> snd (scan (rolling_hash c) (drop s (chunker_data c)) s)" by (rule mono)
  finally show ?thesis
    using assms ne by (auto simp: chunker_next_def case_prod_beta Let_def s_def)
qed

function collect_chunks :: "chunker \<Rightarrow> bytes list" where
  "collect_chunks c = (case chunker_next c of (None, _) \<Rightarrow> [] | (Some x, c') \<Rightarrow> x # collect_chunks c')"
  by pat_completeness auto
termination
  by (relation "measure (\<lambda>c. length (chunker_data c))") (auto dest: chunker_next_shrinks [OF sym])

declare collect_chunks.simps [simp del]

definition chunks_of :: "bytes \<Rightarrow> bytes list" where
  "chunks_of d = collect_chunks (chunker_new d)"

lemma chunks_of_Nil [simp]: "chunks_of [] = []"
  by (simp add: chunks_of_def collect_chunks.simps chunker_next_def chunker_new_def)

lemma chunks_of_step:
  "chunker_next (chunker_new d) = (Some x, chunker_new r) \<Longrightarrow> chunks_of d = x # chunks_of r"
  by (simp add: chunks_of_def collect_chunks.simps [of "chunker_new d"])

text \<open>Induction over the cuts, with what each cut satisfies.\<close>

lemma chunks_of_induct [case_names Nil Cut]:
  assumes "P []"
    and "\<And>n d. \<lbrakk> 0 < n; n \<le> length d; n \<le> MAX_CHUNK_SIZE; n < length d \<longrightarrow> MIN_CHUNK_SIZE < n \<and> split_at d n;
        \<forall>k. MIN_CHUNK_SIZE < k \<and> k < n \<longrightarrow> \<not> split_at d k; chunks_of d = take n d # chunks_of (drop n d);
        P (drop n d) \<rbrakk> \<Longrightarrow> P d"
  shows "P d"
proof (induction d rule: length_induct)
  case (1 d)
  show ?case
  proof (cases "d = []")
    case True
    then show ?thesis using assms(1) by simp
  next
    case False
    then obtain n where n: "chunker_next (chunker_new d) = (Some (take n d), chunker_new (drop n d))"
      "0 < n" "n \<le> length d" "n < length d \<longrightarrow> MIN_CHUNK_SIZE < n \<and> split_at d n" "n \<le> MAX_CHUNK_SIZE"
      "\<forall>k. MIN_CHUNK_SIZE < k \<and> k < n \<longrightarrow> \<not> split_at d k"
      by (rule chunker_next_spec)
    note step = chunks_of_step [OF n(1)]
    have "P (drop n d)"
      using 1 False n(2) by simp
    with n step assms(2) [of n d] show ?thesis by simp
  qed
qed

lemma concat_chunks_of: "concat (chunks_of d) = d"
  by (induction d rule: chunks_of_induct) simp_all

lemma chunks_of_sizes:
  "c \<in> set (chunks_of d) \<Longrightarrow> c \<noteq> [] \<and> length c \<le> MAX_CHUNK_SIZE"
  by (induction d rule: chunks_of_induct) auto

lemma chunks_of_Nil_iff [simp]: "chunks_of d = [] \<longleftrightarrow> d = []"
  by (metis chunks_of_Nil concat.simps(1) concat_chunks_of)

lemma chunks_of_min_sizes: "c \<in> set (butlast (chunks_of d)) \<Longrightarrow> MIN_CHUNK_SIZE < length c"
  by (induction d rule: chunks_of_induct) (auto split: if_splits)

lemma chunks_of_small:
  assumes "d \<noteq> []" "length d \<le> MIN_CHUNK_SIZE"
  shows "chunks_of d = [d]"
proof -
  from assms(1) obtain n where "chunker_next (chunker_new d) = (Some (take n d), chunker_new (drop n d))"
    "n \<le> length d" "n < length d \<longrightarrow> MIN_CHUNK_SIZE < n \<and> split_at d n"
    by (rule chunker_next_spec)
  with assms(2) show ?thesis
    by (cases "n = length d") (simp_all add: chunks_of_step)
qed

text \<open>A cut position of the data is the end of some prefix of its chunks.\<close>

lemma chunks_of_resume:
  "concat (take i (chunks_of d)) @ s = d \<Longrightarrow> i \<le> length (chunks_of d) \<Longrightarrow> drop i (chunks_of d) = chunks_of s"
proof (induction d arbitrary: i rule: chunks_of_induct)
  case Nil
  then show ?case by simp
next
  case (Cut n d)
  show ?case
  proof (cases i)
    case 0
    with Cut.prems show ?thesis by simp
  next
    case (Suc j)
    with Cut.prems(1) have "take n d @ concat (take j (chunks_of (drop n d))) @ s = take n d @ drop n d"
      by (simp add: Cut.hyps(6))
    then have "concat (take j (chunks_of (drop n d))) @ s = drop n d"
      by (simp only: same_append_eq)
    moreover have "j \<le> length (chunks_of (drop n d))"
      using Cut.prems(2) Suc by (simp add: Cut.hyps(6))
    ultimately show ?thesis
      using Cut.IH [of j] Suc by (simp add: Cut.hyps(6))
  qed
qed

text \<open>A concrete cut after 514 bytes: the two bytes after the minimum size hash to a split point.\<close>

lemma first_chunk_example:
  "chunks_of (replicate 512 p @ 6 # 136 # s) = (replicate 512 p @ [6, 136]) # chunks_of s"
  by (rule chunks_of_step)
    (simp add: chunker_next_def chunker_new_def MIN_CHUNK_SIZE_def MAX_CHUNK_SIZE_def scan_Cons rk_update_def
      rk_new_def WINDOW_SIZE_def OFFSET_def MULT_def WINDOW_MULT_def CHUNK_MASK_def Let_def rk_reset_def
      map_replicate_const)

section \<open>Properties\<close>

text \<open>
  C35. The rolling hash is correct: after any bytes, the value \<^verbatim>\<open>update\<close> returns is the
  polynomial hash of the last 32 bytes (fewer at the start), although it is computed by
  one multiplication and one subtraction per byte, and the position it reads and writes
  without a bounds check is inside the window.
\<close>

theorem rolling_hash_correct:
  "snd (rk_update (rk_feed rk_new bs) b) = window_hash (bs @ [b]) \<and>
   rk_window_pos (rk_feed rk_new bs) < length (rk_window (rk_feed rk_new bs))"
proof
  show "snd (rk_update (rk_feed rk_new bs) b) = window_hash (bs @ [b])"
    by (simp add: snd_rk_update rk_feed_append flip: rk_hash_feed_new)
  show "rk_window_pos (rk_feed rk_new bs) < length (rk_window (rk_feed rk_new bs))"
    using rk_wf_feed [OF rk_wf_new] by (simp add: rk_wf_def)
qed

text \<open>
  C20. The chunks partition the data: their concatenation is the input, none is empty,
  none is longer than 4096 bytes, and all but the last are longer than 512 bytes.
\<close>

theorem chunks_partition:
  "concat (chunks_of d) = d \<and>
   list_all (\<lambda>c. c \<noteq> [] \<and> length c \<le> 4096) (chunks_of d) \<and>
   list_all (\<lambda>c. 512 < length c) (butlast (chunks_of d))"
  using chunks_of_sizes [of _ d] chunks_of_min_sizes [of _ d]
  by (auto simp: concat_chunks_of list_all_iff MAX_CHUNK_SIZE_def MIN_CHUNK_SIZE_def)

text \<open>
  C36. Where the first cut is: the first position beyond 512 bytes at which the hash of the
  window has its low eleven bits zero or the size is 4096, and the end of the data if
  there is none; the iterator continues with exactly the rest.
\<close>

theorem first_cut:
  assumes "d \<noteq> []"
  shows "\<exists>n. chunks_of d = take n d # chunks_of (drop n d) \<and> 0 < n \<and> n \<le> length d \<and>
    (n < length d \<longrightarrow> 512 < n \<and> split_at d n) \<and> (\<forall>k. 512 < k \<and> k < n \<longrightarrow> \<not> split_at d k)"
proof -
  from assms obtain n where "chunker_next (chunker_new d) = (Some (take n d), chunker_new (drop n d))"
    "0 < n" "n \<le> length d" "n < length d \<longrightarrow> MIN_CHUNK_SIZE < n \<and> split_at d n"
    "\<forall>k. MIN_CHUNK_SIZE < k \<and> k < n \<longrightarrow> \<not> split_at d k"
    by (rule chunker_next_spec)
  then show ?thesis
    by (intro exI [of _ n]) (simp add: chunks_of_step MIN_CHUNK_SIZE_def)
qed

theorem first_cut_witness:
  "\<exists>n. chunks_of [7] = take n [7] # chunks_of (drop n [7]) \<and> 0 < n \<and> n \<le> length ([7] :: bytes)"
  using first_cut [of "[7]"] by blast

text \<open>
  C37. Content-defined chunking resynchronises: if two inputs end in the same suffix and
  both have a cut where the suffix begins, then from there on their chunks are the same,
  whatever came before.
\<close>

theorem chunking_resynchronises:
  assumes "concat (take i (chunks_of d)) @ s = d" "i \<le> length (chunks_of d)"
    and "concat (take j (chunks_of e)) @ s = e" "j \<le> length (chunks_of e)"
  shows "drop i (chunks_of d) = drop j (chunks_of e)"
  using chunks_of_resume [OF assms(1,2)] chunks_of_resume [OF assms(3,4)] by simp

theorem chunking_resynchronises_witness:
  "drop 1 (chunks_of (replicate 512 0 @ [6, 136, 1, 2, 3])) =
   drop 1 (chunks_of (replicate 512 9 @ [6, 136, 1, 2, 3]))"
  by (rule chunking_resynchronises [where s = "[1, 2, 3]"]) (simp_all add: first_chunk_example)

end
