(* ===== verification/Dedup.thy ===== *)
theory Dedup
  imports Chunker
begin

text \<open>
  Deduplication (\<^verbatim>\<open>common/src/dedup.rs\<close>): the chunk list and its serialised form, the
  construction of the hash tree over the chunks of a byte sequence, its minimised root,
  and the two traversals that read it back through a chunk provider.

  \<^item> The hash function (\<^verbatim>\<open>blake3::hash\<close>) is a parameter \<open>H\<close>; the theorems that need it
    assume that its output has 32 bytes and that it does not collide on the blobs that
    were actually stored.
  \<^item> A \<^verbatim>\<open>HashMap<ChunkKey, Bytes>\<close> is an association list with the newest insertion first,
    read with \<^const>\<open>map_of\<close>: it keeps what an overwriting insertion replaced, so that
    "no collision among the stored blobs" can be said of the map itself.
  \<^item> The tree levels are the list \<open>node # up\<close> from the leaf level upwards; the \<^verbatim>\<open>while\<close> loop
    over \<^verbatim>\<open>level\<close> is the recursion \<open>split_levels\<close> on \<^verbatim>\<open>tree_levels[level..]\<close>.
\<close>

section \<open>Definitions\<close>

definition MIN_CHUNKS_IN_LIST :: nat where "MIN_CHUNKS_IN_LIST = 32"
definition AVG_CHUNKS_IN_LIST :: u32 where "AVG_CHUNKS_IN_LIST = 128"
definition MAX_CHUNKS_IN_LIST :: nat where "MAX_CHUNKS_IN_LIST = 512"
definition MINIMIZE_THRESHOLD :: nat where "MINIMIZE_THRESHOLD = 64"
definition OUT_LEN :: nat where "OUT_LEN = 32"

type_synonym chunk_key = bytes
type_synonym hash_fun = "bytes \<Rightarrow> chunk_key"
type_synonym chunk_store = "(chunk_key \<times> bytes) list"

definition store_insert :: "chunk_key \<Rightarrow> bytes \<Rightarrow> chunk_store \<Rightarrow> chunk_store" where
  "store_insert k v m = (k, v) # m"

definition store_len :: "chunk_store \<Rightarrow> nat" where
  "store_len m = length (remdups (map fst m))"

record chunk_list =
  cl_is_leaf :: bool
  cl_chunks :: "chunk_key list"

definition cl_new_empty :: "bool \<Rightarrow> chunk_list" where
  "cl_new_empty is_leaf = \<lparr> cl_is_leaf = is_leaf, cl_chunks = [] \<rparr>"

definition cl_push_chunk :: "chunk_list \<Rightarrow> chunk_key \<Rightarrow> chunk_list" where
  "cl_push_chunk cl k = cl\<lparr> cl_chunks := cl_chunks cl @ [k] \<rparr>"

definition cl_decode :: "bytes \<Rightarrow> chunk_list res" where
  "cl_decode buf =
     and_then (try_get_u8 buf) (\<lambda>(is_leaf, buf).
     and_then (try_get_u32 buf) (\<lambda>(chunk_count, buf).
     and_then (get_many (try_take OUT_LEN) (unat chunk_count) buf) (\<lambda>(chunks, _).
     Inr \<lparr> cl_is_leaf = (is_leaf \<noteq> 0), cl_chunks = chunks \<rparr>)))"

definition cl_encode :: "chunk_list \<Rightarrow> bytes res" where
  "cl_encode cl =
     (if length (cl_chunks cl) < 2 ^ 32 then
        Inr (put_u8 (of_bool (cl_is_leaf cl)) @ put_u32 (of_nat (length (cl_chunks cl))) @ concat (cl_chunks cl))
      else Inl (Panic ''ChunkList is too big''))"

definition is_split_point :: "chunk_key \<Rightarrow> nat \<Rightarrow> bool" where
  "is_split_point hash num_nodes =
     (if num_nodes < MIN_CHUNKS_IN_LIST then False
      else if MAX_CHUNKS_IN_LIST \<le> num_nodes then True
      else (from_le (rev (take 4 hash)) :: u32) mod AVG_CHUNKS_IN_LIST = 0)"

function split_levels ::
  "hash_fun \<Rightarrow> chunk_key \<Rightarrow> chunk_list list \<Rightarrow> chunk_store \<Rightarrow> (chunk_list list \<times> chunk_store) res" where
  "split_levels H hash [] m = Inl (Panic ''index out of bounds'')"
| "split_levels H hash (node # up) m =
     (if is_split_point hash (length (cl_chunks node)) then
        and_then (cl_encode node) (\<lambda>serialized.
          let hash' = H serialized;
              up' = (if up = [] then [cl_new_empty False] else up)
          in and_then (split_levels H hash' (cl_push_chunk (hd up') hash' # tl up') (store_insert hash' serialized m))
               (\<lambda>(up'', m'). Inr (cl_new_empty (cl_is_leaf node) # up'', m')))
      else Inr (node # up, m))"
  by pat_completeness auto
termination
proof (relation "measure (\<lambda>(H, hash, levels, m). \<Sum>l\<leftarrow>levels. length (cl_chunks l))", goal_cases)
  case 1
  then show ?case by simp
next
  case (2 H hash node up m serialized hash' up')
  have "32 \<le> length (cl_chunks node)"
    using 2(1) by (auto simp: is_split_point_def MIN_CHUNKS_IN_LIST_def split: if_splits)
  then show ?case
    using 2(4) by (cases up) (simp_all add: cl_push_chunk_def cl_new_empty_def)
qed

fun add_chunks ::
  "hash_fun \<Rightarrow> bytes list \<Rightarrow> chunk_list list \<Rightarrow> chunk_store \<Rightarrow> (chunk_list list \<times> chunk_store) res" where
  "add_chunks H [] levels m = Inr (levels, m)"
| "add_chunks H (chunk # rest) [] m = Inl (Panic ''index out of bounds'')"
| "add_chunks H (chunk # rest) (leaf # up) m =
     (let hash = H chunk
      in and_then (split_levels H hash (cl_push_chunk leaf hash # up) (store_insert hash chunk m))
           (\<lambda>(levels, m'). add_chunks H rest levels m'))"

fun finish_tree :: "hash_fun \<Rightarrow> chunk_list list \<Rightarrow> chunk_store \<Rightarrow> (chunk_list \<times> chunk_store) res" where
  "finish_tree H [] m = Inl (Panic ''called `Option::unwrap()` on a `None` value'')"
| "finish_tree H [root] m = Inr (root, m)"
| "finish_tree H (node # up # ups) m =
     (if cl_chunks node = [] then finish_tree H (up # ups) m
      else and_then (cl_encode node) (\<lambda>serialized.
        let hash = H serialized
        in finish_tree H (cl_push_chunk up hash # ups) (store_insert hash serialized m)))"

definition chunk_data :: "hash_fun \<Rightarrow> bytes \<Rightarrow> chunk_store \<Rightarrow> (chunk_list \<times> chunk_store) res" where
  "chunk_data H data m =
     and_then (add_chunks H (chunks_of data) [cl_new_empty True] m) (\<lambda>(levels, m'). finish_tree H levels m')"

definition minimize_chunk_list :: "hash_fun \<Rightarrow> chunk_list \<Rightarrow> chunk_store \<Rightarrow> (chunk_list \<times> chunk_store) res" where
  "minimize_chunk_list H chunk_list m =
     (if length (cl_chunks chunk_list) < MINIMIZE_THRESHOLD then Inr (chunk_list, m)
      else and_then (cl_encode chunk_list) (\<lambda>serialized.
        let hash = H serialized
        in Inr (cl_push_chunk (cl_new_empty False) hash, store_insert hash serialized m)))"

subsection \<open>Chunk providers\<close>

text \<open>
  The trait \<^verbatim>\<open>ChunkProvider\<close>: a state and its two operations. \<^verbatim>\<open>get_chunk\<close> may change the
  state also when it fails.
\<close>

record 's chunk_provider =
  prefetch :: "chunk_key list \<Rightarrow> 's \<Rightarrow> 's"
  get_chunk :: "chunk_key \<Rightarrow> 's \<Rightarrow> bytes res \<times> 's"

definition map_provider :: "chunk_store chunk_provider" where
  "map_provider = \<lparr>
     prefetch = (\<lambda>_ m. m),
     get_chunk = (\<lambda>key m. (case map_of m key of Some b \<Rightarrow> Inr b | None \<Rightarrow> Inl (Panic ''No such key''), m)) \<rparr>"

text \<open>
  \<^verbatim>\<open>prefetch_metadata_chunks\<close>: breadth first over the non-leaf nodes. One unit of fuel per
  round of the \<^verbatim>\<open>while\<close> loop; \<open>None\<close> is a traversal that has not ended.
\<close>

fun fetch_children ::
  "'s chunk_provider \<Rightarrow> chunk_key list \<Rightarrow> 's \<Rightarrow> chunk_list list res \<times> 's" where
  "fetch_children prov [] s = (Inr [], s)"
| "fetch_children prov (k # ks) s =
     (case get_chunk prov k s of
        (Inl e, s') \<Rightarrow> (Inl e, s')
      | (Inr child_chunk, s') \<Rightarrow>
          (case cl_decode child_chunk of
             Inl e \<Rightarrow> (Inl e, s')
           | Inr child \<Rightarrow>
               (case fetch_children prov ks s' of
                  (Inl e, s'') \<Rightarrow> (Inl e, s'')
                | (Inr children, s'') \<Rightarrow> (Inr (child # children), s''))))"

definition child_keys :: "chunk_list list \<Rightarrow> chunk_key list" where
  "child_keys level = concat (map cl_chunks (filter (\<lambda>cl. \<not> cl_is_leaf cl) level))"

primrec prefetch_metadata_chunks ::
  "nat \<Rightarrow> 's chunk_provider \<Rightarrow> chunk_list list \<Rightarrow> 's \<Rightarrow> (unit res \<times> 's) option" where
  "prefetch_metadata_chunks 0 prov current_level s = None"
| "prefetch_metadata_chunks (Suc fuel) prov current_level s =
     (if current_level = [] then Some (Inr (), s)
      else let s1 = prefetch prov (concat (map cl_chunks current_level)) s
           in (case fetch_children prov (child_keys current_level) s1 of
                 (Inl e, s2) \<Rightarrow> Some (Inl e, s2)
               | (Inr next_level, s2) \<Rightarrow> prefetch_metadata_chunks fuel prov next_level s2))"

text \<open>
  \<^verbatim>\<open>reconstruct_data\<close>: the chunks the stream yields, how it ends, and the provider's state.
  One unit of fuel per level of the tree; \<open>None\<close> is a stream that has not ended.
\<close>

type_synonym 's stream_end = "(bytes list \<times> unit res \<times> 's) option"

primrec reconstruct_keys ::
  "(chunk_list \<Rightarrow> 's \<Rightarrow> 's stream_end) \<Rightarrow> 's chunk_provider \<Rightarrow> bool \<Rightarrow> chunk_key list \<Rightarrow> 's \<Rightarrow> 's stream_end" where
  "reconstruct_keys rec prov is_leaf [] s = Some ([], Inr (), s)"
| "reconstruct_keys rec prov is_leaf (k # ks) s =
     (case get_chunk prov k s of
        (Inl e, s') \<Rightarrow> Some ([], Inl e, s')
      | (Inr chunk, s') \<Rightarrow>
          (if is_leaf then
             (case reconstruct_keys rec prov is_leaf ks s' of
                None \<Rightarrow> None
              | Some (ys, r, s'') \<Rightarrow> Some (chunk # ys, r, s''))
           else
             (case cl_decode chunk of
                Inl e \<Rightarrow> Some ([], Inl e, s')
              | Inr child \<Rightarrow>
                  (case rec child s' of
                     None \<Rightarrow> None
                   | Some (ys, Inl e, s'') \<Rightarrow> Some (ys, Inl e, s'')
                   | Some (ys, Inr _, s'') \<Rightarrow>
                       (case reconstruct_keys rec prov is_leaf ks s'' of
                          None \<Rightarrow> None
                        | Some (zs, r, s3) \<Rightarrow> Some (ys @ zs, r, s3))))))"

primrec reconstruct_data :: "nat \<Rightarrow> 's chunk_provider \<Rightarrow> chunk_list \<Rightarrow> 's \<Rightarrow> 's stream_end" where
  "reconstruct_data 0 prov chunk_list s = None"
| "reconstruct_data (Suc fuel) prov chunk_list s =
     reconstruct_keys (reconstruct_data fuel prov) prov (cl_is_leaf chunk_list) (cl_chunks chunk_list)
       (prefetch prov (cl_chunks chunk_list) s)"

section \<open>The serialised chunk list\<close>

definition cl_wf :: "chunk_list \<Rightarrow> bool" where
  "cl_wf cl \<longleftrightarrow> list_all (\<lambda>k. length k = OUT_LEN) (cl_chunks cl) \<and> length (cl_chunks cl) < 2 ^ 32"

interpretation keyc: codec "\<lambda>k. length k = OUT_LEN" "\<lambda>k. k" "try_take OUT_LEN"
  by unfold_locales (auto simp: try_take_Inr_iff)

lemma cl_encode_wf: "cl_wf cl \<Longrightarrow> cl_encode cl =
    Inr (put_u8 (of_bool (cl_is_leaf cl)) @ put_u32 (of_nat (length (cl_chunks cl))) @ concat (cl_chunks cl))"
  by (simp add: cl_encode_def cl_wf_def)

lemma cl_decode_encode:
  assumes "cl_wf cl" "cl_encode cl = Inr b"
  shows "cl_decode (b @ r) = Inr cl"
proof -
  have n: "unat (of_nat (length (cl_chunks cl)) :: u32) = length (cl_chunks cl)"
    using assms(1) by (simp add: cl_wf_def unat_of_nat take_bit_nat_eq_self)
  have "get_many (try_take OUT_LEN) (length (cl_chunks cl)) (concat (cl_chunks cl) @ r) = Inr (cl_chunks cl, r)"
    using keyc.get_many_enc [of "cl_chunks cl"] assms(1) by (simp add: cl_wf_def)
  then show ?thesis
    using assms by (auto simp: cl_encode_wf cl_decode_def u8c.dec_enc u32bec.dec_enc n)
qed

lemma length_concat_keys: "list_all (\<lambda>k. length k = OUT_LEN) ks \<Longrightarrow> length (concat ks) = 32 * length ks"
  by (induction ks) (simp_all add: OUT_LEN_def)

lemma cl_decode_parts:
  assumes "cl_decode b = Inr cl"
  obtains l n r where "b = put_u8 l @ put_u32 n @ concat (cl_chunks cl) @ r" "unat n = length (cl_chunks cl)"
    "cl_is_leaf cl \<longleftrightarrow> l \<noteq> 0" "cl_wf cl"
proof -
  from assms obtain l b1 n b2 ks r where 1: "try_get_u8 b = Inr (l, b1)" "try_get_u32 b1 = Inr (n, b2)"
    "get_many (try_take OUT_LEN) (unat n) b2 = Inr (ks, r)"
    and cl: "cl = \<lparr> cl_is_leaf = (l \<noteq> 0), cl_chunks = ks \<rparr>"
    by (auto simp: cl_decode_def and_then_Inr_iff)
  from 1(3) have "list_all (\<lambda>k. length k = OUT_LEN) ks" "length ks = unat n" "b2 = concat ks @ r"
    by (auto dest: keyc.get_many_sound)
  moreover have "unat n < 2 ^ 32" using unsigned_less [of n] by simp
  ultimately show thesis
    using that [of l n r] u8c.dec_sound [OF 1(1)] u32bec.dec_sound [OF 1(2)] cl
    by (simp add: cl_wf_def)
qed

lemma cl_decode_append: "cl_decode b = Inr cl \<Longrightarrow> cl_decode (b @ s) = Inr cl"
proof (erule cl_decode_parts)
  fix l n r
  assume b: "b = put_u8 l @ put_u32 n @ concat (cl_chunks cl) @ r" and n: "unat n = length (cl_chunks cl)"
    and l: "cl_is_leaf cl \<longleftrightarrow> l \<noteq> 0" and wf: "cl_wf cl"
  have "get_many (try_take OUT_LEN) (unat n) (concat (cl_chunks cl) @ r @ s) = Inr (cl_chunks cl, r @ s)"
    using keyc.get_many_enc [of "cl_chunks cl"] wf n by (simp add: cl_wf_def)
  then show "cl_decode (b @ s) = Inr cl"
    using l by (simp add: cl_decode_def b u8c.dec_enc u32bec.dec_enc)
qed

lemma cl_decode_length: "cl_decode b = Inr cl \<Longrightarrow> 5 + 32 * length (cl_chunks cl) \<le> length b"
  by (erule cl_decode_parts) (simp add: cl_wf_def length_concat_keys)

section \<open>The tree a chunk list stands for\<close>

text \<open>
  \<open>tree n S cl cs\<close>: read in the set \<open>S\<close> of stored key-blob pairs, the list \<open>cl\<close> is the root of
  a tree of height \<open>n\<close> whose leaves are the chunks \<open>cs\<close>, from left to right.
\<close>

primrec tree :: "nat \<Rightarrow> (chunk_key \<times> bytes) set \<Rightarrow> chunk_list \<Rightarrow> bytes list \<Rightarrow> bool" where
  "tree 0 S cl cs \<longleftrightarrow> cl_is_leaf cl \<and> list_all2 (\<lambda>k c. (k, c) \<in> S) (cl_chunks cl) cs"
| "tree (Suc n) S cl cs \<longleftrightarrow> \<not> cl_is_leaf cl \<and>
     (\<exists>css. cs = concat css \<and>
        list_all2 (\<lambda>k cs. \<exists>b c. (k, b) \<in> S \<and> cl_decode b = Inr c \<and> tree n S c cs) (cl_chunks cl) css)"

lemma tree_mono: "tree n S cl cs \<Longrightarrow> S \<subseteq> T \<Longrightarrow> tree n T cl cs"
proof (induction n arbitrary: cl cs)
  case 0
  then show ?case by (auto elim: list_all2_mono)
next
  case (Suc n)
  from Suc.prems obtain css where "cs = concat css"
    and "list_all2 (\<lambda>k cs. \<exists>b c. (k, b) \<in> S \<and> cl_decode b = Inr c \<and> tree n S c cs) (cl_chunks cl) css"
    by auto
  moreover have "list_all2 (\<lambda>k cs. \<exists>b c. (k, b) \<in> T \<and> cl_decode b = Inr c \<and> tree n T c cs) (cl_chunks cl) css"
    by (rule list_all2_mono [OF calculation(2)]) (use Suc in blast)
  ultimately show ?case using Suc.prems by auto
qed

lemma tree_new_empty: "tree n S (cl_new_empty (n = 0)) []"
  by (cases n) (auto simp: cl_new_empty_def)

lemma tree_is_leaf: "tree n S cl cs \<Longrightarrow> cl_is_leaf cl \<longleftrightarrow> n = 0"
  by (cases n) auto

lemma tree_push_leaf:
  "tree 0 S cl cs \<Longrightarrow> (k, c) \<in> S \<Longrightarrow> tree 0 S (cl_push_chunk cl k) (cs @ [c])"
  by (auto simp: cl_push_chunk_def list_all2_appendI)

lemma tree_push_node:
  assumes "tree (Suc n) S cl cs" "(k, b) \<in> S" "cl_decode b = Inr c" "tree n S c ds"
  shows "tree (Suc n) S (cl_push_chunk cl k) (cs @ ds)"
proof -
  from assms(1) obtain css where "cs = concat css"
    and "list_all2 (\<lambda>k cs. \<exists>b c. (k, b) \<in> S \<and> cl_decode b = Inr c \<and> tree n S c cs) (cl_chunks cl) css"
    by auto
  with assms show ?thesis
    by (auto simp: cl_push_chunk_def intro!: exI [of _ "css @ [ds]"] list_all2_appendI)
qed

lemma tree_push_encoded:
  assumes "tree (Suc n) S cl cs" "tree n S c ds" "cl_decode b = Inr c"
  shows "tree (Suc n) (insert (k, b) S) (cl_push_chunk cl k) (cs @ ds)"
  by (rule tree_push_node [OF tree_mono [OF assms(1)] _ assms(3) tree_mono [OF assms(2)]]) auto

declare tree.simps [simp del]

text \<open>The levels under construction: the node of level \<open>i\<close> has height \<open>i\<close>, the upper levels come first.\<close>

primrec levels_tree :: "(chunk_key \<times> bytes) set \<Rightarrow> nat \<Rightarrow> chunk_list list \<Rightarrow> bytes list \<Rightarrow> bool" where
  "levels_tree S i [] cs \<longleftrightarrow> cs = []"
| "levels_tree S i (node # up) cs \<longleftrightarrow> (\<exists>a b. cs = a @ b \<and> levels_tree S (Suc i) up a \<and> tree i S node b)"

lemma levels_tree_mono: "levels_tree S i ls cs \<Longrightarrow> S \<subseteq> T \<Longrightarrow> levels_tree T i ls cs"
proof (induction ls arbitrary: i cs)
  case Nil
  then show ?case by simp
next
  case (Cons node up)
  then show ?case unfolding levels_tree.simps by (blast intro: tree_mono)
qed

definition node_ok :: "nat \<Rightarrow> chunk_list \<Rightarrow> bool" where
  "node_ok n cl \<longleftrightarrow> list_all (\<lambda>k. length k = OUT_LEN) (cl_chunks cl) \<and> length (cl_chunks cl) \<le> n"

lemma node_ok_wf: "node_ok n cl \<Longrightarrow> n < 2 ^ 32 \<Longrightarrow> cl_wf cl"
  by (simp add: node_ok_def cl_wf_def)

lemma node_ok_push: "node_ok n cl \<Longrightarrow> length k = OUT_LEN \<Longrightarrow> node_ok (Suc n) (cl_push_chunk cl k)"
  by (simp add: node_ok_def cl_push_chunk_def)

lemma node_ok_new_empty [simp]: "node_ok n (cl_new_empty l)"
  by (simp add: node_ok_def cl_new_empty_def)

lemma node_ok_encode:
  assumes "node_ok 512 cl"
  obtains b where "cl_encode cl = Inr b" "\<forall>r. cl_decode (b @ r) = Inr cl"
    "length b = 5 + 32 * length (cl_chunks cl)"
proof -
  from assms have "cl_wf cl" by (rule node_ok_wf) simp
  then show thesis
    using assms that [OF cl_encode_wf] cl_decode_encode [OF _ cl_encode_wf]
    by (simp add: node_ok_def length_concat_keys)
qed

subsection \<open>Building the tree\<close>

text \<open>
  What every step of the construction keeps: the levels stand for the chunks seen so far,
  their nodes hold fewer than 512 keys of 32 bytes (the lowest one up to \<open>n\<close>), the store
  only grows, and every blob is stored under its hash.
\<close>

definition addressed :: "hash_fun \<Rightarrow> chunk_store \<Rightarrow> bool" where
  "addressed H m \<longleftrightarrow> list_all (\<lambda>(k, b). k = H b) m"

definition levels_ok :: "nat \<Rightarrow> chunk_list list \<Rightarrow> bool" where
  "levels_ok n ls \<longleftrightarrow> ls \<noteq> [] \<and> node_ok n (hd ls) \<and> list_all (node_ok 511) (tl ls)"

definition hash32 :: "hash_fun \<Rightarrow> bool" where
  "hash32 H \<longleftrightarrow> (\<forall>b. length (H b) = OUT_LEN)"

lemma hash32D [simp]: "hash32 H \<Longrightarrow> length (H b) = OUT_LEN"
  by (simp add: hash32_def)

lemma addressed_insert [simp]: "addressed H (store_insert (H b) b m) \<longleftrightarrow> addressed H m"
  by (simp add: addressed_def store_insert_def)

text \<open>
  The store grows by blobs stored under their hash, none larger than a serialised node of
  512 keys.
\<close>

definition MAX_BLOB_SIZE :: nat where "MAX_BLOB_SIZE = 5 + 512 * 32"

definition extends :: "hash_fun \<Rightarrow> chunk_store \<Rightarrow> chunk_store \<Rightarrow> bool" where
  "extends H m m' \<longleftrightarrow> (\<exists>new. m' = new @ m \<and> list_all (\<lambda>(k, b). k = H b \<and> length b \<le> MAX_BLOB_SIZE) new)"

lemma extends_refl [simp]: "extends H m m"
  by (simp add: extends_def)

lemma extends_trans [trans]: "extends H m m' \<Longrightarrow> extends H m' m'' \<Longrightarrow> extends H m m''"
  by (auto simp: extends_def)

lemma extends_insert:
  "length b \<le> MAX_BLOB_SIZE \<Longrightarrow> extends H (store_insert (H b) b m) m' \<Longrightarrow> extends H m m'"
  by (rule extends_trans [of H m "store_insert (H b) b m"])
    (auto simp: extends_def store_insert_def intro!: exI [of _ "[(H b, b)]"])

lemma extends_subset: "extends H m m' \<Longrightarrow> set m \<subseteq> set m'"
  by (auto simp: extends_def)

lemma extends_addressed: "extends H m m' \<Longrightarrow> addressed H m \<Longrightarrow> addressed H m'"
  by (auto simp: extends_def addressed_def list_all_iff)

lemma set_store_insert [simp]: "set (store_insert k b m) = insert (k, b) (set m)"
  by (simp add: store_insert_def)

lemma levels_ok_Cons [simp]: "levels_ok n (node # up) \<longleftrightarrow> node_ok n node \<and> list_all (node_ok 511) up"
  by (simp add: levels_ok_def)

lemma not_split_point: "\<not> is_split_point hash n \<Longrightarrow> n \<le> 511"
  by (auto simp: is_split_point_def MIN_CHUNKS_IN_LIST_def MAX_CHUNKS_IN_LIST_def split: if_splits)

text \<open>One split: the node moves, serialised, to the level above.\<close>

lemma levels_split:
  assumes "levels_tree S i (node # up) cs" "list_all (node_ok 511) up" "cl_decode b = Inr node" "length k = OUT_LEN"
    and "up' = (if up = [] then [cl_new_empty False] else up)"
  shows "levels_tree (insert (k, b) S) (Suc i) (cl_push_chunk (hd up') k # tl up') cs \<and>
    levels_ok 512 (cl_push_chunk (hd up') k # tl up') \<and> cl_is_leaf node = (i = 0)"
proof -
  from assms(1) obtain x y where cs: "cs = x @ y" "levels_tree S (Suc i) up x" "tree i S node y"
    by auto
  have "levels_tree S (Suc i) up' x" "levels_ok 511 up'"
    using cs(2) assms(2,5) tree_new_empty [of "Suc i" S] by (cases up; auto)+
  moreover obtain u us where up': "up' = u # us"
    using assms(5) by (cases up) auto
  ultimately obtain p q where x: "x = p @ q" "levels_tree S (Suc (Suc i)) us p" "tree (Suc i) S u q"
    and ok: "node_ok 511 u" "list_all (node_ok 511) us"
    by auto
  have "tree (Suc i) (insert (k, b) S) (cl_push_chunk u k) (q @ y)"
    by (rule tree_push_encoded) (fact x(3) cs(3) assms(3))+
  moreover have "levels_tree (insert (k, b) S) (Suc (Suc i)) us p"
    using x(2) by (rule levels_tree_mono) auto
  ultimately have "levels_tree (insert (k, b) S) (Suc i) (cl_push_chunk u k # us) cs"
    by (auto simp: x(1) cs(1))
  moreover have "node_ok 512 (cl_push_chunk u k)"
    using node_ok_push [OF ok(1) assms(4)] by simp
  ultimately show ?thesis
    using ok(2) tree_is_leaf [OF cs(3)] by (simp add: up')
qed

lemma node_ok_encode':
  assumes "node_ok 512 cl"
  obtains b where "cl_encode cl = Inr b" "cl_decode b = Inr cl" "length b \<le> MAX_BLOB_SIZE"
proof -
  from assms obtain b where b: "cl_encode cl = Inr b" "\<forall>r. cl_decode (b @ r) = Inr cl"
    "length b = 5 + 32 * length (cl_chunks cl)"
    by (rule node_ok_encode)
  moreover have "length (cl_chunks cl) \<le> 512" using assms by (simp add: node_ok_def)
  ultimately show thesis using that [of b] spec [OF b(2), of "[]"] by (simp add: MAX_BLOB_SIZE_def)
qed

lemma split_levels_correct:
  assumes "levels_ok 512 ls" "levels_tree (set m) i ls cs" "hash32 H"
  shows "\<exists>ls' m'. split_levels H hash ls m = Inr (ls', m') \<and> levels_ok 511 ls' \<and>
    levels_tree (set m') i ls' cs \<and> extends H m m'"
  using assms
proof (induction H hash ls m arbitrary: i cs rule: split_levels.induct)
  case (1 H hash m)
  then show ?case by (simp add: levels_ok_def)
next
  case (2 H hash node up m)
  show ?case
  proof (cases "is_split_point hash (length (cl_chunks node))")
    case False
    with "2.prems" not_split_point [OF False] show ?thesis
      by (auto simp: node_ok_def)
  next
    case True
    from "2.prems"(1) obtain b where b: "cl_encode node = Inr b" "cl_decode b = Inr node"
      "length b \<le> MAX_BLOB_SIZE"
      by (auto elim: node_ok_encode')
    define up' where "up' = (if up = [] then [cl_new_empty False] else up)"
    let ?ls = "cl_push_chunk (hd up') (H b) # tl up'" and ?m = "store_insert (H b) b m"
    have split: "levels_tree (set ?m) (Suc i) ?ls cs \<and> levels_ok 512 ?ls \<and> cl_is_leaf node = (i = 0)"
      using levels_split [OF "2.prems"(2) _ b(2) hash32D [OF "2.prems"(3)] up'_def] "2.prems"(1) by simp
    then obtain ls' m' where rec: "split_levels H (H b) ?ls ?m = Inr (ls', m')" "levels_ok 511 ls'"
      "levels_tree (set m') (Suc i) ls' cs" "extends H ?m m'"
      using "2.IH" [OF True b(1) refl up'_def, of "Suc i" cs] "2.prems"(3) by blast
    from True b(1) rec(1) have res: "split_levels H hash (node # up) m = Inr (cl_new_empty (cl_is_leaf node) # ls', m')"
      by (simp add: up'_def)
    have "levels_tree (set m') i (cl_new_empty (cl_is_leaf node) # ls') cs"
      using rec(3) split tree_new_empty [of i] by auto
    moreover have "levels_ok 511 (cl_new_empty (cl_is_leaf node) # ls')"
      using rec(2) by (cases ls') simp_all
    ultimately show ?thesis using res extends_insert [OF b(3) rec(4)] by blast
  qed
qed

lemma add_chunks_correct:
  assumes "levels_ok 511 ls" "levels_tree (set m) 0 ls cs" "hash32 H" "list_all (\<lambda>c. length c \<le> MAX_BLOB_SIZE) ds"
  shows "\<exists>ls' m'. add_chunks H ds ls m = Inr (ls', m') \<and> levels_ok 511 ls' \<and>
    levels_tree (set m') 0 ls' (cs @ ds) \<and> extends H m m'"
  using assms
proof (induction H ds ls m arbitrary: cs rule: add_chunks.induct)
  case (1 H levels m)
  then show ?case by simp
next
  case (2 H chunk rest m)
  then show ?case by (simp add: levels_ok_def)
next
  case (3 H chunk rest leaf up m)
  let ?ls = "cl_push_chunk leaf (H chunk) # up" and ?m = "store_insert (H chunk) chunk m"
  have ok: "levels_ok 512 ?ls"
    using "3.prems"(1,3) node_ok_push [of 511 leaf "H chunk"] by simp
  from "3.prems"(2) obtain a b where cs: "cs = a @ b" "levels_tree (set m) 1 up a" "tree 0 (set m) leaf b"
    by auto
  have "tree 0 (set ?m) (cl_push_chunk leaf (H chunk)) (b @ [chunk])"
    using tree_mono [OF cs(3), of "set ?m"] by (intro tree_push_leaf) auto
  moreover have "levels_tree (set ?m) 1 up a"
    using levels_tree_mono [OF cs(2), of "set ?m"] by auto
  ultimately have "levels_tree (set ?m) 0 ?ls (cs @ [chunk])"
    by (auto simp: cs(1))
  from split_levels_correct [OF ok this "3.prems"(3)]
  obtain ls' m' where s: "split_levels H (H chunk) ?ls ?m = Inr (ls', m')" "levels_ok 511 ls'"
    "levels_tree (set m') 0 ls' (cs @ [chunk])" "extends H ?m m'"
    by blast
  from "3.prems"(4) have "length chunk \<le> MAX_BLOB_SIZE" "list_all (\<lambda>c. length c \<le> MAX_BLOB_SIZE) rest"
    by simp_all
  moreover from "3.IH" [OF refl s(1) refl s(2,3) "3.prems"(3) this(2)] obtain ls2 m2 where
    "add_chunks H rest ls' m' = Inr (ls2, m2)" "levels_ok 511 ls2"
    "levels_tree (set m2) 0 ls2 ((cs @ [chunk]) @ rest)" "extends H m' m2"
    by blast
  ultimately show ?case
    using s(1) extends_trans [OF extends_insert [OF _ s(4)]] by (simp add: Let_def)
qed

lemma finish_tree_correct:
  assumes "levels_ok 512 ls" "levels_tree (set m) i ls cs" "hash32 H"
  shows "\<exists>root n m'. finish_tree H ls m = Inr (root, m') \<and> node_ok 512 root \<and> tree n (set m') root cs \<and>
    n < i + length ls \<and> extends H m m'"
  using assms
proof (induction H ls m arbitrary: i cs rule: finish_tree.induct)
  case (1 H m)
  then show ?case by (simp add: levels_ok_def)
next
  case (2 H root m)
  then show ?case by auto
next
  case (3 H node up ups m)
  show ?case
  proof (cases "cl_chunks node = []")
    case True
    from "3.prems"(2) obtain x y where "cs = x @ y" "levels_tree (set m) (Suc i) (up # ups) x" "tree i (set m) node y"
      by auto
    moreover from this True have "y = []"
      by (cases i) (auto simp: tree.simps)
    moreover have "levels_ok 512 (up # ups)"
      using "3.prems"(1) by (simp add: node_ok_def)
    ultimately show ?thesis
      using "3.IH"(1) [OF True _ _ "3.prems"(3), of "Suc i" cs] True by simp
  next
    case False
    from "3.prems"(1) obtain b where b: "cl_encode node = Inr b" "cl_decode b = Inr node"
      "length b \<le> MAX_BLOB_SIZE"
      by (auto elim: node_ok_encode')
    let ?ls = "cl_push_chunk up (H b) # ups" and ?m = "store_insert (H b) b m"
    have "levels_tree (set ?m) (Suc i) ?ls cs \<and> levels_ok 512 ?ls"
      using levels_split [OF "3.prems"(2) _ b(2) hash32D [OF "3.prems"(3)] refl] "3.prems"(1) by simp
    then obtain root n m' where "finish_tree H ?ls ?m = Inr (root, m')" "node_ok 512 root" "tree n (set m') root cs"
      "n < Suc i + length ?ls" "extends H ?m m'"
      using "3.IH"(2) [OF False b(1) refl _ _ "3.prems"(3), of "Suc i" cs] by blast
    with False b(1) extends_insert [OF b(3)] show ?thesis
      by (intro exI [of _ root] exI [of _ n] exI [of _ m']) (simp add: Let_def)
  qed
qed

lemma chunk_data_correct:
  assumes "hash32 H"
  shows "\<exists>cl n m'. chunk_data H d m = Inr (cl, m') \<and> node_ok 512 cl \<and> tree n (set m') cl (chunks_of d) \<and>
    extends H m m'"
proof -
  have "levels_tree (set m) 0 [cl_new_empty True] []"
    using tree_new_empty [of 0] by simp
  moreover have "list_all (\<lambda>c. length c \<le> MAX_BLOB_SIZE) (chunks_of d)"
    using chunks_of_sizes by (fastforce simp: list_all_iff MAX_CHUNK_SIZE_def MAX_BLOB_SIZE_def)
  ultimately
  obtain ls m1 where 1: "add_chunks H (chunks_of d) [cl_new_empty True] m = Inr (ls, m1)" "levels_ok 511 ls"
    "levels_tree (set m1) 0 ls (chunks_of d)" "extends H m m1"
    using add_chunks_correct [of "[cl_new_empty True]" m "[]" H "chunks_of d"] assms by auto
  from 1(2) have "levels_ok 512 ls"
    by (auto simp: levels_ok_def node_ok_def)
  from finish_tree_correct [OF this 1(3) assms] obtain cl n m' where
    "finish_tree H ls m1 = Inr (cl, m')" "node_ok 512 cl" "tree n (set m') cl (chunks_of d)" "extends H m1 m'"
    by blast
  with 1(1) extends_trans [OF 1(4)] show ?thesis
    by (auto simp: chunk_data_def)
qed

lemma minimize_chunk_list_correct:
  assumes "hash32 H" "node_ok 512 cl" "tree n (set m) cl cs"
  shows "\<exists>cl' n' m'. minimize_chunk_list H cl m = Inr (cl', m') \<and> length (cl_chunks cl') < 64 \<and>
    node_ok 512 cl' \<and> tree n' (set m') cl' cs \<and> extends H m m'"
proof (cases "length (cl_chunks cl) < MINIMIZE_THRESHOLD")
  case True
  with assms show ?thesis
    by (auto simp: minimize_chunk_list_def MINIMIZE_THRESHOLD_def)
next
  case False
  from assms(2) obtain b where b: "cl_encode cl = Inr b" "cl_decode b = Inr cl"
    "length b \<le> MAX_BLOB_SIZE"
    by (rule node_ok_encode')
  have "tree (Suc n) (insert (H b, b) (set m)) (cl_push_chunk (cl_new_empty False) (H b)) ([] @ cs)"
    using tree_new_empty [of "Suc n" "set m"] by (intro tree_push_encoded [OF _ assms(3) b(2)]) simp
  with False b(1) assms(1) extends_insert [OF b(3) extends_refl, of H m] show ?thesis
    by (auto simp: minimize_chunk_list_def cl_push_chunk_def cl_new_empty_def node_ok_def Let_def
        intro!: exI [of _ "Suc n"])
qed

section \<open>Reading a tree through a provider\<close>

text \<open>
  What the traversals rely on. \<open>ready s P\<close>: in state \<open>s\<close> the chunks of the keys \<open>P\<close> have been
  announced. Announcing known keys makes them ready, and a ready key yields its content.
\<close>

locale chunk_source =
  fixes prov :: "'s chunk_provider"
    and content :: "chunk_key \<Rightarrow> bytes option"
    and ready :: "'s \<Rightarrow> chunk_key set \<Rightarrow> bool"
  assumes prefetch_ready: "ready s P \<Longrightarrow> set ks \<subseteq> dom content \<Longrightarrow> ready (prefetch prov ks s) (P \<union> set ks)"
    and get_ready: "ready s P \<Longrightarrow> k \<in> P \<Longrightarrow> content k = Some b \<Longrightarrow>
      \<exists>s'. get_chunk prov k s = (Inr b, s') \<and> ready s' P"
begin

definition stored :: "(chunk_key \<times> bytes) set" where
  "stored = {(k, b). content k = Some b}"

lemma tree_keys: "tree n stored cl cs \<Longrightarrow> set (cl_chunks cl) \<subseteq> dom content"
  by (cases n) (auto simp: tree.simps stored_def dest!: list_all2_subset [where A = "dom content"])

lemma reconstruct_leaves:
  assumes "list_all2 (\<lambda>k c. (k, c) \<in> stored) ks cs" "ready s P" "set ks \<subseteq> P"
  shows "\<exists>s'. reconstruct_keys rec prov True ks s = Some (cs, Inr (), s') \<and> ready s' P"
  using assms
proof (induction ks cs arbitrary: s rule: list_all2_induct)
  case Nil
  then show ?case by simp
next
  case (Cons k ks c cs)
  then obtain s' where "get_chunk prov k s = (Inr c, s')" "ready s' P"
    using get_ready [of s P k c] by (auto simp: stored_def)
  with Cons.IH [of s'] Cons.prems show ?case by auto
qed

lemma reconstruct_nodes:
  assumes "list_all2 (\<lambda>k cs. \<exists>b c. (k, b) \<in> stored \<and> cl_decode b = Inr c \<and> tree n stored c cs) ks css"
    and "ready s P" "set ks \<subseteq> P"
    and "\<And>c cs s P. tree n stored c cs \<Longrightarrow> ready s P \<Longrightarrow>
      \<exists>s' P'. rec c s = Some (cs, Inr (), s') \<and> ready s' P' \<and> P \<subseteq> P'"
  shows "\<exists>s' P'. reconstruct_keys rec prov False ks s = Some (concat css, Inr (), s') \<and> ready s' P' \<and> P \<subseteq> P'"
  using assms(1-3)
proof (induction ks css arbitrary: s P rule: list_all2_induct)
  case Nil
  then show ?case by auto
next
  case (Cons k ks cs css)
  from Cons.hyps(1) obtain b c where k: "content k = Some b" "cl_decode b = Inr c" "tree n stored c cs"
    by (auto simp: stored_def)
  then obtain s1 where 1: "get_chunk prov k s = (Inr b, s1)" "ready s1 P"
    using get_ready [of s P k b] Cons.prems by auto
  obtain s2 P2 where 2: "rec c s1 = Some (cs, Inr (), s2)" "ready s2 P2" "P \<subseteq> P2"
    using assms(4) [OF k(3) 1(2)] by blast
  then obtain s3 P3 where 3: "reconstruct_keys rec prov False ks s2 = Some (concat css, Inr (), s3)" "ready s3 P3" "P2 \<subseteq> P3"
    using Cons.IH [of s2 P2] Cons.prems by auto
  with 1 2 k show ?case by auto
qed

lemma reconstruct_tree:
  assumes "tree n stored cl cs" "ready s P" "n < fuel"
  shows "\<exists>s' P'. reconstruct_data fuel prov cl s = Some (cs, Inr (), s') \<and> ready s' P' \<and> P \<subseteq> P'"
  using assms
proof (induction n arbitrary: cl cs s P fuel)
  case 0
  then obtain f where f: "fuel = Suc f" by (cases fuel) auto
  have "ready (prefetch prov (cl_chunks cl) s) (P \<union> set (cl_chunks cl))"
    using prefetch_ready [OF "0.prems"(2)] tree_keys [OF "0.prems"(1)] by simp
  with reconstruct_leaves [OF _ this, of "cl_chunks cl" cs "reconstruct_data f prov"] "0.prems"(1) show ?case
    by (auto simp: f tree.simps)
next
  case (Suc n)
  then obtain f where f: "fuel = Suc f" "n < f" by (cases fuel) auto
  have ready: "ready (prefetch prov (cl_chunks cl) s) (P \<union> set (cl_chunks cl))"
    using prefetch_ready [OF Suc.prems(2)] tree_keys [OF Suc.prems(1)] by simp
  from Suc.prems(1) obtain css where "\<not> cl_is_leaf cl" "cs = concat css"
    "list_all2 (\<lambda>k cs. \<exists>b c. (k, b) \<in> stored \<and> cl_decode b = Inr c \<and> tree n stored c cs) (cl_chunks cl) css"
    by (auto simp: tree.simps)
  with reconstruct_nodes [OF this(3) ready, of "reconstruct_data f prov"] Suc.IH [OF _ _ f(2)] show ?case
    by (auto simp: f(1))
qed

text \<open>The metadata traversal visits trees of bounded height and leaves their nodes fetched.\<close>

definition subtree :: "nat \<Rightarrow> chunk_list \<Rightarrow> bool" where
  "subtree h cl \<longleftrightarrow> (\<exists>n cs. tree n stored cl cs \<and> n < h)"

lemma subtree_keys: "list_all (subtree h) level \<Longrightarrow> set (concat (map cl_chunks level)) \<subseteq> dom content"
  using tree_keys by (fastforce simp: list_all_iff subtree_def)

lemma subtree_children:
  assumes "list_all (subtree (Suc h)) level" "k \<in> set (child_keys level)"
  shows "\<exists>b c. content k = Some b \<and> cl_decode b = Inr c \<and> subtree h c"
proof -
  from assms obtain cl n cs where cl: "cl \<in> set level" "\<not> cl_is_leaf cl" "k \<in> set (cl_chunks cl)"
    "tree n stored cl cs" "n < Suc h"
    by (auto simp: child_keys_def list_all_iff subtree_def)
  then obtain m where m: "n = Suc m" by (cases n) (auto simp: tree.simps)
  with cl(4) obtain css where
    "list_all2 (\<lambda>k cs. \<exists>b c. (k, b) \<in> stored \<and> cl_decode b = Inr c \<and> tree m stored c cs) (cl_chunks cl) css"
    by (auto simp: tree.simps)
  then have "set (cl_chunks cl) \<subseteq> {k. \<exists>b c cs. content k = Some b \<and> cl_decode b = Inr c \<and> tree m stored c cs}"
    by (rule list_all2_subset) (auto simp: stored_def)
  with cl(3) obtain b c cs where "content k = Some b" "cl_decode b = Inr c" "tree m stored c cs"
    by blast
  moreover from cl(5) m have "m < h" by simp
  ultimately show ?thesis unfolding subtree_def by blast
qed

lemma fetch_children_ready:
  assumes "ready s P" "set ks \<subseteq> P" "\<And>k. k \<in> set ks \<Longrightarrow> \<exists>b c. content k = Some b \<and> cl_decode b = Inr c \<and> Q c"
  shows "\<exists>cls s'. fetch_children prov ks s = (Inr cls, s') \<and> ready s' P \<and> list_all Q cls"
  using assms
proof (induction ks arbitrary: s)
  case Nil
  then show ?case by simp
next
  case (Cons k ks)
  from Cons.prems(3) [of k] obtain b c where k: "content k = Some b" "cl_decode b = Inr c" "Q c"
    by auto
  then obtain s' where "get_chunk prov k s = (Inr b, s')" "ready s' P"
    using get_ready [of s P k b] Cons.prems by auto
  moreover from this(2) Cons.IH [of s'] Cons.prems obtain cls s'' where
    "fetch_children prov ks s' = (Inr cls, s'')" "ready s'' P" "list_all Q cls"
    by auto
  ultimately show ?case using k by simp
qed

lemma prefetch_metadata_ready:
  assumes "ready s P" "list_all (subtree h) level" "Suc h < fuel"
  shows "\<exists>s' P'. prefetch_metadata_chunks fuel prov level s = Some (Inr (), s') \<and> ready s' P' \<and>
    P \<union> set (concat (map cl_chunks level)) \<subseteq> P'"
  using assms
proof (induction fuel arbitrary: s P level h)
  case 0
  then show ?case by simp
next
  case (Suc fuel)
  let ?keys = "concat (map cl_chunks level)" and ?P = "P \<union> set (concat (map cl_chunks level))"
  show ?case
  proof (cases "level = []")
    case True
    with Suc.prems show ?thesis by auto
  next
    case False
    then obtain h' where h: "h = Suc h'"
      using Suc.prems(2) by (cases h) (auto simp: subtree_def list_all_iff neq_Nil_conv)
    have 1: "ready (prefetch prov ?keys s) ?P"
      by (rule prefetch_ready [OF Suc.prems(1) subtree_keys [OF Suc.prems(2)]])
    have "set (child_keys level) \<subseteq> ?P"
      by (auto simp: child_keys_def)
    from fetch_children_ready [OF 1 this subtree_children [OF Suc.prems(2) [unfolded h]]]
    obtain cls s' where 2: "fetch_children prov (child_keys level) (prefetch prov ?keys s) = (Inr cls, s')"
      "ready s' ?P" "list_all (subtree h') cls"
      by blast
    from Suc.prems(3) h have "Suc h' < fuel" by simp
    from Suc.IH [OF 2(2,3) this] obtain s2 P' where
      "prefetch_metadata_chunks fuel prov cls s' = Some (Inr (), s2)" "ready s2 P'" "?P \<subseteq> P'"
      by blast
    with 2(1) False show ?thesis by (intro exI [of _ s2] exI [of _ P']) (simp add: Let_def)
  qed
qed

end

interpretation hm: chunk_source map_provider "map_of m" "\<lambda>s P. s = m \<and> P \<subseteq> dom (map_of m)" for m
  by unfold_locales (auto simp: map_provider_def)

section \<open>Properties\<close>

lemma store_lookup:
  assumes "addressed H m" "inj_on H (snd ` set m)"
  shows "set m = {(k, b). map_of m k = Some b}"
proof (intro set_eqI iffI)
  fix x assume x: "x \<in> set m"
  obtain k b where kb: "x = (k, b)" by fastforce
  with x obtain b' where b': "map_of m k = Some b'"
    by (metis not_None_eq weak_map_of_SomeI)
  then have "(k, b') \<in> set m" by (rule map_of_SomeD)
  moreover have addr: "k = H b" if "(k, b) \<in> set m" for k b
    using assms(1) that by (auto simp: addressed_def list_all_iff)
  ultimately have "H b = H b'" "b \<in> snd ` set m" "b' \<in> snd ` set m"
    using x kb by (metis, force, force)
  then have "b = b'" by (rule inj_onD [OF assms(2)])
  with b' kb show "x \<in> {(k, b). map_of m k = Some b}" by simp
qed (auto dest: map_of_SomeD)

lemma tree_reconstructs:
  assumes "addressed H m" "inj_on H (snd ` set m)" "tree n (set m) cl cs" "n < fuel"
  shows "reconstruct_data fuel map_provider cl m = Some (cs, Inr (), m)"
proof -
  have "tree n {(k, b). map_of m k = Some b} cl cs"
    using assms(3) store_lookup [OF assms(1,2)] by simp
  from hm.reconstruct_tree [unfolded hm.stored_def, OF this _ assms(4), of m "{}"] show ?thesis
    by auto
qed

text \<open>A hash for the examples: the first 32 bytes, padded.\<close>

definition pad_hash :: hash_fun where
  "pad_hash b = take 32 (b @ replicate 32 0)"

lemma hash32_pad_hash: "hash32 pad_hash"
  by (auto simp: hash32_def pad_hash_def OUT_LEN_def min_def)

lemma chunk_data_example:
  "chunk_data pad_hash [1, 2, 3] [] =
     Inr (\<lparr> cl_is_leaf = True, cl_chunks = [pad_hash [1, 2, 3]] \<rparr>, [(pad_hash [1, 2, 3], [1, 2, 3])])"
  by (simp add: chunk_data_def chunks_of_small MIN_CHUNK_SIZE_def cl_new_empty_def cl_push_chunk_def
      store_insert_def is_split_point_def MIN_CHUNKS_IN_LIST_def Let_def)

text \<open>
  C3. Deduplication is lossless: whatever bytes \<^verbatim>\<open>chunk_data\<close> is given, reading the returned
  chunk list back from the chunk map it filled yields exactly those bytes, provided the
  hash has 32 bytes and does not collide on the blobs stored. The traversal ends: from
  some depth on, every amount of fuel gives the result.
\<close>

theorem chunk_data_reconstructs:
  assumes "hash32 H" "addressed H m" "chunk_data H d m = Inr (cl, m')" "inj_on H (snd ` set m')"
  shows "\<exists>h. \<forall>fuel > h. \<exists>cs. reconstruct_data fuel map_provider cl m' = Some (cs, Inr (), m') \<and> concat cs = d"
proof -
  from chunk_data_correct [OF assms(1), of d m] assms(3) obtain n where
    "tree n (set m') cl (chunks_of d)" "extends H m m'"
    by auto
  then have "reconstruct_data fuel map_provider cl m' = Some (chunks_of d, Inr (), m')" if "n < fuel" for fuel
    using that by (intro tree_reconstructs [OF extends_addressed [OF _ assms(2)] assms(4)])
  then show ?thesis using concat_chunks_of [of d] by (intro exI [of _ n]) simp
qed

theorem chunk_data_reconstructs_witness:
  "\<exists>h. \<forall>fuel > h. \<exists>cs. reconstruct_data fuel map_provider \<lparr> cl_is_leaf = True, cl_chunks = [pad_hash [1, 2, 3]] \<rparr>
     [(pad_hash [1, 2, 3], [1, 2, 3])] = Some (cs, Inr (), [(pad_hash [1, 2, 3], [1, 2, 3])]) \<and> concat cs = [1, 2, 3]"
  by (rule chunk_data_reconstructs [OF hash32_pad_hash _ chunk_data_example]) (simp_all add: addressed_def)

text \<open>
  C24. \<^verbatim>\<open>chunk_data\<close> never panics: no chunk list it serialises is too big, the root has at most
  512 keys, the chunk map only grows, and every new blob is stored under its own hash and
  has at most 16389 bytes.
\<close>

theorem chunk_data_total:
  assumes "hash32 H"
  shows "\<exists>cl new. chunk_data H d m = Inr (cl, new @ m) \<and> length (cl_chunks cl) \<le> 512 \<and>
    list_all (\<lambda>(k, b). k = H b \<and> length b \<le> 16389) new"
  using chunk_data_correct [OF assms, of d m] by (auto simp: extends_def MAX_BLOB_SIZE_def node_ok_def)

theorem chunk_data_total_witness:
  "\<exists>cl new. chunk_data pad_hash [1, 2, 3] [] = Inr (cl, new @ []) \<and> length (cl_chunks cl) \<le> 512 \<and>
    list_all (\<lambda>(k, b). k = pad_hash b \<and> length b \<le> 16389) new"
  by (rule chunk_data_total [OF hash32_pad_hash])

text \<open>
  C23. The minimised root stands for the same data: \<^verbatim>\<open>minimize_chunk_list\<close> never panics on the
  result of \<^verbatim>\<open>chunk_data\<close>, returns fewer than 64 keys, and reconstructing it yields the
  original bytes.
\<close>

theorem minimize_reconstructs:
  assumes "hash32 H" "addressed H m" "chunk_data H d m = Inr (cl, m1)"
  shows "\<exists>cl' m2. minimize_chunk_list H cl m1 = Inr (cl', m2) \<and> length (cl_chunks cl') < 64 \<and>
    (inj_on H (snd ` set m2) \<longrightarrow> (\<exists>h. \<forall>fuel > h. \<exists>cs.
       reconstruct_data fuel map_provider cl' m2 = Some (cs, Inr (), m2) \<and> concat cs = d))"
proof -
  from chunk_data_correct [OF assms(1), of d m] assms(3) obtain n where
    1: "node_ok 512 cl" "tree n (set m1) cl (chunks_of d)" "extends H m m1"
    by auto
  from minimize_chunk_list_correct [OF assms(1) 1(1,2)] obtain cl' n' m2 where
    2: "minimize_chunk_list H cl m1 = Inr (cl', m2)" "length (cl_chunks cl') < 64"
    "tree n' (set m2) cl' (chunks_of d)" "extends H m1 m2"
    by blast
  have "addressed H m2"
    using 1(3) 2(4) assms(2) by (blast intro: extends_addressed)
  then have "reconstruct_data fuel map_provider cl' m2 = Some (chunks_of d, Inr (), m2)"
    if "n' < fuel" "inj_on H (snd ` set m2)" for fuel
    using that by (intro tree_reconstructs [OF _ _ 2(3)])
  then have "inj_on H (snd ` set m2) \<longrightarrow> (\<exists>h. \<forall>fuel > h. \<exists>cs.
      reconstruct_data fuel map_provider cl' m2 = Some (cs, Inr (), m2) \<and> concat cs = d)"
    using concat_chunks_of [of d] by (intro impI exI [of _ n']) simp
  with 2(1,2) show ?thesis by blast
qed

theorem minimize_reconstructs_witness:
  "\<exists>cl' m2. minimize_chunk_list pad_hash \<lparr> cl_is_leaf = True, cl_chunks = [pad_hash [1, 2, 3]] \<rparr>
      [(pad_hash [1, 2, 3], [1, 2, 3])] = Inr (cl', m2) \<and> length (cl_chunks cl') < 64"
  using minimize_reconstructs [OF hash32_pad_hash _ chunk_data_example] by (force simp: addressed_def)

text \<open>
  The serialised chunk list round-trips: every list of fewer than \<open>2^32\<close> keys of 32 bytes
  is encoded without a panic into \<open>5 + 32 n\<close> bytes, which decode to the same list, whatever
  follows them; every truncation of those bytes is an error.
\<close>

lemma chunk_list_roundtrip:
  assumes "list_all (\<lambda>k. length k = 32) (cl_chunks cl)" "length (cl_chunks cl) < 2 ^ 32"
  shows "\<exists>b. cl_encode cl = Inr b \<and> length b = 5 + 32 * length (cl_chunks cl) \<and>
    (\<forall>r. cl_decode (b @ r) = Inr cl) \<and> (\<forall>n < length b. \<exists>e. cl_decode (take n b) = Inl e)"
proof -
  have wf: "cl_wf cl" using assms by (simp add: cl_wf_def OUT_LEN_def)
  then obtain b where b: "cl_encode cl = Inr b" using cl_encode_wf by blast
  have len: "length b = 5 + 32 * length (cl_chunks cl)"
    using wf b by (auto simp: cl_encode_wf cl_wf_def length_concat_keys)
  have "\<exists>e. cl_decode (take n b) = Inl e" if "n < length b" for n
  proof (rule ccontr)
    assume "\<nexists>e. cl_decode (take n b) = Inl e"
    then obtain c where c: "cl_decode (take n b) = Inr c" by (cases "cl_decode (take n b)") auto
    then have "cl_decode (take n b @ drop n b) = Inr c" by (rule cl_decode_append)
    then have "c = cl" using cl_decode_encode [OF wf b, of "[]"] by simp
    with cl_decode_length [OF c] len that show False by simp
  qed
  with b len cl_decode_encode [OF wf b] show ?thesis by blast
qed

end
