(* ===== verification/Rev_Crc.thy ===== *)
theory Rev_Crc
  imports Prelude
begin

text \<open>
  The reversed CRC (\<^verbatim>\<open>factorio-cacher/src/rev_crc.rs\<close>): the table that undoes one step of a
  reflected table-driven CRC, the digest that runs from the end of the data towards its
  beginning, and the four bytes that force a CRC to a chosen value.

  The forward CRC is the \<^verbatim>\<open>crc\<close> crate's: a parameter of type \<open>crc\<close> with its table, its initial
  and final values and its digest. What the code relies on is \<open>crc_ok\<close>: the digest is the
  usual table-driven update of a reflected CRC, and the top bytes of the 256 table entries
  are distinct. \<open>crc_32_iso_hdlc\<close> is the algorithm the program uses, with its table computed
  from the polynomial; it satisfies \<open>crc_ok\<close>.
\<close>

section \<open>Definitions\<close>

record crc =
  crc_init :: u32
  crc_xorout :: u32
  crc_table :: "u32 list"
  crc_update :: "u32 \<Rightarrow> bytes \<Rightarrow> u32"

record rev_crc =
  rev_xorout :: u32
  reverse_table :: "u32 list"

definition rev_crc_new :: "crc \<Rightarrow> rev_crc" where
  "rev_crc_new c = \<lparr> rev_xorout = crc_xorout c,
     reverse_table = foldl (\<lambda>rt n. rt[unat (drop_bit 24 (crc_table c ! n)) := push_bit 8 (crc_table c ! n) XOR of_nat n])
       (replicate 256 0) [0..<length (crc_table c)] \<rparr>"

definition rev_step :: "rev_crc \<Rightarrow> u32 \<Rightarrow> u8 \<Rightarrow> u32" where
  "rev_step r value byte = (push_bit 8 value XOR reverse_table r ! unat (drop_bit 24 value)) XOR ucast byte"

definition rev_update :: "rev_crc \<Rightarrow> u32 \<Rightarrow> bytes \<Rightarrow> u32" where
  "rev_update r value data = foldl (rev_step r) value (rev data)"

record rev_digest =
  rd_crc :: rev_crc
  rd_value :: u32

definition rev_crc_digest :: "rev_crc \<Rightarrow> u32 \<Rightarrow> rev_digest" where
  "rev_crc_digest r initial_value = \<lparr> rd_crc = r, rd_value = initial_value XOR rev_xorout r \<rparr>"

definition rd_update :: "rev_digest \<Rightarrow> bytes \<Rightarrow> rev_digest" where
  "rd_update d data = d\<lparr> rd_value := rev_update (rd_crc d) (rd_value d) data \<rparr>"

definition rd_finalize :: "rev_digest \<Rightarrow> u32" where
  "rd_finalize d = rd_value d"

definition forge_crc :: "u32 \<Rightarrow> rev_digest \<Rightarrow> bytes" where
  "forge_crc before_digest after_digest =
     to_le 4 (rd_finalize (rd_update after_digest (to_le 4 (before_digest XOR rev_xorout (rd_crc after_digest)))))"

text \<open>The documented behaviour of the forward CRC.\<close>

definition crc_step :: "crc \<Rightarrow> u32 \<Rightarrow> u8 \<Rightarrow> u32" where
  "crc_step c v b = crc_table c ! unat ((v XOR ucast b) AND 0xFF) XOR drop_bit 8 v"

definition crc_ok :: "crc \<Rightarrow> bool" where
  "crc_ok c \<longleftrightarrow> (\<forall>v data. crc_update c v data = foldl (crc_step c) v data) \<and>
     length (crc_table c) = 256 \<and> distinct (map (\<lambda>t. drop_bit 24 t) (crc_table c))"

definition crc_digest :: "crc \<Rightarrow> u32" where
  "crc_digest c = crc_init c"

definition crc_finalize :: "crc \<Rightarrow> u32 \<Rightarrow> u32" where
  "crc_finalize c v = v XOR crc_xorout c"

definition crc_checksum :: "crc \<Rightarrow> bytes \<Rightarrow> u32" where
  "crc_checksum c data = crc_finalize c (crc_update c (crc_digest c) data)"

definition crc32_bit :: "u32 \<Rightarrow> u32" where
  "crc32_bit c = (if bit c 0 then drop_bit 1 c XOR 0xEDB88320 else drop_bit 1 c)"

definition crc32_entry :: "u32 \<Rightarrow> u32" where
  "crc32_entry n = (crc32_bit ^^ 8) n"

definition crc32_table :: "u32 list" where
  "crc32_table = map (\<lambda>n. crc32_entry (of_nat n)) [0..<256]"

definition crc_32_iso_hdlc :: crc where
  "crc_32_iso_hdlc = \<lparr> crc_init = 0xFFFFFFFF, crc_xorout = 0xFFFFFFFF, crc_table = crc32_table,
     crc_update = (\<lambda>v data. foldl (\<lambda>v b. crc32_table ! unat ((v XOR ucast b) AND 0xFF) XOR drop_bit 8 v) v data) \<rparr>"

section \<open>The reverse table\<close>

lemma foldl_list_update_nth:
  assumes "inj_on f {..<N}" "k < N" "f k < length rt"
  shows "foldl (\<lambda>rt n. rt[f n := g n]) rt [0..<N] ! f k = g k"
  using assms
proof (induction N)
  case 0
  then show ?case by simp
next
  case (Suc N)
  have len: "length (foldl (\<lambda>rt n. rt[f n := g n]) rt [0..<N]) = length rt"
    by (induction N) simp_all
  show ?case
  proof (cases "k = N")
    case True
    then show ?thesis using Suc.prems(3) by (simp add: len)
  next
    case False
    with Suc.prems have "f N \<noteq> f k" by (auto simp: inj_on_def)
    moreover have "inj_on f {..<N}" using Suc.prems(1) by (rule inj_on_subset) auto
    ultimately show ?thesis using Suc False by simp
  qed
qed

lemma and_255: "w AND 255 = take_bit 8 (w :: u32)"
  by (simp add: take_bit_eq_mask mask_eq_exp_minus_1)

lemma unat_and_255: "unat (w AND 255 :: u32) < 256"
proof -
  have "unat (w AND 255) \<le> unat (255 :: u32)"
    by (rule word_and_le1 [THEN word_le_nat_alt [THEN iffD1]])
  then show ?thesis by simp
qed

lemma unat_top_byte: "unat (drop_bit 24 w :: u32) < 256"
proof -
  have "unat (drop_bit 24 w) = unat w div 2 ^ 24"
    by (metis unat_drop_bit_eq drop_bit_eq_div)
  moreover have "unat w < 2 ^ 32"
    using unsigned_less [of w, where 'a = nat] by simp
  ultimately show ?thesis by simp
qed

lemma reverse_table_nth:
  assumes "crc_ok c" "n < 256"
  shows "reverse_table (rev_crc_new c) ! unat (drop_bit 24 (crc_table c ! n)) =
    push_bit 8 (crc_table c ! n) XOR of_nat n"
proof -
  have len: "length (crc_table c) = 256" and dist: "distinct (map (\<lambda>t. drop_bit 24 t) (crc_table c))"
    using assms(1) by (auto simp: crc_ok_def)
  let ?f = "\<lambda>n. unat (drop_bit 24 (crc_table c ! n))"
  have "inj_on ?f {..<256}"
  proof (rule inj_onI)
    fix i j assume "i \<in> {..<256::nat}" "j \<in> {..<256::nat}" "?f i = ?f j"
    then show "i = j"
      using dist len nth_eq_iff_index_eq [of "map (\<lambda>t. drop_bit 24 t) (crc_table c)" i j]
      by (auto simp: word_unat_eq_iff)
  qed
  moreover have "?f n < 256" by (rule unat_top_byte)
  ultimately show ?thesis
    using foldl_list_update_nth [of ?f 256 n "replicate 256 0"] assms(2) len
    by (simp add: rev_crc_new_def)
qed

lemma rev_step_crc_step:
  assumes "crc_ok c"
  shows "rev_step (rev_crc_new c) (crc_step c v b) b = v"
proof -
  define n where "n = (v XOR ucast b) AND 0xFF"
  define t where "t = crc_table c ! unat n"
  have n: "unat n < 256"
    unfolding n_def by (rule unat_and_255)
  have "drop_bit 24 (t XOR drop_bit 8 v) = drop_bit 24 t"
    by (rule bit_word_eqI) (auto simp: bit_simps dest: bit_imp_le_length)
  then have "rev_step (rev_crc_new c) (crc_step c v b) b =
      push_bit 8 (t XOR drop_bit 8 v) XOR (push_bit 8 t XOR n) XOR ucast b"
    using reverse_table_nth [OF assms n] by (simp add: rev_step_def crc_step_def t_def n_def xor.assoc)
  also have "\<dots> = v"
    unfolding n_def and_255
    by (rule bit_word_eqI) (auto simp: bit_simps dest: bit_imp_le_length)
  finally show ?thesis .
qed

lemma crc_step_rev_step:
  assumes "crc_ok c"
  shows "crc_step c (rev_step (rev_crc_new c) v b) b = v"
proof -
  let ?f = "\<lambda>v. crc_step c v b"
  have "inj ?f" by (metis injI rev_step_crc_step [OF assms])
  then have "surj ?f" by (simp add: finite_UNIV_inj_surj)
  then obtain w where "v = ?f w" by (metis surjD)
  then show ?thesis by (simp add: rev_step_crc_step [OF assms])
qed

section \<open>Running backwards, forging\<close>

lemma rev_update_simps [simp]:
  "rev_update r v [] = v" "rev_update r v (b # bs) = rev_step r (rev_update r v bs) b"
  by (simp_all add: rev_update_def)

lemma rev_update_append: "rev_update r v (xs @ ys) = rev_update r (rev_update r v ys) xs"
  by (simp add: rev_update_def)

lemma crc_update_simps:
  assumes "crc_ok c"
  shows "crc_update c v [] = v" "crc_update c v (b # bs) = crc_update c (crc_step c v b) bs"
    and "crc_update c v (xs @ ys) = crc_update c (crc_update c v xs) ys"
  using assms by (simp_all add: crc_ok_def)

lemma crc_update_rev_update:
  assumes "crc_ok c"
  shows "crc_update c (rev_update (rev_crc_new c) v data) data = v"
  by (induction data) (simp_all add: crc_update_simps [OF assms] crc_step_rev_step [OF assms])

lemma rev_update_crc_update:
  assumes "crc_ok c"
  shows "rev_update (rev_crc_new c) (crc_update c v data) data = v"
  by (induction data arbitrary: v) (simp_all add: crc_update_simps [OF assms] rev_step_crc_step [OF assms])

text \<open>
  Four steps consume the whole state, so the state and the four bytes enter the result
  only through their exclusive or.
\<close>

primrec crc_mix :: "crc \<Rightarrow> nat \<Rightarrow> u32 \<Rightarrow> u32" where
  "crc_mix c 0 u = u"
| "crc_mix c (Suc n) u = crc_mix c n (crc_table c ! unat (u AND 0xFF) XOR drop_bit 8 u)"

lemma crc_update_mix:
  assumes "crc_ok c"
  shows "crc_update c s (to_le n f) XOR drop_bit (8 * n) f = crc_mix c n (s XOR f)"
proof (induction n arbitrary: s f)
  case 0
  then show ?case by (simp add: crc_update_simps [OF assms])
next
  case (Suc n)
  have low: "(s XOR ucast (ucast f :: u8)) AND 0xFF = (s XOR f) AND 0xFF"
    unfolding and_255 by (rule bit_word_eqI) (auto simp: bit_simps)
  have "crc_update c s (to_le (Suc n) f) XOR drop_bit (8 * Suc n) f =
      crc_update c (crc_step c s (ucast f)) (to_le n (drop_bit 8 f)) XOR drop_bit (8 * n) (drop_bit 8 f)"
    by (simp add: crc_update_simps [OF assms] algebra_simps)
  also have "\<dots> = crc_mix c n (crc_step c s (ucast f) XOR drop_bit 8 f)" by (rule Suc.IH)
  also have "crc_step c s (ucast f) XOR drop_bit 8 f =
      crc_table c ! unat ((s XOR f) AND 0xFF) XOR drop_bit 8 (s XOR f)"
    by (simp add: crc_step_def low xor.assoc)
  finally show ?case by simp
qed

lemma crc_update_swap:
  assumes "crc_ok c"
  shows "crc_update c s (to_le 4 f) = crc_update c f (to_le 4 s)"
proof -
  have zero: "drop_bit (8 * 4) w = 0" for w :: u32
    by (rule bit_word_eqI) (auto simp: bit_simps dest: bit_imp_le_length)
  show ?thesis
    using crc_update_mix [OF assms, of s 4 f] crc_update_mix [OF assms, of f 4 s] zero
    by (simp add: xor.commute)
qed

lemma forge_crc_correct:
  assumes "crc_ok c" "rd_crc d = rev_crc_new c"
  shows "crc_update c v (forge_crc (crc_finalize c v) d) = rd_value d"
proof -
  have "rev_xorout (rev_crc_new c) = crc_xorout c" by (simp add: rev_crc_new_def)
  then have "crc_finalize c v XOR rev_xorout (rd_crc d) = v"
    by (simp add: assms(2) crc_finalize_def xor.assoc)
  then show ?thesis
    using crc_update_rev_update [OF assms(1), of "rd_value d" "to_le 4 v"]
      crc_update_swap [OF assms(1), of v "rev_update (rev_crc_new c) (rd_value d) (to_le 4 v)"]
    by (simp add: forge_crc_def rd_update_def rd_finalize_def assms(2))
qed

lemma rd_simps [simp]:
  "rd_crc (rd_update d x) = rd_crc d" "rd_value (rd_update d x) = rev_update (rd_crc d) (rd_value d) x"
  "rd_crc (rev_crc_digest r t) = r" "rd_value (rev_crc_digest r t) = t XOR rev_xorout r"
  by (simp_all add: rd_update_def rev_crc_digest_def)

lemma length_forge_crc [simp]: "length (forge_crc b d) = 4"
  by (simp add: forge_crc_def)

section \<open>The program's CRC\<close>

text \<open>
  The table is linear, and an entry whose top byte is zero comes from index zero: each of
  the eight steps then shifted out a zero bit, because the polynomial sets the top bit.
\<close>

lemma crc32_bit_linear: "crc32_bit (a XOR b) = crc32_bit a XOR crc32_bit b"
proof -
  have "drop_bit 1 (a XOR b) = drop_bit 1 a XOR drop_bit 1 b" by (rule bit_word_eqI) (simp add: bit_simps)
  then show ?thesis
    by (cases "bit a 0"; cases "bit b 0") (simp_all add: crc32_bit_def bit_xor_iff ac_simps)
qed

lemma crc32_bits_linear: "(crc32_bit ^^ n) (a XOR b) = (crc32_bit ^^ n) a XOR (crc32_bit ^^ n) b"
  by (induction n) (simp_all add: crc32_bit_linear)

lemma crc32_bits_shift: "(\<forall>i < k. \<not> bit d i) \<Longrightarrow> (crc32_bit ^^ k) d = drop_bit k d"
  by (induction k) (auto simp: crc32_bit_def bit_simps)

lemma crc32_bit_top: "bit (crc32_bit x) 31 \<longleftrightarrow> bit x 0"
proof -
  have "\<not> bit (drop_bit 1 x) 31" by (auto simp: bit_simps dest: bit_imp_le_length)
  moreover have "bit (0xEDB88320 :: u32) 31" by simp
  ultimately show ?thesis by (simp add: crc32_bit_def bit_xor_iff)
qed

lemma crc32_bits_low:
  assumes "k \<le> 8" "\<forall>j < k. \<not> bit ((crc32_bit ^^ k) d) (31 - j)"
  shows "\<forall>i < k. \<not> bit d i"
  using assms
proof (induction k)
  case 0
  then show ?case by simp
next
  case (Suc k)
  let ?x = "(crc32_bit ^^ k) d"
  from Suc.prems(2) have "\<not> bit (crc32_bit ?x) 31" by auto
  then have even: "\<not> bit ?x 0" by (simp add: crc32_bit_top)
  have "\<not> bit ?x (31 - j)" if "j < k" for j
  proof -
    have "\<not> bit (crc32_bit ?x) (31 - Suc j)" using Suc.prems(2) that by auto
    moreover have "Suc (31 - Suc j) = 31 - j" using that Suc.prems(1) by auto
    ultimately show ?thesis using even by (simp add: crc32_bit_def bit_simps)
  qed
  with Suc have low: "\<forall>i < k. \<not> bit d i" by auto
  with even show ?case by (auto simp: crc32_bits_shift bit_simps less_Suc_eq)
qed

lemma crc32_entry_top_inj:
  assumes "drop_bit 24 (crc32_entry a) = drop_bit 24 (crc32_entry b)" "unat a < 256" "unat b < 256"
  shows "a = b"
proof -
  have top: "\<not> bit (crc32_entry (a XOR b)) (31 - j)" if "j < 8" for j
  proof -
    have "bit (crc32_entry a) (31 - j) = bit (crc32_entry b) (31 - j)"
      using arg_cong [OF assms(1), of "\<lambda>w. bit w (7 - j)"] that by (simp add: bit_simps)
    then show ?thesis by (simp add: crc32_entry_def crc32_bits_linear bit_xor_iff)
  qed
  then have low: "\<forall>i < 8. \<not> bit (a XOR b) i"
    unfolding crc32_entry_def by (intro crc32_bits_low) auto
  have small: "take_bit 8 w = w" if "unat w < 256" for w :: u32
    using that by (simp add: word_unat_eq_iff unsigned_take_bit_eq take_bit_nat_eq_self)
  show ?thesis
  proof (rule bit_word_eqI)
    fix i assume "i < LENGTH(32)"
    have "bit a i = bit (take_bit 8 a) i" "bit b i = bit (take_bit 8 b) i" using small assms(2,3) by simp_all
    then show "bit a i = bit b i" using low by (auto simp: bit_simps)
  qed
qed

lemma crc_32_iso_hdlc_ok: "crc_ok crc_32_iso_hdlc"
proof -
  have "inj_on (\<lambda>n. drop_bit 24 (crc32_entry (of_nat n))) {0..<256}"
  proof (rule inj_onI)
    fix i j :: nat
    assume ij: "i \<in> {0..<256}" "j \<in> {0..<256}" "drop_bit 24 (crc32_entry (of_nat i)) = drop_bit 24 (crc32_entry (of_nat j))"
    have u: "unat (of_nat n :: u32) = n" if "n < 256" for n
      using that by (simp add: unat_of_nat take_bit_nat_eq_self)
    have "i < 256" "j < 256" using ij(1,2) by simp_all
    with u have ui: "unat (of_nat i :: u32) = i" and uj: "unat (of_nat j :: u32) = j" by blast+
    have "(of_nat i :: u32) = of_nat j"
      by (rule crc32_entry_top_inj [OF ij(3)]) (simp_all only: ui uj \<open>i < 256\<close> \<open>j < 256\<close>)
    then show "i = j" using ui uj by metis
  qed
  then have "distinct (map (\<lambda>t. drop_bit 24 t) crc32_table)"
    by (simp add: crc32_table_def distinct_map comp_def del: upt_rec_numeral)
  moreover have "crc_step crc_32_iso_hdlc =
      (\<lambda>v b. crc32_table ! unat ((v XOR ucast b) AND 0xFF) XOR drop_bit 8 v)"
    by (intro ext) (simp add: crc_step_def crc_32_iso_hdlc_def)
  moreover have "length crc32_table = 256" by (simp add: crc32_table_def del: upt_rec_numeral)
  ultimately show ?thesis by (simp add: crc_ok_def) (simp add: crc_32_iso_hdlc_def)
qed

section \<open>Properties\<close>

text \<open>
  The reverse digest undoes the forward one: a reversed digest started at the checksum of
  \<open>a @ b\<close> and fed \<open>b\<close> holds exactly the state the forward digest had after \<open>a\<close>.
\<close>

lemma rev_digest_undoes:
  assumes "crc_ok c"
  shows "rd_finalize (rd_update (rev_crc_digest (rev_crc_new c) (crc_checksum c (a @ b))) b) =
    crc_update c (crc_digest c) a"
proof -
  have "crc_checksum c (a @ b) XOR crc_xorout c = crc_update c (crc_update c (crc_digest c) a) b"
    by (simp add: crc_checksum_def crc_finalize_def crc_update_simps [OF assms] xor.assoc)
  then show ?thesis
    by (simp add: rd_finalize_def rev_crc_new_def)
      (simp add: rev_crc_new_def [symmetric] rev_update_crc_update [OF assms])
qed

text \<open>
  C6. Forging: between any prefix and any suffix, the four bytes \<open>forge_crc\<close> computes from the
  forward CRC of the prefix and the reverse digest of the suffix make the checksum of the
  whole equal the chosen target.
\<close>

theorem forge_crc_hits_target:
  assumes "crc_ok c"
    and forged_def: "forged = forge_crc (crc_checksum c prefix)
      (rd_update (rev_crc_digest (rev_crc_new c) target) suffix)"
  shows "length forged = 4 \<and> crc_checksum c (prefix @ forged @ suffix) = target"
proof -
  let ?v = "crc_update c (crc_digest c) prefix"
  let ?d = "rd_update (rev_crc_digest (rev_crc_new c) target) suffix"
  have "crc_update c ?v forged = rd_value ?d"
    unfolding forged_def crc_checksum_def by (rule forge_crc_correct [OF assms(1)]) simp
  then have "crc_update c (crc_update c ?v forged) suffix = target XOR crc_xorout c"
    by (simp add: crc_update_rev_update [OF assms(1)]) (simp add: rev_crc_new_def)
  then show ?thesis
    by (simp add: crc_checksum_def crc_finalize_def crc_update_simps [OF assms(1)] forged_def xor.assoc)
qed

theorem forge_crc_hits_target_witness:
  "crc_checksum crc_32_iso_hdlc ([1, 2] @ forge_crc (crc_checksum crc_32_iso_hdlc [1, 2])
     (rd_update (rev_crc_digest (rev_crc_new crc_32_iso_hdlc) 0xDEADBEEF) [3]) @ [3]) = 0xDEADBEEF"
  using forge_crc_hits_target [OF crc_32_iso_hdlc_ok refl, of "[1, 2]" "0xDEADBEEF" "[3]"] by blast

end
