(* ===== verification/Chunk_Cache.thy ===== *)
theory Chunk_Cache
  imports Dedup "HOL-Library.DAList"
begin

text \<open>
  The shared chunk cache (\<^verbatim>\<open>common/src/chunk_cache.rs\<close>): the size-bounded least-recently-used
  cache, the bookkeeping that keeps two tasks from fetching the same chunk, the file the
  cache is saved to, and the interleavings of the tasks that share one cache.

  \<^item> The ordered hash map of the \<^verbatim>\<open>hashlink\<close> crate is a parameter \<open>lm\<close>: a record of the
    operations the code calls. The locale \<open>hashlink\<close> states their documented behaviour
    on the sequence \<open>lm_iter\<close> yields; \<open>alist_map\<close> is an implementation.
  \<^item> The mutex: a locked section runs as one step (\<open>with_lock\<close>). A panic inside poisons the
    mutex, and every later \<^verbatim>\<open>lock().unwrap()\<close> panics.
  \<^item> A \<^verbatim>\<open>Semaphore::new(0)\<close> never gets a permit in this code; \<^verbatim>\<open>acquire\<close> returns when it is
    closed. \<open>cc_closed\<close> lists the semaphores created, in order, with whether they are closed.
\<close>

section \<open>Definitions\<close>

subsection \<open>The ordered hash map\<close>

record 'm linked_map =
  lm_new :: 'm
  lm_insert :: "chunk_key \<Rightarrow> bytes \<Rightarrow> 'm \<Rightarrow> bytes option \<times> 'm"
  lm_pop_front :: "'m \<Rightarrow> (chunk_key \<times> bytes) option \<times> 'm"
  lm_to_back :: "chunk_key \<Rightarrow> 'm \<Rightarrow> bytes option \<times> 'm"
  lm_len :: "'m \<Rightarrow> nat"
  lm_iter :: "'m \<Rightarrow> (chunk_key \<times> bytes) list"

subsection \<open>\<^verbatim>\<open>RawChunkCache\<close>\<close>

record 'm raw_chunk_cache =
  rc_chunks :: 'm
  rc_total_size :: u64
  rc_max_size :: u64

definition rc_new :: "'m linked_map \<Rightarrow> u64 \<Rightarrow> 'm raw_chunk_cache" where
  "rc_new lm max_size = \<lparr> rc_chunks = lm_new lm, rc_total_size = 0, rc_max_size = max_size \<rparr>"

text \<open>
  The eviction loop, with one unit of fuel per entry: after that many rounds the map is
  empty and \<^verbatim>\<open>pop_front().unwrap()\<close> panics.
\<close>

primrec rc_evict :: "'m linked_map \<Rightarrow> nat \<Rightarrow> 'm raw_chunk_cache \<Rightarrow> 'm raw_chunk_cache res" where
  "rc_evict lm 0 rc =
     (if rc_max_size rc < rc_total_size rc then Inl (Panic ''called `Option::unwrap()` on a `None` value'') else Inr rc)"
| "rc_evict lm (Suc n) rc =
     (if rc_max_size rc < rc_total_size rc then
        (case lm_pop_front lm (rc_chunks rc) of
           (None, _) \<Rightarrow> Inl (Panic ''called `Option::unwrap()` on a `None` value'')
         | (Some (_, evicted_chunk), m) \<Rightarrow>
             rc_evict lm n (rc\<lparr> rc_chunks := m, rc_total_size := rc_total_size rc - of_nat (length evicted_chunk) \<rparr>))
      else Inr rc)"

definition rc_insert :: "'m linked_map \<Rightarrow> chunk_key \<Rightarrow> bytes \<Rightarrow> 'm raw_chunk_cache \<Rightarrow> 'm raw_chunk_cache res" where
  "rc_insert lm key chunk rc =
     (let total = rc_total_size rc + of_nat (length chunk)
      in case lm_insert lm key chunk (rc_chunks rc) of
           (old, m) \<Rightarrow>
             (let total' = (case old of Some old_chunk \<Rightarrow> total - of_nat (length old_chunk) | None \<Rightarrow> total)
              in rc_evict lm (lm_len lm m) (rc\<lparr> rc_chunks := m, rc_total_size := total' \<rparr>)))"

definition rc_get :: "'m linked_map \<Rightarrow> chunk_key \<Rightarrow> 'm raw_chunk_cache \<Rightarrow> bytes option \<times> 'm raw_chunk_cache" where
  "rc_get lm key rc =
     (case lm_to_back lm key (rc_chunks rc) of (r, m) \<Rightarrow> (r, rc\<lparr> rc_chunks := m \<rparr>))"

definition rc_len :: "'m linked_map \<Rightarrow> 'm raw_chunk_cache \<Rightarrow> nat" where
  "rc_len lm rc = lm_len lm (rc_chunks rc)"

subsection \<open>\<^verbatim>\<open>ChunkCache\<close>\<close>

type_synonym event = nat

record 'm chunk_cache =
  cc_raw :: "'m raw_chunk_cache"
  cc_pending :: "chunk_key \<rightharpoonup> event"
  cc_needs_saving :: bool
  cc_closed :: "bool list"
  cc_poisoned :: bool

record batch_request =
  br_event :: event
  br_keys :: "chunk_key list"

definition cc_new :: "'m linked_map \<Rightarrow> u64 \<Rightarrow> 'm chunk_cache" where
  "cc_new lm max_size = \<lparr> cc_raw = rc_new lm max_size, cc_pending = Map.empty, cc_needs_saving = False,
     cc_closed = [], cc_poisoned = False \<rparr>"

definition with_lock ::
  "('m chunk_cache \<Rightarrow> ('a \<times> 'm chunk_cache) res) \<Rightarrow> 'm chunk_cache \<Rightarrow> 'a res \<times> 'm chunk_cache" where
  "with_lock f cc =
     (if cc_poisoned cc then (Inl (Panic ''PoisonError''), cc)
      else case f cc of
             Inl e \<Rightarrow> (Inl e, cc\<lparr> cc_poisoned := True \<rparr>)
           | Inr (x, cc') \<Rightarrow> (Inr x, cc'))"

text \<open>The closure given to \<^verbatim>\<open>retain\<close>, over the requested keys: what it keeps and what it changes.\<close>

primrec retain_requested ::
  "'m linked_map \<Rightarrow> nat \<Rightarrow> (chunk_key \<rightharpoonup> event) \<Rightarrow> chunk_key list \<Rightarrow>
   'm raw_chunk_cache \<times> chunk_store \<times> chunk_key list \<Rightarrow>
   chunk_key list \<times> 'm raw_chunk_cache \<times> chunk_store \<times> chunk_key list" where
  "retain_requested lm batch_size pending [] st = ([], st)"
| "retain_requested lm batch_size pending (key # keys) st =
     (case st of (rc, chunks_out, batch) \<Rightarrow>
        (case rc_get lm key rc of
           (Some chunk, rc') \<Rightarrow>
             retain_requested lm batch_size pending keys (rc', store_insert key chunk chunks_out, batch)
         | (None, rc') \<Rightarrow>
             (if pending key = None \<and> length batch < batch_size then
                retain_requested lm batch_size pending keys
                  (rc', chunks_out, if key \<in> set batch then batch else batch @ [key])
              else
                (case retain_requested lm batch_size pending keys (rc', chunks_out, batch) of
                   (kept, st') \<Rightarrow> (key # kept, st')))))"

primrec pending_requests_of :: "(chunk_key \<rightharpoonup> event) \<Rightarrow> chunk_key list \<Rightarrow> (chunk_key \<times> event) list res" where
  "pending_requests_of pending [] = Inr []"
| "pending_requests_of pending (key # keys) =
     (case pending key of
        None \<Rightarrow> Inl (Panic ''Remaining chunk is not pending'')
      | Some event \<Rightarrow> and_then (pending_requests_of pending keys) (\<lambda>rest. Inr ((key, event) # rest)))"

datatype batch_outcome = Batch batch_request | Wait "(chunk_key \<times> event) list" | NoBatch

text \<open>The first locked section of \<^verbatim>\<open>get_chunks_batched\<close>: what it returns, the keys left in \<^verbatim>\<open>chunks_requested\<close>, and \<^verbatim>\<open>chunks_out\<close>.\<close>

definition get_chunks_batched ::
  "'m linked_map \<Rightarrow> chunk_key list \<Rightarrow> chunk_store \<Rightarrow> nat \<Rightarrow> 'm chunk_cache \<Rightarrow>
   (batch_outcome \<times> chunk_key list \<times> chunk_store) res \<times> 'm chunk_cache" where
  "get_chunks_batched lm chunks_requested chunks_out batch_size =
     with_lock (\<lambda>cc.
       case retain_requested lm batch_size (cc_pending cc) chunks_requested (cc_raw cc, chunks_out, []) of
         (kept, rc, out, batch) \<Rightarrow>
           (if batch \<noteq> [] then
              let event = length (cc_closed cc)
              in Inr ((Batch \<lparr> br_event = event, br_keys = batch \<rparr>, kept, out),
                   cc\<lparr> cc_raw := rc, cc_closed := cc_closed cc @ [False],
                       cc_pending := foldl (\<lambda>p key. p(key \<mapsto> event)) (cc_pending cc) batch \<rparr>)
            else
              and_then (pending_requests_of (cc_pending cc) kept) (\<lambda>pending_requests.
                Inr ((if pending_requests = [] then NoBatch else Wait pending_requests, [], out),
                  cc\<lparr> cc_raw := rc \<rparr>))))"

text \<open>What the waiting task waits for, and its second locked section.\<close>

definition all_closed :: "(chunk_key \<times> event) list \<Rightarrow> 'm chunk_cache \<Rightarrow> bool" where
  "all_closed pending_requests cc = list_all (\<lambda>(_, event). cc_closed cc ! event) pending_requests"

primrec collect_waited ::
  "'m linked_map \<Rightarrow> (chunk_key \<times> event) list \<Rightarrow> 'm raw_chunk_cache \<Rightarrow> chunk_store \<Rightarrow>
   ('m raw_chunk_cache \<times> chunk_store) res" where
  "collect_waited lm [] rc out = Inr (rc, out)"
| "collect_waited lm (x # xs) rc out =
     (case rc_get lm (fst x) rc of
        (None, _) \<Rightarrow> Inl (Panic ''Waited on chunk, but chunk was not put in cache'')
      | (Some chunk, rc') \<Rightarrow> collect_waited lm xs rc' (store_insert (fst x) chunk out))"

definition get_chunks_waited ::
  "'m linked_map \<Rightarrow> (chunk_key \<times> event) list \<Rightarrow> chunk_store \<Rightarrow> 'm chunk_cache \<Rightarrow>
   chunk_store res \<times> 'm chunk_cache" where
  "get_chunks_waited lm pending_requests out =
     with_lock (\<lambda>cc. and_then (collect_waited lm pending_requests (cc_raw cc) out)
       (\<lambda>(rc, out'). Inr (out', cc\<lparr> cc_raw := rc \<rparr>)))"

primrec fulfill_loop ::
  "'m linked_map \<Rightarrow> (chunk_key \<times> bytes) list \<Rightarrow> 'm chunk_cache \<Rightarrow> 'm chunk_cache res" where
  "fulfill_loop lm [] cc = Inr cc"
| "fulfill_loop lm (x # xs) cc =
     and_then (rc_insert lm (fst x) (snd x) (cc_raw cc)) (\<lambda>rc.
       fulfill_loop lm xs (cc\<lparr> cc_raw := rc, cc_pending := (cc_pending cc)(fst x := None) \<rparr>))"

definition fulfill :: "'m linked_map \<Rightarrow> batch_request \<Rightarrow> bytes list \<Rightarrow> 'm chunk_cache \<Rightarrow> unit res \<times> 'm chunk_cache" where
  "fulfill lm br chunks cc =
     (if length (br_keys br) \<noteq> length chunks then (Inl (Panic ''assertion failed: left == right''), cc)
      else case with_lock (\<lambda>cc. and_then (fulfill_loop lm (zip (br_keys br) chunks) cc) (\<lambda>cc'. Inr ((), cc'))) cc of
             (Inl e, cc') \<Rightarrow> (Inl e, cc')
           | (Inr _, cc') \<Rightarrow> (Inr (), cc'\<lparr> cc_closed := (cc_closed cc')[br_event br := True] \<rparr>))"

definition mark_dirty :: "'m chunk_cache \<Rightarrow> unit res \<times> 'm chunk_cache" where
  "mark_dirty = with_lock (\<lambda>cc. Inr ((), cc\<lparr> cc_needs_saving := True \<rparr>))"

definition cc_len :: "'m linked_map \<Rightarrow> 'm chunk_cache \<Rightarrow> nat res \<times> 'm chunk_cache" where
  "cc_len lm = with_lock (\<lambda>cc. Inr (rc_len lm (cc_raw cc), cc))"

definition cc_total_size :: "'m chunk_cache \<Rightarrow> u64 res \<times> 'm chunk_cache" where
  "cc_total_size = with_lock (\<lambda>cc. Inr (rc_total_size (cc_raw cc), cc))"

subsection \<open>The cache file\<close>

text \<open>
  \<^verbatim>\<open>zstd\<close> is a pair of parameters: the encoder, and the decoder as the bytes it yields together
  with the error that reading beyond them gives.
\<close>

type_synonym byte_source = "bytes \<times> error"

definition read_exact :: "nat \<Rightarrow> byte_source \<Rightarrow> (bytes \<times> byte_source) res" where
  "read_exact n src = (case src of (b, e) \<Rightarrow> if length b < n then Inl e else Inr (take n b, (drop n b, e)))"

text \<open>One round of the reading loop: the rest of the source and the cache.\<close>

definition read_entry :: "'m linked_map \<Rightarrow> hash_fun \<Rightarrow> byte_source \<Rightarrow> 'm raw_chunk_cache \<Rightarrow> (byte_source \<times> 'm raw_chunk_cache) res" where
  "read_entry lm H src rc =
     and_then (read_exact 32 src) (\<lambda>(chunk_key, src).
     and_then (read_exact 4 src) (\<lambda>(u32_buf, src).
       let chunk_length = (from_le u32_buf :: u32)
       in if 20000000 < chunk_length then Inl (Anyhow ''Chunk length too large'')
          else and_then (read_exact (unat chunk_length) src) (\<lambda>(chunk_data, src).
            if H chunk_data \<noteq> chunk_key then Inr (src, rc)
            else and_then (rc_insert lm chunk_key chunk_data rc) (\<lambda>rc. Inr (src, rc)))))"

primrec read_entries :: "'m linked_map \<Rightarrow> hash_fun \<Rightarrow> nat \<Rightarrow> byte_source \<Rightarrow> 'm raw_chunk_cache \<Rightarrow> 'm raw_chunk_cache res" where
  "read_entries lm H 0 src rc = Inr rc"
| "read_entries lm H (Suc n) src rc = and_then (read_entry lm H src rc) (\<lambda>(src, rc). read_entries lm H n src rc)"

definition read_chunk_cache ::
  "'m linked_map \<Rightarrow> hash_fun \<Rightarrow> (bytes \<Rightarrow> byte_source) \<Rightarrow> bytes \<Rightarrow> 'm raw_chunk_cache \<Rightarrow> 'm raw_chunk_cache res" where
  "read_chunk_cache lm H zstd_decode file rc =
     and_then (read_exact 4 (zstd_decode file)) (\<lambda>(u32_buf, src).
       read_entries lm H (unat (from_le u32_buf :: u32)) src rc)"

primrec write_entries :: "(chunk_key \<times> bytes) list \<Rightarrow> bytes res" where
  "write_entries [] = Inr []"
| "write_entries (x # xs) =
     (if length (snd x) < 2 ^ 32 then
        and_then (write_entries xs) (\<lambda>rest.
          Inr (fst x @ to_le 4 (of_nat (length (snd x)) :: u32) @ snd x @ rest))
      else Inl (Panic ''Chunk size wouldn't fit into a u32''))"

definition write_chunk_cache :: "'m linked_map \<Rightarrow> (bytes \<Rightarrow> bytes) \<Rightarrow> 'm raw_chunk_cache \<Rightarrow> bytes res" where
  "write_chunk_cache lm zstd_encode rc =
     (if rc_len lm rc < 2 ^ 32 then
        and_then (write_entries (lm_iter lm (rc_chunks rc))) (\<lambda>entries.
          Inr (zstd_encode (to_le 4 (of_nat (rc_len lm rc) :: u32) @ entries)))
      else Inl (Panic ''Chunk count wouldn't fit into a u32''))"

definition load_from_file ::
  "'m linked_map \<Rightarrow> hash_fun \<Rightarrow> (bytes \<Rightarrow> byte_source) \<Rightarrow> u64 \<Rightarrow> bytes option \<Rightarrow> 'm chunk_cache res" where
  "load_from_file lm H zstd_decode max_size cache_file =
     and_then (case cache_file of
                 Some file \<Rightarrow> read_chunk_cache lm H zstd_decode file (rc_new lm max_size)
               | None \<Rightarrow> Inr (rc_new lm max_size))
       (\<lambda>raw_cache. Inr \<lparr> cc_raw = raw_cache, cc_pending = Map.empty, cc_needs_saving = False,
          cc_closed = [], cc_poisoned = False \<rparr>)"

text \<open>
  \<^verbatim>\<open>try_save\<close>: the locked section decides whether to save and clears the flag; then the blocking
  task writes the temporary file and renames it. \<open>disk\<close> is the outcome of the file operations
  on the written bytes: the error, or nothing. The third result is the content of the cache file.
\<close>

definition save_snapshot :: "'m chunk_cache \<Rightarrow> 'm raw_chunk_cache option res \<times> 'm chunk_cache" where
  "save_snapshot = with_lock (\<lambda>cc.
     if \<not> cc_needs_saving cc then Inr (None, cc)
     else Inr (Some (cc_raw cc), cc\<lparr> cc_needs_saving := False \<rparr>))"

definition try_save ::
  "'m linked_map \<Rightarrow> (bytes \<Rightarrow> bytes) \<Rightarrow> (bytes \<Rightarrow> unit res) \<Rightarrow> 'm chunk_cache \<Rightarrow> bytes option \<Rightarrow>
   unit res \<times> 'm chunk_cache \<times> bytes option" where
  "try_save lm zstd_encode disk cc cache_file =
     (case save_snapshot cc of
        (Inl e, cc') \<Rightarrow> (Inl e, cc', cache_file)
      | (Inr None, cc') \<Rightarrow> (Inr (), cc', cache_file)
      | (Inr (Some raw_cache), cc') \<Rightarrow>
          (case write_chunk_cache lm zstd_encode raw_cache of
             Inl e \<Rightarrow> (Inl (Anyhow ''task panicked''), cc', cache_file)
           | Inr data \<Rightarrow>
               (case disk data of
                  Inl e \<Rightarrow> (Inl e, cc', cache_file)
                | Inr _ \<Rightarrow> (Inr (), cc', Some data))))"

section \<open>The contract of the ordered hash map\<close>

definition without :: "chunk_key \<Rightarrow> (chunk_key \<times> bytes) list \<Rightarrow> (chunk_key \<times> bytes) list" where
  "without k xs = filter (\<lambda>x. fst x \<noteq> k) xs"

definition sizes :: "(chunk_key \<times> bytes) list \<Rightarrow> nat" where
  "sizes xs = (\<Sum>x\<leftarrow>xs. length (snd x))"

lemma sizes_simps [simp]:
  "sizes [] = 0" "sizes (x # xs) = length (snd x) + sizes xs" "sizes (xs @ ys) = sizes xs + sizes ys"
  by (simp_all add: sizes_def)

lemma set_without [simp]: "set (without k xs) = {x \<in> set xs. fst x \<noteq> k}"
  by (simp add: without_def)

lemma without_notin: "k \<notin> fst ` set xs \<Longrightarrow> without k xs = xs"
  by (force simp: without_def intro: filter_True)

lemma sizes_without:
  "distinct (map fst xs) \<Longrightarrow> map_of xs k = Some v \<Longrightarrow> sizes xs = length v + sizes (without k xs)"
proof (induction xs)
  case (Cons x xs)
  show ?case
  proof (cases "fst x = k")
    case True
    with Cons.prems have "k \<notin> fst ` set xs" by auto
    then have "without k (x # xs) = xs" using True by (simp add: without_def) (metis without_def without_notin)
    with True Cons.prems show ?thesis by (cases x) simp
  next
    case False
    with Cons have "sizes xs = length v + sizes (without k xs)" by (cases x) auto
    with False show ?thesis by (simp add: without_def)
  qed
qed simp

lemma map_of_without: "map_of (without k xs) = (map_of xs)(k := None)"
  by (induction xs) (auto simp: without_def)

lemma map_leI: "(\<And>a b. m a = Some b \<Longrightarrow> n a = Some b) \<Longrightarrow> m \<subseteq>\<^sub>m n"
  by (force simp: map_le_def dom_def)

lemma map_leD: "m \<subseteq>\<^sub>m n \<Longrightarrow> m a = Some b \<Longrightarrow> n a = Some b"
  by (force simp: map_le_def dom_def)

lemma sizes_without_le: "sizes (without k xs) \<le> sizes xs"
  by (induction xs) (auto simp: without_def)

lemma sizes_drop: "sizes (drop n xs) \<le> sizes xs"
  by (metis append_take_drop_id le_add2 sizes_simps(3))

text \<open>What the cache holds, and its invariant: the accounted size is the size of what it holds, within the bound.\<close>

definition cache_entries :: "'m linked_map \<Rightarrow> 'm raw_chunk_cache \<Rightarrow> (chunk_key \<times> bytes) list" where
  "cache_entries lm rc = lm_iter lm (rc_chunks rc)"

definition cached_in :: "'m linked_map \<Rightarrow> 'm raw_chunk_cache \<Rightarrow> chunk_key \<Rightarrow> bytes option" where
  "cached_in lm rc = map_of (cache_entries lm rc)"

definition cache_ok :: "'m linked_map \<Rightarrow> 'm raw_chunk_cache \<Rightarrow> bool" where
  "cache_ok lm rc \<longleftrightarrow> rc_total_size rc = of_nat (sizes (cache_entries lm rc)) \<and> rc_total_size rc \<le> rc_max_size rc"

text \<open>The invariant of the shared cache: every pending key waits for an open semaphore and is not cached.\<close>

definition shared_ok :: "'m linked_map \<Rightarrow> 'm chunk_cache \<Rightarrow> bool" where
  "shared_ok lm cc \<longleftrightarrow> \<not> cc_poisoned cc \<and> cache_ok lm (cc_raw cc) \<and>
     (\<forall>k e. cc_pending cc k = Some e \<longrightarrow>
        e < length (cc_closed cc) \<and> \<not> cc_closed cc ! e \<and> cached_in lm (cc_raw cc) k = None)"

locale hashlink =
  fixes lm :: "'m linked_map"
  assumes lm_new: "lm_iter lm (lm_new lm) = []"
    and lm_distinct: "distinct (map fst (lm_iter lm m))"
    and lm_len: "lm_len lm m = length (lm_iter lm m)"
    and lm_insert_old: "fst (lm_insert lm k v m) = map_of (lm_iter lm m) k"
    and lm_insert_iter: "lm_iter lm (snd (lm_insert lm k v m)) = without k (lm_iter lm m) @ [(k, v)]"
    and lm_pop_empty: "lm_iter lm m = [] \<Longrightarrow> fst (lm_pop_front lm m) = None"
    and lm_pop: "lm_iter lm m = x # xs \<Longrightarrow> fst (lm_pop_front lm m) = Some x \<and> lm_iter lm (snd (lm_pop_front lm m)) = xs"
    and lm_to_back_val: "fst (lm_to_back lm k m) = map_of (lm_iter lm m) k"
    and lm_to_back_iter: "lm_iter lm (snd (lm_to_back lm k m)) =
      (case map_of (lm_iter lm m) k of None \<Rightarrow> lm_iter lm m | Some v \<Rightarrow> without k (lm_iter lm m) @ [(k, v)])"
begin

abbreviation "entries \<equiv> cache_entries lm"
abbreviation "cached \<equiv> cached_in lm"
abbreviation "rc_ok \<equiv> cache_ok lm"
abbreviation "cc_ok \<equiv> shared_ok lm"

lemma rc_new_ok: "rc_ok (rc_new lm n)" "entries (rc_new lm n) = []" "rc_max_size (rc_new lm n) = n"
  by (simp_all add: cache_ok_def cache_entries_def rc_new_def lm_new)

lemma distinct_entries: "distinct (map fst (entries rc))"
  by (simp add: cache_entries_def lm_distinct)

lemma rc_evict_ok:
  assumes "rc_total_size rc = of_nat (sizes (entries rc))" "n = length (entries rc)"
  shows "\<exists>rc' d. rc_evict lm n rc = Inr rc' \<and> rc_ok rc' \<and> entries rc' = drop d (entries rc) \<and> rc_max_size rc' = rc_max_size rc
    \<and> d \<le> length (entries rc) \<and> (\<forall>i < d. rc_max_size rc < of_nat (sizes (drop i (entries rc))))"
  using assms
proof (induction n arbitrary: rc)
  case 0
  then show ?case by (auto simp: cache_ok_def intro!: exI [of _ 0])
next
  case (Suc n)
  from Suc.prems obtain x xs where x: "entries rc = x # xs" by (cases "entries rc") auto
  show ?case
  proof (cases "rc_max_size rc < rc_total_size rc")
    case False
    then have "rc_evict lm (Suc n) rc = Inr rc" by simp
    with False Suc.prems(1) show ?thesis
      by (intro exI [of _ rc] exI [of _ 0]) (simp add: cache_ok_def)
  next
    case True
    from x obtain m where m: "lm_pop_front lm (rc_chunks rc) = (Some x, m)" "lm_iter lm m = xs"
      using lm_pop [of "rc_chunks rc" x xs] unfolding cache_entries_def by (metis prod.collapse)
    define rc1 where "rc1 = rc\<lparr> rc_chunks := m, rc_total_size := rc_total_size rc - of_nat (length (snd x)) \<rparr>"
    have pop: "entries rc1 = xs" "rc_max_size rc1 = rc_max_size rc" using m(2) by (simp_all add: cache_entries_def rc1_def)
    have "rc_total_size rc1 = of_nat (sizes (entries rc1))" "n = length (entries rc1)"
      using Suc.prems x pop by (simp_all add: rc1_def)
    from Suc.IH [OF this] obtain rc' d where rc': "rc_evict lm n rc1 = Inr rc'" "rc_ok rc'"
      "entries rc' = drop d xs" "rc_max_size rc' = rc_max_size rc" "d \<le> length xs"
      "\<forall>i < d. rc_max_size rc < of_nat (sizes (drop i xs))"
      unfolding pop by blast
    have "rc_evict lm (Suc n) rc = Inr rc'" using True m(1) rc'(1) by (cases x) (simp add: rc1_def)
    moreover have "rc_max_size rc < of_nat (sizes (drop i (x # xs)))" if "i < Suc d" for i
      using that True Suc.prems(1) rc'(6) x by (cases i) auto
    ultimately show ?thesis
      using rc' x by (intro exI [of _ rc'] exI [of _ "Suc d"]) simp
  qed
qed

text \<open>Insertion never panics: it moves the entry to the back and drops the shortest prefix that makes it fit.\<close>

lemma rc_insert_ok:
  assumes "rc_ok rc"
  shows "\<exists>rc' d. rc_insert lm k v rc = Inr rc' \<and> rc_ok rc' \<and> rc_max_size rc' = rc_max_size rc \<and>
    entries rc' = drop d (without k (entries rc) @ [(k, v)]) \<and> d \<le> length (without k (entries rc) @ [(k, v)]) \<and>
    (\<forall>i < d. rc_max_size rc < of_nat (sizes (drop i (without k (entries rc) @ [(k, v)]))))"
proof -
  define total where "total = (case map_of (entries rc) k of
      Some old \<Rightarrow> rc_total_size rc + of_nat (length v) - of_nat (length old)
    | None \<Rightarrow> rc_total_size rc + of_nat (length v))"
  define rc1 where "rc1 = rc\<lparr> rc_chunks := snd (lm_insert lm k v (rc_chunks rc)), rc_total_size := total \<rparr>"
  have ent: "entries rc1 = without k (entries rc) @ [(k, v)]"
    by (simp add: cache_entries_def lm_insert_iter rc1_def)
  have "total = of_nat (sizes (entries rc1))"
  proof (cases "map_of (entries rc) k")
    case None
    then have "without k (entries rc) = entries rc" by (intro without_notin) (auto simp: map_of_eq_None_iff)
    with None assms show ?thesis unfolding ent total_def by (simp add: cache_ok_def)
  next
    case (Some old)
    with sizes_without [OF distinct_entries Some] assms show ?thesis
      unfolding ent total_def by (simp add: cache_ok_def)
  qed
  then have total: "rc_total_size rc1 = of_nat (sizes (entries rc1))" by (simp add: rc1_def)
  have max: "rc_max_size rc1 = rc_max_size rc" by (simp add: rc1_def)
  have ins: "rc_insert lm k v rc = rc_evict lm (length (entries rc1)) rc1"
    unfolding rc1_def total_def cache_entries_def
    by (simp add: rc_insert_def Let_def split_beta lm_len lm_insert_old split: option.split)
  show ?thesis
    using rc_evict_ok [OF total refl] unfolding ins max unfolding ent by blast
qed

lemma rc_insert_fits:
  assumes "rc_ok rc" "sizes (without k (entries rc)) + length v \<le> unat (rc_max_size rc)"
  shows "\<exists>rc'. rc_insert lm k v rc = Inr rc' \<and> rc_ok rc' \<and> rc_max_size rc' = rc_max_size rc \<and>
    entries rc' = without k (entries rc) @ [(k, v)]"
proof -
  let ?xs = "without k (entries rc) @ [(k, v)]"
  obtain rc' d where rc': "rc_insert lm k v rc = Inr rc'" "rc_ok rc'" "rc_max_size rc' = rc_max_size rc"
    "entries rc' = drop d ?xs" "\<forall>i < d. rc_max_size rc < of_nat (sizes (drop i ?xs))"
    using rc_insert_ok [OF assms(1)] by blast
  have "unat (of_nat (sizes ?xs) :: u64) \<le> sizes ?xs" by (simp only: unat_of_nat mod_less_eq_dividend)
  then have "\<not> rc_max_size rc < of_nat (sizes (drop 0 ?xs))" using assms(2) by (simp add: word_less_nat_alt)
  with rc'(5) have "d = 0" by blast
  with rc' show ?thesis by simp
qed

lemma rc_get_spec:
  "fst (rc_get lm k rc) = map_of (entries rc) k"
  "set (entries (snd (rc_get lm k rc))) = set (entries rc)"
  "rc_max_size (snd (rc_get lm k rc)) = rc_max_size rc"
  "rc_ok rc \<Longrightarrow> rc_ok (snd (rc_get lm k rc))"
proof -
  let ?rc = "snd (rc_get lm k rc)"
  have ent: "entries ?rc = (case map_of (entries rc) k of None \<Rightarrow> entries rc | Some v \<Rightarrow> without k (entries rc) @ [(k, v)])"
    unfolding cache_entries_def by (simp add: rc_get_def lm_to_back_iter split_beta)
  show "fst (rc_get lm k rc) = map_of (entries rc) k"
    by (simp add: rc_get_def cache_entries_def lm_to_back_val split_beta)
  show max: "rc_max_size ?rc = rc_max_size rc" by (simp add: rc_get_def split_beta)
  have total: "rc_total_size ?rc = rc_total_size rc" by (simp add: rc_get_def split_beta)
  show "set (entries ?rc) = set (entries rc)"
  proof (cases "map_of (entries rc) k")
    case (Some v)
    have "{x \<in> set (entries rc). fst x = k} = {(k, v)}"
    proof (intro set_eqI iffI)
      fix x assume "x \<in> {x \<in> set (entries rc). fst x = k}"
      then have "map_of (entries rc) k = Some (snd x)"
        by (cases x) (auto intro: map_of_is_SomeI [OF distinct_entries])
      with Some \<open>x \<in> _\<close> show "x \<in> {(k, v)}" by (cases x) simp
    qed (use map_of_SomeD [OF Some] in simp)
    moreover have "set (without k (entries rc)) \<union> {x \<in> set (entries rc). fst x = k} = set (entries rc)"
      by auto
    ultimately show ?thesis unfolding ent Some by simp
  qed (simp add: ent)
  have "sizes (entries ?rc) = sizes (entries rc)"
    using sizes_without [OF distinct_entries, of rc k] by (auto simp: ent split: option.split)
  then show "rc_ok rc \<Longrightarrow> rc_ok ?rc"
    unfolding cache_ok_def total max by metis
qed

lemma cached_get: "fst (rc_get lm k rc) = cached rc k" "cached (snd (rc_get lm k rc)) = cached rc"
proof -
  show "fst (rc_get lm k rc) = cached rc k" by (simp add: rc_get_spec cached_in_def)
  show "cached (snd (rc_get lm k rc)) = cached rc"
    unfolding cached_in_def by (rule map_of_inject_set [THEN iffD2]) (simp_all add: distinct_entries rc_get_spec)
qed

lemma rc_get_cases:
  obtains rc' where "rc_get lm k rc = (cached rc k, rc')" "cached rc' = cached rc" "rc_max_size rc' = rc_max_size rc"
    "rc_ok rc \<Longrightarrow> rc_ok rc'"
  using that [of "snd (rc_get lm k rc)"] by (metis cached_get rc_get_spec(3,4) prod.collapse)

lemma cached_new: "cached (rc_new lm n) = Map.empty"
  by (simp add: cached_in_def rc_new_ok)

lemma cached_insert:
  assumes "rc_ok rc"
  obtains rc' where "rc_insert lm k v rc = Inr rc'" "rc_ok rc'" "rc_max_size rc' = rc_max_size rc"
    "cached rc' \<subseteq>\<^sub>m (cached rc)(k \<mapsto> v)"
    "sizes (entries rc') \<le> sizes (entries rc) + length v"
    "sizes (entries rc) + length v \<le> unat (rc_max_size rc) \<Longrightarrow> cached rc' = (cached rc)(k \<mapsto> v)"
proof -
  obtain rc' d where rc': "rc_insert lm k v rc = Inr rc'" "rc_ok rc'" "rc_max_size rc' = rc_max_size rc"
    "entries rc' = drop d (without k (entries rc) @ [(k, v)])"
    using rc_insert_ok [OF assms] by blast
  have dist: "distinct (map fst (without k (entries rc) @ [(k, v)]))"
    using distinct_entries [of rc] by (auto simp: without_def distinct_map_filter)
  have full: "map_of (without k (entries rc) @ [(k, v)]) = (cached rc)(k \<mapsto> v)"
    by (auto simp: cached_in_def map_of_without map_add_def split: option.split)
  have "cached rc' \<subseteq>\<^sub>m (cached rc)(k \<mapsto> v)"
  proof (rule map_leI)
    fix j w assume "cached rc' j = Some w"
    then have "(j, w) \<in> set (without k (entries rc) @ [(k, v)])"
      unfolding cached_in_def rc'(4) by (meson in_set_dropD map_of_SomeD)
    with dist have "map_of (without k (entries rc) @ [(k, v)]) j = Some w" by (rule map_of_is_SomeI)
    then show "((cached rc)(k \<mapsto> v)) j = Some w" by (simp only: full)
  qed
  moreover have "sizes (entries rc') \<le> sizes (entries rc) + length v"
    unfolding rc'(4) by (rule order_trans [OF sizes_drop]) (simp add: sizes_without_le)
  moreover have "cached rc' = (cached rc)(k \<mapsto> v)" if "sizes (entries rc) + length v \<le> unat (rc_max_size rc)"
    using that rc_insert_fits [OF assms, of k v] sizes_without_le [of k "entries rc"] rc'(1) full
    by (simp add: cached_in_def)
  ultimately show thesis using that rc' by blast
qed

end

text \<open>The association lists of the library are an implementation of the contract.\<close>

lift_definition da_append :: "'k \<Rightarrow> 'v \<Rightarrow> ('k, 'v) alist \<Rightarrow> ('k, 'v) alist"
  is "\<lambda>k v xs. filter (\<lambda>x. fst x \<noteq> k) xs @ [(k, v)]"
  by (auto simp: distinct_map_filter)

lift_definition da_tl :: "('k, 'v) alist \<Rightarrow> ('k, 'v) alist"
  is "\<lambda>xs. tl xs" by (simp add: distinct_tl map_tl)

definition alist_map :: "(chunk_key, bytes) alist linked_map" where
  "alist_map = \<lparr> lm_new = DAList.empty,
     lm_insert = (\<lambda>k v m. (DAList.lookup m k, da_append k v m)),
     lm_pop_front = (\<lambda>m. case DAList.impl_of m of [] \<Rightarrow> (None, m) | x # _ \<Rightarrow> (Some x, da_tl m)),
     lm_to_back = (\<lambda>k m. case DAList.lookup m k of None \<Rightarrow> (None, m) | Some v \<Rightarrow> (Some v, da_append k v m)),
     lm_len = (\<lambda>m. length (DAList.impl_of m)),
     lm_iter = DAList.impl_of \<rparr>"

interpretation am: hashlink alist_map
  by unfold_locales
    (auto simp: alist_map_def empty.rep_eq da_append.rep_eq da_tl.rep_eq without_def lookup.rep_eq split: list.split option.split)

section \<open>Reading and writing entries\<close>

lemma read_exact_cases:
  obtains "read_exact n src = Inl (snd src)"
  | x src' where "read_exact n src = Inr (x, src')" "snd src' = snd src"
proof (cases "length (fst src) < n")
  case True
  then show thesis by (intro that(1)) (simp add: read_exact_def split_beta)
next
  case False
  then show thesis
    by (intro that(2) [of "take n (fst src)" "(drop n (fst src), snd src)"]) (simp_all add: read_exact_def split_beta)
qed

lemma write_entries_ok: "\<forall>x \<in> set xs. fst x = H (snd x) \<and> length (snd x) \<le> 20000000 \<Longrightarrow> \<exists>b. write_entries xs = Inr b"
  by (induction xs) auto

section \<open>Requests and batches\<close>

text \<open>Whatever the map does, a batch only contains keys that left the request.\<close>

lemma retain_shrinks:
  "retain_requested lm n p ks (rc, out, batch) = (kept, rc', out', batch') \<Longrightarrow>
     (length batch' = length batch \<or> length batch < length batch' \<and> length kept < length ks) \<and> length kept \<le> length ks"
proof (induction ks arbitrary: rc out batch kept)
  case Nil
  then show ?case by simp
next
  case (Cons k ks)
  obtain c rc1 where g: "rc_get lm k rc = (c, rc1)" by fastforce
  obtain kept1 rc2 out2 batch2 where r: "retain_requested lm n p ks (rc1, out, batch) = (kept1, rc2, out2, batch2)"
    by (cases "retain_requested lm n p ks (rc1, out, batch)") auto
  show ?case
  proof (cases c)
    case (Some b)
    with Cons.prems g Cons.IH [of rc1 "store_insert k b out" batch kept] show ?thesis by auto
  next
    case None
    show ?thesis
    proof (cases "p k = None \<and> length batch < n")
      case True
      with Cons.prems g None Cons.IH [of rc1 out "if k \<in> set batch then batch else batch @ [k]" kept]
      show ?thesis by (auto split: if_splits)
    next
      case False
      with Cons.prems g None r Cons.IH [of rc1 out batch kept1] show ?thesis by auto
    qed
  qed
qed

context hashlink
begin

lemma retain_state:
  "retain_requested lm n p ks (rc, out, batch) = (kept, rc', out', batch') \<Longrightarrow>
     cached rc' = cached rc \<and> rc_max_size rc' = rc_max_size rc \<and> (rc_ok rc \<longrightarrow> rc_ok rc')"
proof (induction ks arbitrary: rc out batch kept)
  case Nil
  then show ?case by simp
next
  case (Cons k ks)
  obtain rc1 where g: "rc_get lm k rc = (cached rc k, rc1)" "cached rc1 = cached rc" "rc_max_size rc1 = rc_max_size rc"
    "rc_ok rc \<Longrightarrow> rc_ok rc1"
    by (rule rc_get_cases [of k rc]) blast
  show ?case
  proof (cases "cached rc k")
    case (Some b)
    with Cons.prems g(1) have "retain_requested lm n p ks (rc1, store_insert k b out, batch) = (kept, rc', out', batch')"
      by simp
    with g show ?thesis by (auto dest: Cons.IH)
  next
    case None
    show ?thesis
    proof (cases "p k = None \<and> length batch < n")
      case True
      with Cons.prems g(1) None have
        "retain_requested lm n p ks (rc1, out, if k \<in> set batch then batch else batch @ [k]) = (kept, rc', out', batch')"
        by simp
      from Cons.IH [OF this] g show ?thesis by auto
    next
      case False
      with Cons.prems g(1) None obtain kept1 where
        "retain_requested lm n p ks (rc1, out, batch) = (kept1, rc', out', batch')"
        by (auto split: prod.splits)
      from Cons.IH [OF this] g show ?thesis by auto
    qed
  qed
qed

text \<open>
  One pass over the request: every cached key is answered, the batch holds distinct keys
  that are neither cached nor pending, and what is kept is pending, or the batch is full.
\<close>

definition retain_post ::
  "(chunk_key \<Rightarrow> bytes option) \<Rightarrow> nat \<Rightarrow> (chunk_key \<rightharpoonup> event) \<Rightarrow> chunk_key list \<Rightarrow> chunk_store \<Rightarrow> chunk_key list \<Rightarrow>
   chunk_key list \<Rightarrow> chunk_store \<Rightarrow> chunk_key list \<Rightarrow> bool" where
  "retain_post c n p ks out batch kept out' batch' \<longleftrightarrow>
     (\<exists>new add. out' = new @ out \<and> batch' = batch @ add \<and>
        (\<forall>(k, b) \<in> set new. c k = Some b) \<and>
        (\<forall>k \<in> set add. c k = None \<and> p k = None) \<and> set add \<subseteq> set ks \<and>
        (\<forall>k \<in> set kept. c k = None \<and> k \<in> set ks \<and> (p k \<noteq> None \<or> n \<le> length batch')) \<and>
        (\<forall>k \<in> set ks. k \<in> fst ` set new \<or> k \<in> set batch' \<or> k \<in> set kept) \<and>
        (distinct batch \<longrightarrow> distinct batch') \<and> length batch' \<le> max n (length batch))"

lemma retain_post_cached:
  assumes "c k = Some b" "retain_post c n p ks (store_insert k b out) batch kept out' batch'"
  shows "retain_post c n p (k # ks) out batch kept out' batch'"
proof -
  from assms(2) obtain new add where na: "out' = new @ (k, b) # out" "batch' = batch @ add"
    "\<forall>(k, b) \<in> set new. c k = Some b" "\<forall>k \<in> set add. c k = None \<and> p k = None" "set add \<subseteq> set ks"
    "\<forall>k \<in> set kept. c k = None \<and> k \<in> set ks \<and> (p k \<noteq> None \<or> n \<le> length batch')"
    "\<forall>k \<in> set ks. k \<in> fst ` set new \<or> k \<in> set batch' \<or> k \<in> set kept"
    "distinct batch \<longrightarrow> distinct batch'" "length batch' \<le> max n (length batch)"
    unfolding retain_post_def store_insert_def by blast
  with assms(1) show ?thesis
    unfolding retain_post_def by (intro exI [of _ "new @ [(k, b)]"] exI [of _ add]) auto
qed

lemma retain_post_batch:
  assumes "c k = None" "p k = None" "length batch < n"
    "retain_post c n p ks out (if k \<in> set batch then batch else batch @ [k]) kept out' batch'"
  shows "retain_post c n p (k # ks) out batch kept out' batch'"
proof -
  define new_keys where "new_keys = (if k \<in> set batch then [] else [k])"
  have "retain_post c n p ks out (batch @ new_keys) kept out' batch'"
    using assms(4) by (cases "k \<in> set batch") (simp_all add: new_keys_def)
  then obtain new add where na: "out' = new @ out" "batch' = (batch @ new_keys) @ add"
    "\<forall>(k, b) \<in> set new. c k = Some b" "\<forall>k \<in> set add. c k = None \<and> p k = None" "set add \<subseteq> set ks"
    "\<forall>k \<in> set kept. c k = None \<and> k \<in> set ks \<and> (p k \<noteq> None \<or> n \<le> length batch')"
    "\<forall>k \<in> set ks. k \<in> fst ` set new \<or> k \<in> set batch' \<or> k \<in> set kept"
    "distinct (batch @ new_keys) \<longrightarrow> distinct batch'" "length batch' \<le> max n (length (batch @ new_keys))"
    unfolding retain_post_def by blast
  moreover have "set new_keys \<subseteq> {k}" "k \<in> set (batch @ new_keys)" "length new_keys \<le> 1"
    "distinct batch \<longrightarrow> distinct (batch @ new_keys)"
    by (simp_all add: new_keys_def)
  ultimately show ?thesis using assms(1-3)
    unfolding retain_post_def by (intro exI [of _ new] exI [of _ "new_keys @ add"]) auto
qed

lemma retain_post_kept:
  assumes "c k = None" "p k \<noteq> None \<or> n \<le> length batch" "retain_post c n p ks out batch kept out' batch'"
  shows "retain_post c n p (k # ks) out batch (k # kept) out' batch'"
  using assms unfolding retain_post_def by fastforce

lemma retain_spec:
  "retain_requested lm n p ks (rc, out, batch) = (kept, rc', out', batch') \<Longrightarrow>
     retain_post (cached rc) n p ks out batch kept out' batch'"
proof (induction ks arbitrary: rc out batch kept)
  case Nil
  then show ?case by (auto simp: retain_post_def)
next
  case (Cons k ks)
  obtain rc1 where g: "rc_get lm k rc = (cached rc k, rc1)" "cached rc1 = cached rc"
    by (rule rc_get_cases [of k rc]) blast
  show ?case
  proof (cases "cached rc k")
    case (Some b)
    with Cons.prems g(1) have "retain_requested lm n p ks (rc1, store_insert k b out, batch) = (kept, rc', out', batch')"
      by simp
    with Some Cons.IH g(2) show ?thesis by (metis retain_post_cached)
  next
    case None
    show ?thesis
    proof (cases "p k = None \<and> length batch < n")
      case True
      with Cons.prems g(1) None have
        "retain_requested lm n p ks (rc1, out, if k \<in> set batch then batch else batch @ [k]) = (kept, rc', out', batch')"
        by simp
      from Cons.IH [OF this] True None g(2) show ?thesis by (metis retain_post_batch)
    next
      case False
      with Cons.prems g(1) None obtain kept1 where
        "retain_requested lm n p ks (rc1, out, batch) = (kept1, rc', out', batch')" "kept = k # kept1"
        by (auto split: prod.splits)
      with Cons.IH [OF this(1)] False None g(2) retain_post_kept [of "cached rc" k p n batch ks out kept1 out' batch']
      show ?thesis by (metis not_le)
    qed
  qed
qed

lemma cc_new_ok: "cc_ok (cc_new lm n)"
  by (simp add: shared_ok_def cc_new_def rc_new_ok)

lemma pending_requests_ok:
  "\<forall>k \<in> set ks. p k \<noteq> None \<Longrightarrow> pending_requests_of p ks = Inr (map (\<lambda>k. (k, the (p k))) ks)"
  by (induction ks) auto

lemma foldl_pending: "foldl (\<lambda>p key. p(key \<mapsto> e)) p ks = p ++ (\<lambda>k. if k \<in> set ks then Some e else None)"
  by (induction ks arbitrary: p) (auto simp: map_add_def fun_eq_iff)

text \<open>The outcomes of \<^verbatim>\<open>get_chunks_batched\<close>; \<open>new\<close> are the cached chunks it puts out.\<close>

lemma get_chunks_batched_cases:
  assumes "cc_ok cc" "0 < n"
  obtains (batch) kept new br rc where
    "get_chunks_batched lm ks out n cc = (Inr (Batch br, kept, new @ out),
       cc\<lparr> cc_raw := rc, cc_closed := cc_closed cc @ [False],
           cc_pending := cc_pending cc ++ (\<lambda>k. if k \<in> set (br_keys br) then Some (br_event br) else None) \<rparr>)"
    "rc_ok rc" "cached rc = cached (cc_raw cc)" "rc_max_size rc = rc_max_size (cc_raw cc)"
    "br_event br = length (cc_closed cc)" "br_keys br \<noteq> []" "distinct (br_keys br)" "length (br_keys br) \<le> n"
    "\<forall>k \<in> set (br_keys br). cached (cc_raw cc) k = None \<and> cc_pending cc k = None"
    "set (br_keys br) \<union> set kept \<subseteq> set ks" "set ks \<subseteq> fst ` set new \<union> set (br_keys br) \<union> set kept"
    "\<forall>(k, b) \<in> set new. cached (cc_raw cc) k = Some b"
  | (waiting) new ws rc where
    "get_chunks_batched lm ks out n cc = (Inr (if ws = [] then NoBatch else Wait ws, [], new @ out), cc\<lparr> cc_raw := rc \<rparr>)"
    "rc_ok rc" "cached rc = cached (cc_raw cc)" "rc_max_size rc = rc_max_size (cc_raw cc)"
    "\<forall>(k, e) \<in> set ws. cc_pending cc k = Some e \<and> k \<in> set ks" "set ks \<subseteq> fst ` set new \<union> fst ` set ws"
    "\<forall>(k, b) \<in> set new. cached (cc_raw cc) k = Some b"
proof -
  obtain kept rc out' batch where r: "retain_requested lm n (cc_pending cc) ks (cc_raw cc, out, []) = (kept, rc, out', batch)"
    by (cases "retain_requested lm n (cc_pending cc) ks (cc_raw cc, out, [])") auto
  from retain_spec [OF r] obtain new add where na: "out' = new @ out" "batch = [] @ add"
    and p: "\<forall>(k, b) \<in> set new. cached (cc_raw cc) k = Some b"
    "\<forall>k \<in> set add. cached (cc_raw cc) k = None \<and> cc_pending cc k = None" "set add \<subseteq> set ks"
    "\<forall>k \<in> set kept. cached (cc_raw cc) k = None \<and> k \<in> set ks \<and> (cc_pending cc k \<noteq> None \<or> n \<le> length batch)"
    "\<forall>k \<in> set ks. k \<in> fst ` set new \<or> k \<in> set batch \<or> k \<in> set kept"
    "distinct ([] :: chunk_key list) \<longrightarrow> distinct batch" "length batch \<le> max n (length ([] :: chunk_key list))"
    unfolding retain_post_def by blast
  from na(2) have add: "add = batch" by simp
  have rc: "cached rc = cached (cc_raw cc)" "rc_max_size rc = rc_max_size (cc_raw cc)" "rc_ok rc"
    using retain_state [OF r] assms(1) by (auto simp: shared_ok_def)
  have live: "\<not> cc_poisoned cc" using assms(1) by (simp add: shared_ok_def)
  show thesis
  proof (cases "batch = []")
    case False
    let ?br = "\<lparr> br_event = length (cc_closed cc), br_keys = batch \<rparr>"
    have "get_chunks_batched lm ks out n cc = (Inr (Batch ?br, kept, new @ out),
       cc\<lparr> cc_raw := rc, cc_closed := cc_closed cc @ [False],
           cc_pending := cc_pending cc ++ (\<lambda>k. if k \<in> set (br_keys ?br) then Some (br_event ?br) else None) \<rparr>)"
      using r False live na(1) by (simp add: get_chunks_batched_def with_lock_def Let_def foldl_pending cong: if_cong)
    moreover have "set kept \<subseteq> set ks" "set ks \<subseteq> fst ` set new \<union> set batch \<union> set kept"
      using p(4,5) by auto
    ultimately show thesis using batch [of ?br kept new rc] rc p False add by simp
  next
    case True
    let ?ws = "map (\<lambda>k. (k, the (cc_pending cc k))) kept"
    have pend: "\<forall>k \<in> set kept. cc_pending cc k \<noteq> None" using p(4) True assms(2) by auto
    then have "get_chunks_batched lm ks out n cc = (Inr (if ?ws = [] then NoBatch else Wait ?ws, [], new @ out), cc\<lparr> cc_raw := rc \<rparr>)"
      using r True live na(1) by (simp add: get_chunks_batched_def with_lock_def pending_requests_ok)
    moreover have "\<forall>(k, e) \<in> set ?ws. cc_pending cc k = Some e \<and> k \<in> set ks" using pend p(4) by auto
    moreover have "set ks \<subseteq> fst ` set new \<union> fst ` set ?ws" using p(5) True by (auto simp: image_image)
    ultimately show thesis using waiting rc p(1) by blast
  qed
qed

lemma fulfill_loop_spec:
  assumes "rc_ok (cc_raw cc)"
  shows "\<exists>rc. fulfill_loop lm xs cc = Inr (cc\<lparr> cc_raw := rc, cc_pending := cc_pending cc |` (- fst ` set xs) \<rparr>) \<and>
    rc_ok rc \<and> rc_max_size rc = rc_max_size (cc_raw cc) \<and>
    (\<forall>k b. cached rc k = Some b \<longrightarrow> (k, b) \<in> set xs \<or> cached (cc_raw cc) k = Some b) \<and>
    sizes (entries rc) \<le> sizes (entries (cc_raw cc)) + sizes xs \<and>
    (sizes (entries (cc_raw cc)) + sizes xs \<le> unat (rc_max_size (cc_raw cc)) \<longrightarrow>
       cached rc = cached (cc_raw cc) ++ map_of (rev xs))"
  using assms
proof (induction xs arbitrary: cc)
  case Nil
  then show ?case by (intro exI [of _ "cc_raw cc"]) auto
next
  case (Cons x xs)
  obtain rc1 where 1: "rc_insert lm (fst x) (snd x) (cc_raw cc) = Inr rc1" "rc_ok rc1" "rc_max_size rc1 = rc_max_size (cc_raw cc)"
    "cached rc1 \<subseteq>\<^sub>m (cached (cc_raw cc))(fst x \<mapsto> snd x)" "sizes (entries rc1) \<le> sizes (entries (cc_raw cc)) + length (snd x)"
    "sizes (entries (cc_raw cc)) + length (snd x) \<le> unat (rc_max_size (cc_raw cc)) \<longrightarrow>
      cached rc1 = (cached (cc_raw cc))(fst x \<mapsto> snd x)"
    using cached_insert [OF Cons.prems, of "fst x" "snd x"] by metis
  define cc1 where "cc1 = cc\<lparr> cc_raw := rc1, cc_pending := (cc_pending cc)(fst x := None) \<rparr>"
  have raw: "cc_raw cc1 = rc1" by (simp add: cc1_def)
  obtain rc where rc: "fulfill_loop lm xs cc1 = Inr (cc1\<lparr> cc_raw := rc, cc_pending := cc_pending cc1 |` (- fst ` set xs) \<rparr>)"
    "rc_ok rc" "rc_max_size rc = rc_max_size rc1"
    "\<forall>k b. cached rc k = Some b \<longrightarrow> (k, b) \<in> set xs \<or> cached rc1 k = Some b"
    "sizes (entries rc) \<le> sizes (entries rc1) + sizes xs"
    "sizes (entries rc1) + sizes xs \<le> unat (rc_max_size rc1) \<longrightarrow> cached rc = cached rc1 ++ map_of (rev xs)"
    using Cons.IH [of cc1] 1(2) unfolding raw by blast
  have "cc_pending cc1 |` (- fst ` set xs) = cc_pending cc |` (- fst ` set (x # xs))"
    by (auto simp: cc1_def restrict_map_def fun_eq_iff)
  then have "fulfill_loop lm (x # xs) cc = Inr (cc\<lparr> cc_raw := rc, cc_pending := cc_pending cc |` (- fst ` set (x # xs)) \<rparr>)"
    using rc(1) 1(1) by (simp add: cc1_def)
  moreover have "(k, b) \<in> set (x # xs) \<or> cached (cc_raw cc) k = Some b" if "cached rc k = Some b" for k b
    using that rc(4) map_leD [OF 1(4), of k b] by (cases x; cases "k = fst x") auto
  moreover have "cached rc = cached (cc_raw cc) ++ map_of (rev (x # xs))"
    if "sizes (entries (cc_raw cc)) + sizes (x # xs) \<le> unat (rc_max_size (cc_raw cc))"
    using that rc(6) 1(3,5,6) by (cases x) auto
  ultimately show ?case using rc(2,3,5) 1(3,5) by (intro exI [of _ rc]) auto
qed

lemma fulfill_spec:
  assumes "cc_ok cc" "length chunks = length (br_keys br)" "br_event br < length (cc_closed cc)"
    "\<forall>k. cc_pending cc k = Some (br_event br) \<longrightarrow> k \<in> set (br_keys br)"
  obtains rc where "fulfill lm br chunks cc = (Inr (), cc\<lparr> cc_raw := rc, cc_pending := cc_pending cc |` (- set (br_keys br)),
      cc_closed := (cc_closed cc)[br_event br := True] \<rparr>)"
    "cc_ok (snd (fulfill lm br chunks cc))" "rc_max_size rc = rc_max_size (cc_raw cc)"
    "\<forall>k b. cached rc k = Some b \<longrightarrow> (k, b) \<in> set (zip (br_keys br) chunks) \<or> cached (cc_raw cc) k = Some b"
    "sizes (entries (cc_raw cc)) + sizes (zip (br_keys br) chunks) \<le> unat (rc_max_size (cc_raw cc)) \<Longrightarrow>
       cached rc = cached (cc_raw cc) ++ map_of (rev (zip (br_keys br) chunks))"
proof -
  let ?xs = "zip (br_keys br) chunks"
  have keys: "fst ` set ?xs = set (br_keys br)" using assms(2) by (metis list.set_map map_fst_zip)
  from assms(1) have ok: "rc_ok (cc_raw cc)" "\<not> cc_poisoned cc" by (simp_all add: shared_ok_def)
  obtain rc where rc: "fulfill_loop lm ?xs cc = Inr (cc\<lparr> cc_raw := rc, cc_pending := cc_pending cc |` (- set (br_keys br)) \<rparr>)"
    "rc_ok rc" "rc_max_size rc = rc_max_size (cc_raw cc)"
    "\<forall>k b. cached rc k = Some b \<longrightarrow> (k, b) \<in> set ?xs \<or> cached (cc_raw cc) k = Some b"
    "sizes (entries (cc_raw cc)) + sizes ?xs \<le> unat (rc_max_size (cc_raw cc)) \<longrightarrow>
       cached rc = cached (cc_raw cc) ++ map_of (rev ?xs)"
    using fulfill_loop_spec [OF ok(1), of ?xs] unfolding keys by blast
  have f: "fulfill lm br chunks cc = (Inr (), cc\<lparr> cc_raw := rc, cc_pending := cc_pending cc |` (- set (br_keys br)),
      cc_closed := (cc_closed cc)[br_event br := True] \<rparr>)"
    using rc(1) ok(2) assms(2) by (simp add: fulfill_def with_lock_def)
  have "e < length (cc_closed cc) \<and> \<not> (cc_closed cc)[br_event br := True] ! e \<and> cached rc k = None"
    if "(cc_pending cc |` (- set (br_keys br))) k = Some e" for k e
  proof -
    from that have k: "k \<notin> set (br_keys br)" "cc_pending cc k = Some e"
      by (auto simp: restrict_map_def split: if_splits)
    with assms(4) have "e \<noteq> br_event br" by auto
    moreover from k assms(1) have "e < length (cc_closed cc)" "\<not> cc_closed cc ! e" "cached (cc_raw cc) k = None"
      by (auto simp: shared_ok_def)
    moreover have "(k, b) \<notin> set ?xs" for b using k(1) keys by (metis fst_conv imageI)
    ultimately show ?thesis using rc(4) by (metis nth_list_update_neq option.distinct(1) option.exhaust)
  qed
  then have "cc_ok (snd (fulfill lm br chunks cc))" using rc(2) ok(2) by (simp add: f shared_ok_def)
  with that f rc(3-5) show thesis by blast
qed

text \<open>The cache file.\<close>

definition holds_addressed :: "hash_fun \<Rightarrow> 'm raw_chunk_cache \<Rightarrow> bool" where
  "holds_addressed H rc \<longleftrightarrow> rc_ok rc \<and> (\<forall>x \<in> set (entries rc). fst x = H (snd x))"

lemma rc_insert_addressed:
  assumes "holds_addressed H rc"
  obtains rc' where "rc_insert lm (H v) v rc = Inr rc'" "holds_addressed H rc'" "rc_max_size rc' = rc_max_size rc"
proof -
  obtain rc' d where "rc_insert lm (H v) v rc = Inr rc'" "rc_ok rc'" "rc_max_size rc' = rc_max_size rc"
    "entries rc' = drop d (without (H v) (entries rc) @ [(H v, v)])"
    using rc_insert_ok [of rc "H v" v] assms unfolding holds_addressed_def by blast
  moreover from this(4) have "set (entries rc') \<subseteq> insert (H v, v) (set (entries rc))"
    using set_drop_subset [of d "without (H v) (entries rc) @ [(H v, v)]"] by auto
  then have "\<forall>x \<in> set (entries rc'). fst x = H (snd x)"
    using assms by (auto simp: holds_addressed_def)
  ultimately show thesis using that unfolding holds_addressed_def by blast
qed

lemma read_entry_safe:
  assumes "holds_addressed H rc"
  shows "case read_entry lm H src rc of
      Inl e \<Rightarrow> e = snd src \<or> e = Anyhow ''Chunk length too large''
    | Inr (src', rc') \<Rightarrow> snd src' = snd src \<and> holds_addressed H rc' \<and> rc_max_size rc' = rc_max_size rc"
proof (rule read_exact_cases [of 32 src])
  fix k src1 assume 1: "read_exact 32 src = Inr (k, src1)" "snd src1 = snd src"
  show ?thesis
  proof (rule read_exact_cases [of 4 src1])
    fix l src2 assume 2: "read_exact 4 src1 = Inr (l, src2)" "snd src2 = snd src1"
    show ?thesis
    proof (rule read_exact_cases [of "unat (from_le l :: u32)" src2])
      fix v src3 assume 3: "read_exact (unat (from_le l :: u32)) src2 = Inr (v, src3)" "snd src3 = snd src2"
      obtain rc' where "rc_insert lm (H v) v rc = Inr rc'" "holds_addressed H rc'" "rc_max_size rc' = rc_max_size rc"
        using rc_insert_addressed [OF assms] by metis
      with 1 2 3 assms show ?thesis by (cases "k = H v") (simp_all add: read_entry_def Let_def)
    qed (use 1 2 in \<open>simp add: read_entry_def Let_def\<close>)
  qed (use 1 in \<open>simp add: read_entry_def\<close>)
qed (simp add: read_entry_def)

lemma read_entries_safe:
  assumes "holds_addressed H rc"
  shows "case read_entries lm H n src rc of
      Inl e \<Rightarrow> e = snd src \<or> e = Anyhow ''Chunk length too large''
    | Inr rc' \<Rightarrow> holds_addressed H rc' \<and> rc_max_size rc' = rc_max_size rc"
  using assms
proof (induction n arbitrary: src rc)
  case 0
  then show ?case by simp
next
  case (Suc n)
  show ?case
  proof (cases "read_entry lm H src rc")
    case (Inl e)
    with read_entry_safe [OF Suc.prems, of src] show ?thesis by simp
  next
    case (Inr r)
    obtain src' rc' where r: "r = (src', rc')" by fastforce
    with Inr read_entry_safe [OF Suc.prems, of src] have "snd src' = snd src" "holds_addressed H rc'" "rc_max_size rc' = rc_max_size rc"
      by auto
    with Suc.IH [OF this(2), of src'] Inr r show ?thesis by (simp split: sum.splits)
  qed
qed

lemma read_entries_written:
  assumes "write_entries xs = Inr b" "holds_addressed H rc" "hash32 H"
    "\<forall>x \<in> set xs. fst x = H (snd x) \<and> length (snd x) \<le> 20000000" "distinct (map fst (entries rc @ xs))"
    "sizes (entries rc @ xs) \<le> unat (rc_max_size rc)"
  shows "\<exists>rc'. read_entries lm H (length xs) (b, e) rc = Inr rc' \<and> entries rc' = entries rc @ xs \<and>
    rc_ok rc' \<and> rc_max_size rc' = rc_max_size rc"
  using assms
proof (induction xs arbitrary: b rc)
  case Nil
  then show ?case by (auto simp: holds_addressed_def)
next
  case (Cons x xs)
  obtain v where x: "x = (H v, v)" and v: "length v \<le> 20000000" using Cons.prems(4) by (cases x) auto
  from Cons.prems(1) obtain b' where b: "b = H v @ to_le 4 (of_nat (length v) :: u32) @ v @ b'" "write_entries xs = Inr b'"
    using x by (auto simp: and_then_Inr_iff split: if_splits)
  have "H v \<notin> fst ` set (entries rc)" using Cons.prems(5) by (simp add: x)
  then have wo: "without (H v) (entries rc) = entries rc" by (rule without_notin)
  obtain rc1 where rc1: "rc_insert lm (H v) v rc = Inr rc1" "rc_max_size rc1 = rc_max_size rc" "entries rc1 = entries rc @ [(H v, v)]" "rc_ok rc1"
    using rc_insert_fits [of rc "H v" v] Cons.prems(2,6) by (auto simp: wo holds_addressed_def x)
  have l: "unat (of_nat (length v) :: u32) = length v" using v by (simp add: unat_of_nat take_bit_nat_eq_self)
  have "read_entry lm H (b, e) rc = Inr ((b', e), rc1)"
    using Cons.prems(3) v rc1(1)
    by (simp add: read_entry_def read_exact_def b hash32_def OUT_LEN_def Let_def from_le_to_le l word_less_nat_alt)
  moreover have "holds_addressed H rc1" using Cons.prems(2) rc1 by (auto simp: holds_addressed_def)
  ultimately show ?case
    using Cons.IH [OF b(2), of rc1] Cons.prems(3-6) rc1 by (auto simp: x)
qed

end

section \<open>Properties\<close>

lemma unat_total:
  assumes "cache_ok lm rc" "sizes (cache_entries lm rc) < 2 ^ 64"
  shows "unat (rc_total_size rc) = sizes (cache_entries lm rc)" "sizes (cache_entries lm rc) \<le> unat (rc_max_size rc)"
proof -
  show "unat (rc_total_size rc) = sizes (cache_entries lm rc)"
    using assms by (simp add: cache_ok_def unat_of_nat)
  with assms(1) show "sizes (cache_entries lm rc) \<le> unat (rc_max_size rc)"
    by (metis cache_ok_def word_le_nat_alt)
qed

text \<open>
  C30. The cache is a bounded least-recently-used cache: inserting a chunk never panics, puts it
  last, and drops from the front exactly the entries that have to go for the rest to fit
  within \<^verbatim>\<open>max_size\<close>; the accounted size stays the size of what is held.
\<close>

theorem rc_insert_lru:
  assumes "hashlink lm" "cache_ok lm rc" "xs = without key (cache_entries lm rc) @ [(key, chunk)]" "sizes xs < 2 ^ 64"
  shows "\<exists>rc' d. rc_insert lm key chunk rc = Inr rc' \<and> cache_entries lm rc' = drop d xs \<and>
    unat (rc_total_size rc') = sizes (drop d xs) \<and> sizes (drop d xs) \<le> unat (rc_max_size rc) \<and>
    (\<forall>i < d. unat (rc_max_size rc) < sizes (drop i xs))"
proof -
  obtain rc' d where rc': "rc_insert lm key chunk rc = Inr rc'" "cache_ok lm rc'" "rc_max_size rc' = rc_max_size rc"
    "cache_entries lm rc' = drop d xs" "\<forall>i < d. rc_max_size rc < of_nat (sizes (drop i xs))"
    using hashlink.rc_insert_ok [OF assms(1,2)] unfolding assms(3) by blast
  have small: "sizes (drop i xs) < 2 ^ 64" for i using sizes_drop [of i xs] assms(4) by simp
  have "unat (rc_max_size rc) < sizes (drop i xs)" if "i < d" for i
    using rc'(5) [rule_format, OF that] small [of i] by (simp add: word_less_nat_alt unat_of_nat)
  with rc' unat_total [OF rc'(2)] small [of d] show ?thesis by auto
qed

theorem rc_insert_lru_witness:
  "\<exists>rc' d. rc_insert alist_map [7] [1, 2, 3] (rc_new alist_map 2) = Inr rc' \<and>
    cache_entries alist_map rc' = drop d [([7], [1, 2, 3])] \<and> sizes (drop d [([7], [1, 2, 3])]) \<le> 2"
  using rc_insert_lru [OF am.hashlink_axioms am.rc_new_ok(1) refl, of "[7]" 2 "[1, 2, 3]"]
  by (auto simp: am.rc_new_ok without_def)

text \<open>
  C31. Loading the cache file is safe on any input: whatever bytes the file holds, the load ends
  with an error that is not a panic, or with a cache that satisfies its invariant and in
  which every chunk is stored under its own hash.
\<close>

theorem load_from_file_safe:
  assumes "hashlink lm" "\<forall>b. \<not> is_panic (snd (zstd_decode b))"
  shows "case load_from_file lm H zstd_decode max_size cache_file of
      Inl e \<Rightarrow> \<not> is_panic e
    | Inr cc \<Rightarrow> shared_ok lm cc \<and> rc_max_size (cc_raw cc) = max_size \<and>
        list_all (\<lambda>(k, b). k = H b) (cache_entries lm (cc_raw cc))"
proof -
  note new = hashlink.rc_new_ok [OF assms(1)] and def = hashlink.holds_addressed_def [OF assms(1)]
  have new_ok: "hashlink.holds_addressed lm H (rc_new lm max_size)" by (simp add: def new)
  show ?thesis
  proof (cases cache_file)
    case None
    with new show ?thesis by (simp add: load_from_file_def shared_ok_def)
  next
    case (Some b)
    have "case read_chunk_cache lm H zstd_decode b (rc_new lm max_size) of
        Inl e \<Rightarrow> \<not> is_panic e
      | Inr rc \<Rightarrow> hashlink.holds_addressed lm H rc \<and> rc_max_size rc = max_size"
    proof (rule read_exact_cases [of 4 "zstd_decode b"])
      fix x src assume src: "read_exact 4 (zstd_decode b) = Inr (x, src)" "snd src = snd (zstd_decode b)"
      from hashlink.read_entries_safe [OF assms(1) new_ok, where n = "unat (from_le x :: u32)" and src = src]
      show ?thesis using src assms(2) new(3)
        by (auto simp: read_chunk_cache_def split: sum.splits)
    qed (use assms(2) in \<open>simp add: read_chunk_cache_def\<close>)
    with Some show ?thesis
      by (auto simp: load_from_file_def shared_ok_def def list_all_iff split: sum.splits)
  qed
qed

theorem load_from_file_safe_witness:
  "\<exists>e. load_from_file alist_map pad_hash (\<lambda>b. (b, UnexpectedEof)) 100 (Some [1, 0, 0, 0, 9]) = Inl e \<and> \<not> is_panic e"
  using load_from_file_safe [OF am.hashlink_axioms, where zstd_decode = "\<lambda>b. (b, UnexpectedEof)" and H = pad_hash and max_size = 100 and cache_file = "Some [1, 0, 0, 0, 9]"]
  by (simp add: load_from_file_def read_chunk_cache_def read_exact_def from_le.simps read_entry_def)

text \<open>
  Saving and loading give the cache back: after a successful save the dirty flag is clear and
  loading the written file yields a cache with the same chunks in the same order, with
  the same size and bound.
\<close>

lemma save_load_roundtrip:
  assumes "hashlink lm" "hash32 H" "shared_ok lm cc" "cc_needs_saving cc"
    "\<forall>(k, b) \<in> set (cache_entries lm (cc_raw cc)). k = H b \<and> length b \<le> 20000000"
    "length (cache_entries lm (cc_raw cc)) < 2 ^ 32" "sizes (cache_entries lm (cc_raw cc)) < 2 ^ 64"
    "\<forall>b. zstd_decode (zstd_encode b) = (b, UnexpectedEof)" "\<forall>b. disk b = Inr ()"
  shows "\<exists>written cc1 cc2. try_save lm zstd_encode disk cc old = (Inr (), cc1, Some written) \<and> \<not> cc_needs_saving cc1 \<and>
    load_from_file lm H zstd_decode (rc_max_size (cc_raw cc)) (Some written) = Inr cc2 \<and>
    cache_entries lm (cc_raw cc2) = cache_entries lm (cc_raw cc) \<and>
    rc_total_size (cc_raw cc2) = rc_total_size (cc_raw cc) \<and> rc_max_size (cc_raw cc2) = rc_max_size (cc_raw cc)"
proof -
  let ?xs = "cache_entries lm (cc_raw cc)" and ?max = "rc_max_size (cc_raw cc)"
  note new = hashlink.rc_new_ok [OF assms(1)]
  have ok: "cache_ok lm (cc_raw cc)" "\<not> cc_poisoned cc" using assms(3) by (simp_all add: shared_ok_def)
  have xs: "\<forall>x \<in> set ?xs. fst x = H (snd x) \<and> length (snd x) \<le> 20000000" using assms(5) by auto
  obtain b where b: "write_entries ?xs = Inr b" using write_entries_ok [OF xs] by blast
  have len: "rc_len lm (cc_raw cc) = length ?xs"
    by (simp add: rc_len_def cache_entries_def hashlink.lm_len [OF assms(1)])
  define written where "written = zstd_encode (to_le 4 (of_nat (length ?xs) :: u32) @ b)"
  have wr: "write_chunk_cache lm zstd_encode (cc_raw cc) = Inr written"
    using assms(6) b by (simp add: write_chunk_cache_def len written_def) (simp add: cache_entries_def)
  have save: "try_save lm zstd_encode disk cc old = (Inr (), cc\<lparr> cc_needs_saving := False \<rparr>, Some written)"
    using ok(2) assms(4,9) wr by (simp add: try_save_def save_snapshot_def with_lock_def)
  have holds: "hashlink.holds_addressed lm H (rc_new lm ?max)"
    by (simp add: hashlink.holds_addressed_def [OF assms(1)] new)
  obtain rc where rc: "read_entries lm H (length ?xs) (b, UnexpectedEof) (rc_new lm ?max) = Inr rc"
    "cache_entries lm rc = ?xs" "cache_ok lm rc" "rc_max_size rc = ?max"
    using hashlink.read_entries_written [OF assms(1) b holds assms(2) xs] unat_total [OF ok(1) assms(7)]
      hashlink.distinct_entries [OF assms(1)] by (auto simp: new)
  have "unat (of_nat (length ?xs) :: u32) = length ?xs" using assms(6) by (simp add: unat_of_nat)
  with rc(1) have "read_chunk_cache lm H zstd_decode written (rc_new lm ?max) = Inr rc"
    by (simp add: read_chunk_cache_def written_def assms(8) read_exact_def from_le_to_le)
  then have load: "load_from_file lm H zstd_decode ?max (Some written) =
      Inr \<lparr> cc_raw = rc, cc_pending = Map.empty, cc_needs_saving = False, cc_closed = [], cc_poisoned = False \<rparr>"
    by (simp add: load_from_file_def)
  from ok(1) rc(2,3) have "rc_total_size rc = rc_total_size (cc_raw cc)" by (metis cache_ok_def)
  with save load rc(2,4) show ?thesis by (intro exI [of _ written] exI conjI) (assumption | simp)+
qed

text \<open>
  C39. A failed save is not retried: the flag that marks unsaved chunks is cleared before the file
  is written, so when writing fails the file keeps its old content, the error is reported
  once, and the next call of \<^verbatim>\<open>try_save\<close> returns successfully without writing anything.
\<close>

theorem failed_save_not_retried:
  assumes "\<not> cc_poisoned cc" "cc_needs_saving cc" "write_chunk_cache lm zstd_encode (cc_raw cc) = Inr data" "disk data = Inl e"
  shows "\<exists>cc'. try_save lm zstd_encode disk cc saved = (Inl e, cc', saved) \<and> cc_raw cc' = cc_raw cc \<and>
    (\<forall>disk'. try_save lm zstd_encode disk' cc' saved = (Inr (), cc', saved))"
  using assms by (simp add: try_save_def save_snapshot_def with_lock_def)

theorem failed_save_not_retried_witness:
  "\<exists>cc'. try_save alist_map id (\<lambda>_. Inl (Anyhow ''No space left on device'')) ((cc_new alist_map 100)\<lparr> cc_needs_saving := True \<rparr>) None =
      (Inl (Anyhow ''No space left on device''), cc', None) \<and> (\<forall>disk'. try_save alist_map id disk' cc' None = (Inr (), cc', None))"
proof -
  have "cache_entries alist_map (rc_new alist_map 100) = []" "rc_len alist_map (rc_new alist_map 100) = 0"
    by (simp_all add: am.rc_new_ok rc_len_def am.lm_len am.lm_new) (simp add: rc_new_def am.lm_new)
  then have "write_chunk_cache alist_map id (rc_new alist_map 100) = Inr (to_le 4 (0 :: u32))"
    by (simp add: write_chunk_cache_def cache_entries_def)
  from failed_save_not_retried [of "(cc_new alist_map 100)\<lparr> cc_needs_saving := True \<rparr>" alist_map id "to_le 4 (0 :: u32)"
      "\<lambda>_. Inl (Anyhow ''No space left on device'')" _ None] this
  show ?thesis by (simp add: cc_new_def) blast
qed

end
