(* ===== verification/Cache_Tasks.thy ===== *)
theory Cache_Tasks
  imports Chunk_Cache
begin

text \<open>
  The tasks that share one chunk cache. Every connection of the client runs a task that calls
  \<^verbatim>\<open>fetch_chunk_batch\<close> (\<^verbatim>\<open>common/src/protocol_utils.rs\<close>) in a loop; the calls of all tasks
  interleave at the \<^verbatim>\<open>await\<close> points. One step of \<open>cache_step\<close> is what one task does between two
  such points: enter \<^verbatim>\<open>get_chunks_batched\<close>, fulfil the batch it fetched, lose it to an error,
  or wake up after waiting for the batches of other tasks.

  The parameters of the step relation: the ordered map, the batch size, the hash, the set \<open>S\<close> of
  chunks a peer may send, and whether a fetch may fail.
\<close>

section \<open>Definitions\<close>

datatype task =
    Idle "chunk_key list" chunk_store
  | Fetching "chunk_key list" chunk_store batch_request
  | Waiting "chunk_key list" "(chunk_key \<times> event) list" chunk_store
  | Failed error

type_synonym 'm sys = "'m chunk_cache \<times> task list"

definition entered :: "(batch_outcome \<times> chunk_key list \<times> chunk_store) res \<Rightarrow> task" where
  "entered r =
     (case r of
        Inl e \<Rightarrow> Failed e
      | Inr (Batch br, kept, out) \<Rightarrow> Fetching kept out br
      | Inr (Wait ws, kept, out) \<Rightarrow> Waiting kept ws out
      | Inr (NoBatch, kept, out) \<Rightarrow> Idle kept out)"

definition fulfilled :: "chunk_key list \<Rightarrow> chunk_store \<Rightarrow> (chunk_key \<times> bytes) list \<Rightarrow> unit res \<Rightarrow> task" where
  "fulfilled ks out xs r =
     (case r of Inl e \<Rightarrow> Failed e | Inr _ \<Rightarrow> Idle ks (foldl (\<lambda>m (k, c). store_insert k c m) out xs))"

definition woken :: "chunk_key list \<Rightarrow> chunk_store res \<Rightarrow> task" where
  "woken ks r = (case r of Inl e \<Rightarrow> Failed e | Inr out \<Rightarrow> Idle ks out)"

inductive cache_step :: "'m linked_map \<Rightarrow> nat \<Rightarrow> hash_fun \<Rightarrow> bytes set \<Rightarrow> bool \<Rightarrow> 'm sys \<Rightarrow> 'm sys \<Rightarrow> bool"
  for lm :: "'m linked_map" and n :: nat and H :: hash_fun and S :: "bytes set" and drops :: bool where
  request: "i < length ts \<Longrightarrow> ts ! i = Idle ks out \<Longrightarrow>
     cache_step lm n H S drops (cc, ts) (cc, ts[i := Idle (ks @ new_keys) out])"
| enter: "i < length ts \<Longrightarrow> ts ! i = Idle ks out \<Longrightarrow> get_chunks_batched lm ks out n cc = (r, cc') \<Longrightarrow>
     cache_step lm n H S drops (cc, ts) (cc', ts[i := entered r])"
| fulfil: "i < length ts \<Longrightarrow> ts ! i = Fetching ks out br \<Longrightarrow> length chunks = length (br_keys br) \<Longrightarrow>
     list_all2 (\<lambda>k c. H c = k) (br_keys br) chunks \<Longrightarrow> set chunks \<subseteq> S \<Longrightarrow> fulfill lm br chunks cc = (r, cc') \<Longrightarrow>
     cache_step lm n H S drops (cc, ts) (cc', ts[i := fulfilled ks out (zip (br_keys br) chunks) r])"
| drop_batch: "drops \<Longrightarrow> i < length ts \<Longrightarrow> ts ! i = Fetching ks out br \<Longrightarrow>
     cache_step lm n H S drops (cc, ts) (cc, ts[i := Failed e])"
| wake: "i < length ts \<Longrightarrow> ts ! i = Waiting ks ws out \<Longrightarrow> all_closed ws cc \<Longrightarrow> get_chunks_waited lm ws out cc = (r, cc') \<Longrightarrow>
     cache_step lm n H S drops (cc, ts) (cc', ts[i := woken ks r])"

definition cache_reach :: "'m linked_map \<Rightarrow> nat \<Rightarrow> hash_fun \<Rightarrow> bytes set \<Rightarrow> bool \<Rightarrow> 'm sys \<Rightarrow> 'm sys \<Rightarrow> bool" where
  "cache_reach lm n H S drops = (cache_step lm n H S drops)\<^sup>*\<^sup>*"

text \<open>The start: a cache nobody uses yet, and tasks without anything in flight.\<close>

definition idle_task :: "task \<Rightarrow> bool" where
  "idle_task t = (case t of Idle _ _ \<Rightarrow> True | _ \<Rightarrow> False)"

definition sys_init :: "'m linked_map \<Rightarrow> 'm sys \<Rightarrow> bool" where
  "sys_init lm s = (case s of (cc, ts) \<Rightarrow> (\<exists>max_size. cc = cc_new lm max_size) \<and> list_all idle_task ts)"

section \<open>The invariant\<close>

definition task_ok :: "'m chunk_cache \<Rightarrow> task \<Rightarrow> bool" where
  "task_ok cc t =
     (case t of
        Fetching ks out br \<Rightarrow> br_event br < length (cc_closed cc) \<and> \<not> cc_closed cc ! br_event br \<and> br_keys br \<noteq> [] \<and>
          distinct (br_keys br) \<and> (\<forall>k. cc_pending cc k = Some (br_event br) \<longleftrightarrow> k \<in> set (br_keys br))
      | Waiting ks ws out \<Rightarrow> (\<forall>(k, e) \<in> set ws. e < length (cc_closed cc) \<and> (cc_closed cc ! e \<or> cc_pending cc k = Some e))
      | _ \<Rightarrow> True)"

definition fetch_event :: "task \<Rightarrow> event option" where
  "fetch_event t = (case t of Fetching _ _ br \<Rightarrow> Some (br_event br) | _ \<Rightarrow> None)"

definition sys_ok :: "'m linked_map \<Rightarrow> 'm sys \<Rightarrow> bool" where
  "sys_ok lm s = (case s of (cc, ts) \<Rightarrow>
     shared_ok lm (cc\<lparr> cc_poisoned := False \<rparr>) \<and> (\<forall>t \<in> set ts. task_ok cc t) \<and>
     (\<forall>i < length ts. \<forall>j < length ts. i \<noteq> j \<longrightarrow> fetch_event (ts ! i) \<noteq> None \<longrightarrow> fetch_event (ts ! i) \<noteq> fetch_event (ts ! j)))"

lemma task_simps [simp]:
  "task_ok cc (Idle ks out)" "task_ok cc (Failed e)" "fetch_event (Idle ks out) = None" "fetch_event (Failed e) = None"
  "fetch_event (Waiting ks ws out) = None" "fetch_event (Fetching ks out br) = Some (br_event br)"
  by (simp_all add: task_ok_def fetch_event_def)

lemma sys_ok_update:
  assumes "sys_ok lm (cc, ts)" "i < length ts" "shared_ok lm (cc'\<lparr> cc_poisoned := False \<rparr>)" "task_ok cc' t"
    "\<And>j. j < length ts \<Longrightarrow> j \<noteq> i \<Longrightarrow> task_ok cc (ts ! j) \<Longrightarrow> task_ok cc' (ts ! j)"
    "\<And>j. j < length ts \<Longrightarrow> j \<noteq> i \<Longrightarrow> fetch_event t \<noteq> None \<Longrightarrow> fetch_event (ts ! j) \<noteq> fetch_event t"
  shows "sys_ok lm (cc', ts[i := t])"
proof -
  have "task_ok cc' u" if "u \<in> set (ts[i := t])" for u
  proof -
    from that obtain j where "j < length ts" "u = ts[i := t] ! j" by (auto simp: in_set_conv_nth)
    with assms(1,4,5) show ?thesis by (cases "j = i") (auto simp: sys_ok_def)
  qed
  moreover have "fetch_event (ts[i := t] ! j) \<noteq> fetch_event (ts[i := t] ! l)"
    if "j < length ts" "l < length ts" "j \<noteq> l" "fetch_event (ts[i := t] ! j) \<noteq> None" for j l
    using that assms(1,2) assms(6) [of j] assms(6) [of l] by (auto simp: sys_ok_def nth_list_update split: if_splits)
  ultimately show ?thesis using assms(3) by (simp add: sys_ok_def)
qed

lemma task_ok_same: "cc_closed cc' = cc_closed cc \<Longrightarrow> cc_pending cc' = cc_pending cc \<Longrightarrow> task_ok cc' t = task_ok cc t"
  by (simp add: task_ok_def split: task.splits)

text \<open>A step that leaves the bookkeeping alone.\<close>

lemma sys_ok_quiet:
  assumes "sys_ok lm (cc, ts)" "i < length ts" "cc_closed cc' = cc_closed cc" "cc_pending cc' = cc_pending cc"
    "cache_ok lm (cc_raw cc')" "cached_in lm (cc_raw cc') = cached_in lm (cc_raw cc)" "task_ok cc t" "fetch_event t = None"
  shows "sys_ok lm (cc', ts[i := t])"
proof (rule sys_ok_update [OF assms(1,2)])
  show "shared_ok lm (cc'\<lparr> cc_poisoned := False \<rparr>)" using assms by (simp add: sys_ok_def shared_ok_def)
qed (use assms(7,8) in \<open>simp_all add: task_ok_same [OF assms(3,4)]\<close>)

context hashlink
begin

lemma collect_waited_state:
  "collect_waited lm ws rc out = Inr (rc', out') \<Longrightarrow> rc_ok rc \<Longrightarrow>
     rc_ok rc' \<and> cached rc' = cached rc \<and> rc_max_size rc' = rc_max_size rc \<and>
     (\<exists>new. out' = new @ out \<and> (\<forall>(k, b) \<in> set new. cached rc k = Some b) \<and> fst ` set ws \<subseteq> fst ` set new)"
proof (induction ws arbitrary: rc out)
  case Nil
  then show ?case by auto
next
  case (Cons x ws)
  obtain rc1 where g: "rc_get lm (fst x) rc = (cached rc (fst x), rc1)" "cached rc1 = cached rc"
    "rc_max_size rc1 = rc_max_size rc" "rc_ok rc \<Longrightarrow> rc_ok rc1"
    by (rule rc_get_cases [of "fst x" rc]) blast
  with Cons.prems obtain b where b: "cached rc (fst x) = Some b" "collect_waited lm ws rc1 (store_insert (fst x) b out) = Inr (rc', out')"
    by (auto split: option.splits)
  from Cons.IH [OF b(2) g(4) [OF Cons.prems(2)]] g obtain new where
    "out' = new @ (fst x, b) # out" "\<forall>(k, b) \<in> set new. cached rc k = Some b" "fst ` set ws \<subseteq> fst ` set new"
    "rc_ok rc'" "cached rc' = cached rc" "rc_max_size rc' = rc_max_size rc"
    by (auto simp: store_insert_def)
  with b(1) show ?case by (intro conjI exI [of _ "new @ [(fst x, b)]"]) auto
qed

lemma collect_waited_ok:
  "rc_ok rc \<Longrightarrow> \<forall>(k, e) \<in> set ws. cached rc k \<noteq> None \<Longrightarrow> \<exists>rc' out'. collect_waited lm ws rc out = Inr (rc', out')"
proof (induction ws arbitrary: rc out)
  case Nil
  then show ?case by simp
next
  case (Cons x ws)
  obtain rc1 where g: "rc_get lm (fst x) rc = (cached rc (fst x), rc1)" "cached rc1 = cached rc" "rc_ok rc \<Longrightarrow> rc_ok rc1"
    by (rule rc_get_cases [of "fst x" rc]) blast
  from Cons.prems(2) obtain b where "cached rc (fst x) = Some b" by (cases x) auto
  with g Cons.IH [of rc1] Cons.prems show ?case by auto
qed

lemma waited_quiet:
  assumes "get_chunks_waited lm ws out cc = (r, cc')" "rc_ok (cc_raw cc)"
  shows "cc_closed cc' = cc_closed cc" "cc_pending cc' = cc_pending cc" "rc_ok (cc_raw cc')"
    "cached (cc_raw cc') = cached (cc_raw cc)" "rc_max_size (cc_raw cc') = rc_max_size (cc_raw cc)"
  using assms collect_waited_state [OF _ assms(2), of ws out]
  by (auto simp: get_chunks_waited_def with_lock_def and_then_Inr_iff and_then_Inl_iff split: if_splits sum.splits)

lemma sys_ok_cc: "sys_ok lm (cc, ts) \<Longrightarrow> \<not> cc_poisoned cc \<Longrightarrow> cc_ok cc" "sys_ok lm (cc, ts) \<Longrightarrow> rc_ok (cc_raw cc)"
  by (simp_all add: sys_ok_def shared_ok_def)

lemma pending_open:
  "sys_ok lm (cc, ts) \<Longrightarrow> cc_pending cc k = Some e \<Longrightarrow> e < length (cc_closed cc) \<and> \<not> cc_closed cc ! e"
  by (simp add: sys_ok_def shared_ok_def)

lemma fetching_ok:
  assumes "sys_ok lm (cc, ts)" "i < length ts" "ts ! i = Fetching ks out br"
  shows "br_event br < length (cc_closed cc)" "\<not> cc_closed cc ! br_event br" "br_keys br \<noteq> []"
    "\<And>k. cc_pending cc k = Some (br_event br) \<longleftrightarrow> k \<in> set (br_keys br)" "distinct (br_keys br)"
proof -
  from assms have "task_ok cc (Fetching ks out br)" by (auto simp: sys_ok_def dest!: nth_mem)
  then show "br_event br < length (cc_closed cc)" "\<not> cc_closed cc ! br_event br" "br_keys br \<noteq> []"
    "\<And>k. cc_pending cc k = Some (br_event br) \<longleftrightarrow> k \<in> set (br_keys br)" "distinct (br_keys br)"
    by (simp_all add: task_ok_def)
qed

lemma waiting_ok:
  assumes "sys_ok lm (cc, ts)" "i < length ts" "ts ! i = Waiting ks ws out" "(k, e) \<in> set ws"
  shows "e < length (cc_closed cc)" "cc_closed cc ! e \<or> cc_pending cc k = Some e"
proof -
  from assms have "task_ok cc (Waiting ks ws out)" by (auto simp: sys_ok_def dest!: nth_mem)
  then show "e < length (cc_closed cc)" "cc_closed cc ! e \<or> cc_pending cc k = Some e"
    using assms(4) by (auto simp: task_ok_def)
qed

lemma events_distinct:
  "sys_ok lm (cc, ts) \<Longrightarrow> i < length ts \<Longrightarrow> j < length ts \<Longrightarrow> i \<noteq> j \<Longrightarrow> fetch_event (ts ! i) = Some e \<Longrightarrow>
     fetch_event (ts ! j) \<noteq> Some e"
proof -
  assume a: "sys_ok lm (cc, ts)" "i < length ts" "j < length ts" "i \<noteq> j" "fetch_event (ts ! i) = Some e"
  from a(1) have "\<forall>i < length ts. \<forall>j < length ts. i \<noteq> j \<longrightarrow> fetch_event (ts ! i) \<noteq> None \<longrightarrow>
      fetch_event (ts ! i) \<noteq> fetch_event (ts ! j)"
    unfolding sys_ok_def prod.case by (elim conjE)
  with a(2-5) show "fetch_event (ts ! j) \<noteq> Some e" by (metis option.distinct(1))
qed

text \<open>A new batch: its keys, which were neither cached nor pending, become pending on a new event.\<close>

lemma enter_batch:
  assumes ok: "sys_ok lm (cc, ts)" and i: "i < length ts" and live: "\<not> cc_poisoned cc"
    and rc: "rc_ok (cc_raw cc')" "cached (cc_raw cc') = cached (cc_raw cc)"
    and br: "br_event br = length (cc_closed cc)" "br_keys br \<noteq> []" "distinct (br_keys br)"
      "\<forall>k \<in> set (br_keys br). cached (cc_raw cc) k = None \<and> cc_pending cc k = None"
    and cc': "cc_closed cc' = cc_closed cc @ [False]"
      "cc_pending cc' = cc_pending cc ++ (\<lambda>k. if k \<in> set (br_keys br) then Some (br_event br) else None)"
  shows "sys_ok lm (cc', ts[i := Fetching kept out br])"
proof -
  have pend: "cc_pending cc' k = (if k \<in> set (br_keys br) then Some (length (cc_closed cc)) else cc_pending cc k)" for k
    by (simp add: cc' br(1) map_add_def)
  have fresh: "cc_pending cc k \<noteq> Some (length (cc_closed cc))" for k using pending_open [OF ok, of k] by auto
  have "e < length (cc_closed cc') \<and> \<not> cc_closed cc' ! e \<and> cached (cc_raw cc') k = None" if "cc_pending cc' k = Some e" for k e
  proof (cases "k \<in> set (br_keys br)")
    case True
    with that rc(2) br(1,4) show ?thesis by (auto simp: cc' pend [unfolded cc'])
  next
    case False
    with that have "cc_pending cc k = Some e" by (simp add: pend)
    with sys_ok_cc(1) [OF ok live] rc(2) show ?thesis
      by (auto simp: cc' shared_ok_def nth_append less_Suc_eq)
  qed
  then have shared: "shared_ok lm (cc'\<lparr> cc_poisoned := False \<rparr>)" using rc(1) by (simp add: shared_ok_def)
  show ?thesis
  proof (rule sys_ok_update [OF ok i shared])
    show "task_ok cc' (Fetching kept out br)"
      using br(1-3) fresh by (simp add: task_ok_def pend cc'(1) nth_append)
  next
    fix j assume tj: "task_ok cc (ts ! j)"
    have old: "cc_pending cc' k = Some e \<longleftrightarrow> cc_pending cc k = Some e" if "e < length (cc_closed cc)" for k e
      using that br(4) by (auto simp: pend)
    show "task_ok cc' (ts ! j)"
    proof (cases "ts ! j")
      case (Fetching ks' out' br')
      with tj old show ?thesis by (simp add: task_ok_def cc'(1) nth_append)
    next
      case (Waiting ks' ws' out')
      with tj old show ?thesis by (fastforce simp: task_ok_def cc'(1) nth_append)
    qed simp_all
  next
    fix j assume "j < length ts"
    then show "fetch_event (ts ! j) \<noteq> fetch_event (Fetching kept out br)"
      using fetching_ok(1) [OF ok, of j] br(1) by (auto simp: fetch_event_def split: task.splits)
  qed
qed

lemma enter_ok:
  assumes ok: "sys_ok lm (cc, ts)" and i: "i < length ts" and n: "0 < n" and g: "get_chunks_batched lm ks out n cc = (r, cc')"
  shows "sys_ok lm (cc', ts[i := entered r])"
proof (cases "cc_poisoned cc")
  case True
  with g have "cc' = cc" "entered r = Failed (Panic ''PoisonError'')"
    by (auto simp: get_chunks_batched_def with_lock_def entered_def)
  with sys_ok_quiet [OF ok i, of cc] sys_ok_cc(2) [OF ok] show ?thesis by simp
next
  case False
  show ?thesis
  proof (cases rule: get_chunks_batched_cases [OF sys_ok_cc(1) [OF ok False] n, of ks out, case_names batch waiting])
    case (waiting new ws rc)
    with g have r: "cc' = cc\<lparr> cc_raw := rc \<rparr>" "entered r = (if ws = [] then Idle [] (new @ out) else Waiting [] ws (new @ out))"
      by (auto simp: entered_def)
    have "task_ok cc (Waiting [] ws (new @ out))"
      using waiting(5) pending_open [OF ok] by (fastforce simp: task_ok_def)
    with sys_ok_quiet [OF ok i, of cc' "entered r"] waiting(2,3) show ?thesis by (simp add: r)
  next
    case (batch kept new br rc)
    with g have "entered r = Fetching kept (new @ out) br" "cc_raw cc' = rc" "cc_closed cc' = cc_closed cc @ [False]"
      "cc_pending cc' = cc_pending cc ++ (\<lambda>k. if k \<in> set (br_keys br) then Some (br_event br) else None)"
      by (auto simp: entered_def)
    with enter_batch [OF ok i False, of cc' br] batch(2,3,5-7,9) show ?thesis by simp
  qed
qed

lemma fulfil_ok:
  assumes ok: "sys_ok lm (cc, ts)" and i: "i < length ts" and t: "ts ! i = Fetching ks out br"
    and len: "length chunks = length (br_keys br)" and f: "fulfill lm br chunks cc = (r, cc')"
  shows "sys_ok lm (cc', ts[i := fulfilled ks out (zip (br_keys br) chunks) r])"
proof (cases "cc_poisoned cc")
  case True
  with f len have "cc' = cc" "fulfilled ks out (zip (br_keys br) chunks) r = Failed (Panic ''PoisonError'')"
    by (auto simp: fulfill_def with_lock_def fulfilled_def)
  with sys_ok_quiet [OF ok i, of cc] sys_ok_cc(2) [OF ok] show ?thesis by simp
next
  case False
  note br = fetching_ok [OF ok i t]
  obtain rc where rc: "fulfill lm br chunks cc = (Inr (), cc\<lparr> cc_raw := rc, cc_pending := cc_pending cc |` (- set (br_keys br)),
      cc_closed := (cc_closed cc)[br_event br := True] \<rparr>)" "cc_ok (snd (fulfill lm br chunks cc))"
    using fulfill_spec [OF sys_ok_cc(1) [OF ok False] len br(1)] br(4) by metis
  with f have cc': "cc_closed cc' = (cc_closed cc)[br_event br := True]" "cc_pending cc' = cc_pending cc |` (- set (br_keys br))"
    "cc_ok cc'" "r = Inr ()" by auto
  show ?thesis
  proof (rule sys_ok_update [OF ok i])
    show "shared_ok lm (cc'\<lparr> cc_poisoned := False \<rparr>)" using cc'(3) by (simp add: shared_ok_def)
  next
    fix j assume j: "j < length ts" "j \<noteq> i" "task_ok cc (ts ! j)"
    have ev: "fetch_event (ts ! j) \<noteq> Some (br_event br)"
      using events_distinct [OF ok i j(1)] j(2) t by auto
    have old: "cc_pending cc' k = Some e \<longleftrightarrow> cc_pending cc k = Some e" if "e \<noteq> br_event br" for k e
      using that br(4) [of k] by (auto simp: cc'(2) restrict_map_def)
    show "task_ok cc' (ts ! j)"
    proof (cases "ts ! j")
      case (Fetching ks' out' br')
      with ev j(3) old [of "br_event br'"] show ?thesis by (simp add: task_ok_def cc'(1))
    next
      case (Waiting ks' ws' out')
      have "cc_closed cc' ! e \<or> cc_pending cc' k = Some e" if "(k, e) \<in> set ws'" for k e
        using Waiting j(3) that br(1) old [of e k] by (cases "e = br_event br") (auto simp: task_ok_def cc'(1))
      with Waiting j(3) show ?thesis by (auto simp: task_ok_def cc'(1))
    qed simp_all
  qed (simp_all add: fulfilled_def cc'(4))
qed

lemma cache_step_ok:
  assumes "cache_step lm n H S drops s s'" "sys_ok lm s" "0 < n"
  shows "sys_ok lm s'"
  using assms
proof (induction rule: cache_step.induct)
  case (request i ts ks out cc new_keys)
  then show ?case by (intro sys_ok_quiet [of lm cc]) (simp_all add: sys_ok_cc)
next
  case (enter i ts ks out cc r cc')
  then show ?case by (intro enter_ok)
next
  case (fulfil i ts ks out br chunks cc r cc')
  then show ?case by (intro fulfil_ok)
next
  case (drop_batch i ts ks out br cc e)
  then show ?case by (intro sys_ok_quiet [of lm cc]) (simp_all add: sys_ok_cc)
next
  case (wake i ts ks ws out cc r cc')
  then show ?case
    using waited_quiet [OF wake.hyps(4)] sys_ok_cc(2)
    by (intro sys_ok_quiet [of lm cc]) (auto simp: woken_def split: sum.split)
qed

lemma sys_init_ok: "sys_init lm s \<Longrightarrow> sys_ok lm s"
proof -
  assume s: "sys_init lm s"
  have idle: "task_ok cc t \<and> fetch_event t = None" if "idle_task t" for t and cc :: "'m chunk_cache"
    using that by (simp add: idle_task_def split: task.splits)
  then have "fetch_event (snd s ! i) = None" if "i < length (snd s)" for i
    using s that by (auto simp: sys_init_def list_all_length)
  with s idle show ?thesis
    by (auto simp: sys_init_def sys_ok_def list_all_iff shared_ok_def cc_new_def rc_new_ok)
qed

lemma cache_reach_ok: "cache_reach lm n H S drops s s' \<Longrightarrow> 0 < n \<Longrightarrow> sys_ok lm s \<Longrightarrow> sys_ok lm s'"
  unfolding cache_reach_def by (induction rule: rtranclp_induct) (auto intro: cache_step_ok)

text \<open>As long as no fetch fails, somebody is fetching every pending chunk.\<close>

definition pending_fetched :: "'m sys \<Rightarrow> bool" where
  "pending_fetched s = (case s of (cc, ts) \<Rightarrow>
     cc_poisoned cc \<or> (\<forall>k e. cc_pending cc k = Some e \<longrightarrow> (\<exists>j < length ts. fetch_event (ts ! j) = Some e)))"

lemma pending_fetched_update:
  assumes "pending_fetched (cc, ts)" "i < length ts" "cc_poisoned cc \<longrightarrow> cc_poisoned cc'"
    "\<And>k e. \<not> cc_poisoned cc' \<Longrightarrow> cc_pending cc' k = Some e \<Longrightarrow> fetch_event t = Some e \<or>
       cc_pending cc k = Some e \<and> fetch_event (ts ! i) \<noteq> Some e"
  shows "pending_fetched (cc', ts[i := t])"
proof -
  have "\<exists>j < length ts. fetch_event (ts[i := t] ! j) = Some e" if "\<not> cc_poisoned cc'" "cc_pending cc' k = Some e" for k e
  proof (cases "fetch_event t = Some e")
    case True
    with assms(2) show ?thesis by (intro exI [of _ i]) simp
  next
    case False
    with assms(4) [OF that] have "cc_pending cc k = Some e" "fetch_event (ts ! i) \<noteq> Some e" by auto
    moreover from this(1) assms(1,3) that(1) obtain j where "j < length ts" "fetch_event (ts ! j) = Some e"
      by (auto simp: pending_fetched_def)
    ultimately show ?thesis by (intro exI [of _ j]) (cases "i = j"; simp)
  qed
  then show ?thesis by (auto simp: pending_fetched_def)
qed

lemma get_chunks_poisoned: "cc_poisoned cc \<Longrightarrow> get_chunks_batched lm ks out n cc = (Inl (Panic ''PoisonError''), cc)"
  "cc_poisoned cc \<Longrightarrow> get_chunks_waited lm ws out cc = (Inl (Panic ''PoisonError''), cc)"
  "cc_poisoned cc \<Longrightarrow> length chunks = length (br_keys br) \<Longrightarrow> fulfill lm br chunks cc = (Inl (Panic ''PoisonError''), cc)"
  by (simp_all add: get_chunks_batched_def get_chunks_waited_def fulfill_def with_lock_def)

lemma fulfil_effect:
  assumes "sys_ok lm (cc, ts)" "i < length ts" "ts ! i = Fetching ks out br" "length chunks = length (br_keys br)"
    "fulfill lm br chunks cc = (r, cc')" "\<not> cc_poisoned cc"
  shows "r = Inr ()" "\<not> cc_poisoned cc'" "cc_pending cc' k = Some e \<longleftrightarrow> cc_pending cc k = Some e \<and> e \<noteq> br_event br"
    "cc_closed cc' = (cc_closed cc)[br_event br := True]"
proof -
  note br = fetching_ok [OF assms(1-3)]
  obtain rc where "fulfill lm br chunks cc = (Inr (), cc\<lparr> cc_raw := rc, cc_pending := cc_pending cc |` (- set (br_keys br)),
      cc_closed := (cc_closed cc)[br_event br := True] \<rparr>)"
    using fulfill_spec [OF sys_ok_cc(1) [OF assms(1,6)] assms(4) br(1)] br(4) by metis
  with assms(5,6) have cc': "r = Inr ()" "cc' = cc\<lparr> cc_raw := rc, cc_pending := cc_pending cc |` (- set (br_keys br)),
      cc_closed := (cc_closed cc)[br_event br := True] \<rparr>" by auto
  then show "r = Inr ()" "\<not> cc_poisoned cc'" "cc_closed cc' = (cc_closed cc)[br_event br := True]" using assms(6) by simp_all
  show "cc_pending cc' k = Some e \<longleftrightarrow> cc_pending cc k = Some e \<and> e \<noteq> br_event br"
    using br(4) [of k] by (auto simp: cc' restrict_map_def)
qed

lemma enter_effect:
  assumes "sys_ok lm (cc, ts)" "\<not> cc_poisoned cc" "0 < n" "get_chunks_batched lm ks out n cc = (r, cc')"
  shows "\<not> cc_poisoned cc'" "cc_pending cc' k = Some e \<Longrightarrow> cc_pending cc k = Some e \<or> fetch_event (entered r) = Some e"
    "cc_pending cc k = Some e \<Longrightarrow> cc_pending cc' k = Some e"
    "e < length (cc_closed cc) \<Longrightarrow> e < length (cc_closed cc') \<and> cc_closed cc' ! e = cc_closed cc ! e"
    "e < length (cc_closed cc) \<Longrightarrow> fetch_event (entered r) \<noteq> Some e" "entered r \<noteq> Failed err"
    "cached (cc_raw cc') = cached (cc_raw cc)" "rc_max_size (cc_raw cc') = rc_max_size (cc_raw cc)"
  using assms(2,4)
  by (cases rule: get_chunks_batched_cases [OF sys_ok_cc(1) [OF assms(1,2)] assms(3), of ks out];
      fastforce simp: entered_def map_add_def nth_append split: if_splits)+

lemma waited_poison: "get_chunks_waited lm ws out cc = (r, cc') \<Longrightarrow> cc_poisoned cc \<Longrightarrow> cc_poisoned cc'"
  by (simp add: get_chunks_poisoned)

lemma pending_fetched_step:
  assumes "cache_step lm n H S False s s'" "sys_ok lm s" "0 < n" "pending_fetched s"
  shows "pending_fetched s'"
  using assms
proof (induction rule: cache_step.induct)
  case (request i ts ks out cc new_keys)
  then show ?case by (intro pending_fetched_update [of cc]) auto
next
  case (enter i ts ks out cc r cc')
  show ?case
  proof (cases "cc_poisoned cc")
    case True
    with enter show ?thesis by (simp add: get_chunks_poisoned pending_fetched_def)
  next
    case False
    with enter enter_effect(1,2) [OF enter.prems(1) False enter.prems(2) enter.hyps(3)] show ?thesis
      by (intro pending_fetched_update [of cc]) auto
  qed
next
  case (fulfil i ts ks out br chunks cc r cc')
  show ?case
  proof (cases "cc_poisoned cc")
    case True
    with fulfil show ?thesis by (auto simp: get_chunks_poisoned pending_fetched_def)
  next
    case False
    with fulfil fulfil_effect(2,3) [OF fulfil.prems(1) fulfil.hyps(1-3,6) False] show ?thesis
      by (intro pending_fetched_update [of cc]) auto
  qed
next
  case (wake i ts ks ws out cc r cc')
  with waited_quiet(2) [OF wake.hyps(4)] sys_ok_cc(2) waited_poison [OF wake.hyps(4)] show ?case
    by (intro pending_fetched_update [of cc]) auto
qed auto

lemma pending_fetched_reach:
  assumes "cache_reach lm n H S False s s'" "0 < n" "sys_ok lm s" "pending_fetched s"
  shows "pending_fetched s'"
  using assms(1) unfolding cache_reach_def
proof (induction rule: rtranclp_induct)
  case (step y z)
  moreover from step(1) have "sys_ok lm y" using assms(2,3) cache_reach_ok unfolding cache_reach_def by blast
  ultimately show ?case using assms(2) pending_fetched_step by blast
qed (rule assms(4))

text \<open>A chunk whose batch was dropped: it is marked as being fetched, and nobody fetches it.\<close>

definition orphaned :: "chunk_key \<Rightarrow> event \<Rightarrow> 'm sys \<Rightarrow> bool" where
  "orphaned k e s = (case s of (cc, ts) \<Rightarrow> cc_pending cc k = Some e \<and> (\<forall>t \<in> set ts. fetch_event t \<noteq> Some e))"

lemma orphaned_update:
  "orphaned k e (cc, ts) \<Longrightarrow> cc_pending cc' k = Some e \<Longrightarrow> fetch_event t \<noteq> Some e \<Longrightarrow> orphaned k e (cc', ts[i := t])"
  by (auto simp: orphaned_def dest: set_update_subset_insert [THEN subsetD])

lemma orphaned_step:
  assumes "cache_step lm n H S drops s s'" "sys_ok lm s" "0 < n" "orphaned k e s"
  shows "orphaned k e s'"
  using assms
proof (induction rule: cache_step.induct)
  case (request i ts ks out cc new_keys)
  then show ?case by (intro orphaned_update [of k e cc]) (auto simp: orphaned_def)
next
  case (enter i ts ks out cc r cc')
  from enter.prems(3) have k: "cc_pending cc k = Some e" by (simp add: orphaned_def)
  show ?case
  proof (cases "cc_poisoned cc")
    case True
    with enter k show ?thesis by (intro orphaned_update [of k e cc]) (auto simp: get_chunks_poisoned entered_def)
  next
    case False
    with enter k enter_effect(3,5) [OF enter.prems(1) False enter.prems(2) enter.hyps(3)] pending_open [OF enter.prems(1) k]
    show ?thesis by (intro orphaned_update [of k e cc]) auto
  qed
next
  case (fulfil i ts ks out br chunks cc r cc')
  from fulfil.prems(3) fulfil.hyps(1,2) have k: "cc_pending cc k = Some e" "br_event br \<noteq> e"
    by (auto simp: orphaned_def dest!: nth_mem)
  show ?case
  proof (cases "cc_poisoned cc")
    case True
    with fulfil k show ?thesis by (intro orphaned_update [of k e cc]) (auto simp: get_chunks_poisoned fulfilled_def)
  next
    case False
    with fulfil k fulfil_effect(1,3) [OF fulfil.prems(1) fulfil.hyps(1-3,6) False] show ?thesis
      by (intro orphaned_update [of k e cc]) (auto simp: fulfilled_def)
  qed
next
  case (drop_batch i ts ks out br cc err)
  then show ?case by (intro orphaned_update [of k e cc]) (auto simp: orphaned_def)
next
  case (wake i ts ks ws out cc r cc')
  with waited_quiet(2) [OF wake.hyps(4)] sys_ok_cc(2) show ?case
    by (intro orphaned_update [of k e cc]) (auto simp: orphaned_def woken_def split: sum.split)
qed

lemma orphaned_reach:
  assumes "cache_reach lm n H S drops s s'" "0 < n" "sys_ok lm s" "orphaned k e s"
  shows "orphaned k e s'"
  using assms(1) unfolding cache_reach_def
proof (induction rule: rtranclp_induct)
  case (step y z)
  moreover from step(1) have "sys_ok lm y" using assms(2,3) cache_reach_ok unfolding cache_reach_def by blast
  ultimately show ?case using assms(2) orphaned_step by blast
qed (rule assms(4))

text \<open>A cache with room for every chunk a peer may send: nothing a task waits for gets evicted.\<close>

definition waits_met :: "'m chunk_cache \<Rightarrow> task \<Rightarrow> bool" where
  "waits_met cc t = (case t of
     Waiting ks ws out \<Rightarrow> (\<forall>(k, e) \<in> set ws. cc_closed cc ! e \<longrightarrow> cached (cc_raw cc) k \<noteq> None)
   | Failed _ \<Rightarrow> False
   | _ \<Rightarrow> True)"

definition roomy :: "hash_fun \<Rightarrow> bytes set \<Rightarrow> 'm sys \<Rightarrow> bool" where
  "roomy H S s = (case s of (cc, ts) \<Rightarrow>
     \<not> cc_poisoned cc \<and> (\<Sum>b\<in>S. length b) \<le> unat (rc_max_size (cc_raw cc)) \<and>
     (\<forall>k b. cached (cc_raw cc) k = Some b \<longrightarrow> k = H b \<and> b \<in> S) \<and> (\<forall>t \<in> set ts. waits_met cc t))"

lemma sizes_distinct:
  assumes "distinct (map fst xs)" "\<forall>(k, b) \<in> set xs. k = H b \<and> b \<in> S" "finite S"
  shows "sizes xs \<le> (\<Sum>b\<in>S. length b)"
proof -
  have "map fst xs = map H (map snd xs)" using assms(2) by (auto simp: map_eq_conv)
  with assms(1) have "distinct (map snd xs)" by (metis distinct_map)
  then have "sizes xs = (\<Sum>b\<in>set (map snd xs). length b)"
    using sum_list_distinct_conv_sum_set [of "map snd xs" length] by (simp add: sizes_def comp_def)
  also have "\<dots> \<le> (\<Sum>b\<in>S. length b)" using assms(2,3) by (intro sum_mono2) auto
  finally show ?thesis .
qed

lemma roomy_update:
  assumes "roomy H S (cc, ts)" "\<not> cc_poisoned cc'" "rc_max_size (cc_raw cc') = rc_max_size (cc_raw cc)"
    "\<And>k b. cached (cc_raw cc') k = Some b \<Longrightarrow> k = H b \<and> b \<in> S" "waits_met cc' t"
    "\<And>u. u \<in> set ts \<Longrightarrow> waits_met cc u \<Longrightarrow> waits_met cc' u"
  shows "roomy H S (cc', ts[i := t])"
  using assms unfolding roomy_def by (auto dest: set_update_subset_insert [THEN subsetD])

lemma roomy_cached: "roomy H S (cc, ts) \<Longrightarrow> cached (cc_raw cc) k = Some b \<Longrightarrow> k = H b \<and> b \<in> S"
  by (simp add: roomy_def)

lemma entries_cached: "(k, b) \<in> set (entries rc) \<longleftrightarrow> cached rc k = Some b"
  by (simp add: cached_in_def distinct_entries)

text \<open>A cache with room for all of \<open>S\<close> has room for the chunks of a batch.\<close>

lemma roomy_fits:
  assumes ok: "sys_ok lm (cc, ts)" and i: "i < length ts" and t: "ts ! i = Fetching ks out br"
    and len: "length chunks = length (br_keys br)" and S: "finite S" and room: "roomy H S (cc, ts)"
    and xs: "\<And>k b. (k, b) \<in> set (zip (br_keys br) chunks) \<Longrightarrow> k = H b \<and> b \<in> S \<and> k \<in> set (br_keys br)"
  shows "sizes (entries (cc_raw cc)) + sizes (zip (br_keys br) chunks) \<le> unat (rc_max_size (cc_raw cc))"
proof -
  let ?xs = "zip (br_keys br) chunks"
  note br = fetching_ok [OF ok i t]
  from room have live: "\<not> cc_poisoned cc" by (simp add: roomy_def)
  have absent: "cached (cc_raw cc) k = None" if "k \<in> set (br_keys br)" for k
    using that br(4) [of k] sys_ok_cc(1) [OF ok live] by (auto simp: shared_ok_def)
  have "distinct (map fst (entries (cc_raw cc) @ ?xs))"
  proof -
    have "fst ` set (entries (cc_raw cc)) \<inter> set (br_keys br) = {}"
      using absent by (auto simp: entries_cached)
    then show ?thesis using distinct_entries br(5) len by (simp add: distinct_append)
  qed
  moreover have "\<forall>(k, b) \<in> set (entries (cc_raw cc) @ ?xs). k = H b \<and> b \<in> S"
    using xs roomy_cached [OF room] by (auto simp: entries_cached)
  ultimately have "sizes (entries (cc_raw cc) @ ?xs) \<le> (\<Sum>b\<in>S. length b)" using S by (intro sizes_distinct)
  then show ?thesis
    using room by (simp add: roomy_def)
qed

lemma roomy_fulfil:
  assumes ok: "sys_ok lm (cc, ts)" and i: "i < length ts" and t: "ts ! i = Fetching ks out br"
    and len: "length chunks = length (br_keys br)" and H: "list_all2 (\<lambda>k c. H c = k) (br_keys br) chunks"
    and S: "set chunks \<subseteq> S" "finite S" and f: "fulfill lm br chunks cc = (r, cc')" and room: "roomy H S (cc, ts)"
  shows "roomy H S (cc', ts[i := fulfilled ks out (zip (br_keys br) chunks) r])"
proof -
  let ?xs = "zip (br_keys br) chunks"
  note br = fetching_ok [OF ok i t]
  from room have live: "\<not> cc_poisoned cc" by (simp add: roomy_def)
  have xs: "k = H b \<and> b \<in> S \<and> k \<in> set (br_keys br)" if "(k, b) \<in> set ?xs" for k b
    using that H S(1) by (auto simp: set_zip list_all2_conv_all_nth)
  have keys: "fst ` set ?xs = set (br_keys br)" using len by (metis list.set_map map_fst_zip)
  note fits = roomy_fits [OF ok i t len S(2) room xs]
  obtain rc where rc: "fulfill lm br chunks cc = (Inr (), cc\<lparr> cc_raw := rc, cc_pending := cc_pending cc |` (- set (br_keys br)),
      cc_closed := (cc_closed cc)[br_event br := True] \<rparr>)" "rc_max_size rc = rc_max_size (cc_raw cc)"
    "cached rc = cached (cc_raw cc) ++ map_of (rev ?xs)"
    using fulfill_spec [OF sys_ok_cc(1) [OF ok live] len br(1)] br(4) fits by metis
  with f have r: "r = Inr ()" and cc': "cc_raw cc' = rc" "\<not> cc_poisoned cc'" "cc_closed cc' = (cc_closed cc)[br_event br := True]"
    using live by auto
  have grown: "cached rc k \<noteq> None" if "cached (cc_raw cc) k \<noteq> None \<or> k \<in> set (br_keys br)" for k
    using that unfolding rc(3) keys [symmetric] by (auto simp: map_add_def map_of_eq_None_iff split: option.split)
  show ?thesis
  proof (rule roomy_update [OF room])
    show "k = H b \<and> b \<in> S" if "cached (cc_raw cc') k = Some b" for k b
      using that xs [of k b] roomy_cached [OF room, of k b] unfolding cc' rc(3)
      by (auto simp: map_add_Some_iff dest!: map_of_SomeD)
    show "waits_met cc' u" if "u \<in> set ts" "waits_met cc u" for u
    proof (cases u)
      case (Waiting ks' ws' out')
      from that(1) obtain j where j: "j < length ts" "ts ! j = Waiting ks' ws' out'" by (metis Waiting in_set_conv_nth)
      have "cached rc k \<noteq> None" if "(k, e) \<in> set ws'" "(cc_closed cc)[br_event br := True] ! e" for k e
      proof (cases "e = br_event br")
        case True
        with waiting_ok(2) [OF ok j that(1)] br(2) br(4) [of k] show ?thesis by (intro grown) auto
      next
        case False
        with that \<open>waits_met cc u\<close> Waiting show ?thesis by (intro grown) (auto simp: waits_met_def)
      qed
      with Waiting show ?thesis by (auto simp: waits_met_def cc')
    qed (use that(2) in \<open>simp_all add: waits_met_def\<close>)
  qed (simp_all add: cc' rc(2) fulfilled_def r waits_met_def)
qed

lemma roomy_enter:
  assumes ok: "sys_ok lm (cc, ts)" and n: "0 < n" and g: "get_chunks_batched lm ks out n cc = (r, cc')" and room: "roomy H S (cc, ts)"
  shows "roomy H S (cc', ts[i := entered r])"
proof -
  from room have live: "\<not> cc_poisoned cc" by (simp add: roomy_def)
  note eff = enter_effect [OF ok live n g]
  show ?thesis
  proof (rule roomy_update [OF room eff(1,8)])
    fix k b assume "cached (cc_raw cc') k = Some b"
    then show "k = H b \<and> b \<in> S" using roomy_cached [OF room, of k b] by (simp add: eff(7))
  next
    show "waits_met cc' (entered r)"
    proof (cases rule: get_chunks_batched_cases [OF sys_ok_cc(1) [OF ok live] n, of ks out, case_names batch waiting])
      case (batch kept new br rc)
      with g show ?thesis by (auto simp: entered_def waits_met_def)
    next
      case (waiting new ws rc)
      have "\<not> cc_closed cc ! e" if "(k, e) \<in> set ws" for k e
        using that waiting(5) pending_open [OF ok, of k e] by blast
      with waiting(1) g show ?thesis by (auto simp: entered_def waits_met_def)
    qed
  next
    fix u assume u: "u \<in> set ts" "waits_met cc u"
    show "waits_met cc' u"
    proof (cases u)
      case (Waiting ks' ws' out')
      from u(1) obtain j where j: "j < length ts" "ts ! j = Waiting ks' ws' out'" by (metis Waiting in_set_conv_nth)
      have "cc_closed cc' ! e = cc_closed cc ! e" if "(k, e) \<in> set ws'" for k e
        using eff(4) waiting_ok(1) [OF ok j that] by blast
      with Waiting u(2) show ?thesis by (auto simp: waits_met_def eff(7))
    qed (use u(2) in \<open>simp_all add: waits_met_def\<close>)
  qed
qed

lemma roomy_wake:
  assumes ok: "sys_ok lm (cc, ts)" and i: "i < length ts" and t: "ts ! i = Waiting ks ws out" and closed: "all_closed ws cc"
    and w: "get_chunks_waited lm ws out cc = (r, cc')" and room: "roomy H S (cc, ts)"
  shows "roomy H S (cc', ts[i := woken ks r])"
proof -
  from room i t have met: "waits_met cc (Waiting ks ws out)" and live: "\<not> cc_poisoned cc"
    by (auto simp: roomy_def dest!: nth_mem)
  with closed have "\<forall>(k, e) \<in> set ws. cached (cc_raw cc) k \<noteq> None"
    by (auto simp: waits_met_def all_closed_def list_all_iff)
  then obtain rc' out' where "collect_waited lm ws (cc_raw cc) out = Inr (rc', out')"
    using collect_waited_ok [OF sys_ok_cc(2) [OF ok]] by blast
  with w live have r: "\<exists>out'. r = Inr out'" "\<not> cc_poisoned cc'"
    by (auto simp: get_chunks_waited_def with_lock_def)
  note q = waited_quiet [OF w sys_ok_cc(2) [OF ok]]
  show ?thesis
  proof (rule roomy_update [OF room r(2) q(5)])
    show "waits_met cc' (woken ks r)" using r(1) by (auto simp: woken_def waits_met_def)
    show "k = H b \<and> b \<in> S" if "cached (cc_raw cc') k = Some b" for k b
      using that roomy_cached [OF room, of k b] by (simp add: q(4))
    show "waits_met cc' u" if "waits_met cc u" for u
      using that by (simp add: waits_met_def q(1,4) split: task.splits)
  qed
qed

lemma roomy_step:
  assumes "cache_step lm n H S False s s'" "sys_ok lm s" "0 < n" "finite S" "roomy H S s"
  shows "roomy H S s'"
  using assms
proof (induction rule: cache_step.induct)
  case (request i ts ks out cc new_keys)
  then show ?case
    by (intro roomy_update [of H S cc]) (auto simp: waits_met_def dest: roomy_cached, simp add: roomy_def)
next
  case (enter i ts ks out cc r cc')
  then show ?case by (intro roomy_enter)
next
  case (fulfil i ts ks out br chunks cc r cc')
  then show ?case by (intro roomy_fulfil)
next
  case (wake i ts ks ws out cc r cc')
  then show ?case by (intro roomy_wake)
qed auto

lemma roomy_reach:
  assumes "cache_reach lm n H S False s s'" "0 < n" "sys_ok lm s" "finite S" "roomy H S s"
  shows "roomy H S s'"
  using assms(1) unfolding cache_reach_def
proof (induction rule: rtranclp_induct)
  case (step y z)
  moreover from step(1) have "sys_ok lm y" using assms(2,3) cache_reach_ok unfolding cache_reach_def by blast
  ultimately show ?case using assms(2,4) roomy_step by blast
qed (rule assms(5))

end

section \<open>Some runs\<close>

context hashlink
begin

text \<open>The shared state after a few requests on an empty cache.\<close>

definition fresh_cc :: "'m chunk_cache \<Rightarrow> (chunk_key \<rightharpoonup> event) \<Rightarrow> bool list \<Rightarrow> u64 \<Rightarrow> bool" where
  "fresh_cc cc p cl m \<longleftrightarrow> \<not> cc_poisoned cc \<and> cache_ok lm (cc_raw cc) \<and> cached (cc_raw cc) = Map.empty \<and>
     rc_max_size (cc_raw cc) = m \<and> cc_pending cc = p \<and> cc_closed cc = cl"

lemma fresh_cc_new: "fresh_cc (cc_new lm m) Map.empty [] m"
  by (simp add: fresh_cc_def cc_new_def rc_new_ok cached_new)

lemma enter_fetch:
  assumes "fresh_cc cc p cl m" "p k = None" "0 < n" "i < length ts" "ts ! i = Idle [k] out"
  shows "\<exists>cc'. cache_step lm n H S drops (cc, ts) (cc', ts[i := Fetching [] out \<lparr> br_event = length cl, br_keys = [k] \<rparr>]) \<and>
    fresh_cc cc' (p(k \<mapsto> length cl)) (cl @ [False]) m"
proof -
  obtain rc where rc: "rc_get lm k (cc_raw cc) = (None, rc)" "cached rc = Map.empty" "rc_max_size rc = m" "rc_ok rc"
    using rc_get_cases [of k "cc_raw cc"] assms(1) by (metis fresh_cc_def)
  let ?cc = "cc\<lparr> cc_raw := rc, cc_closed := cl @ [False], cc_pending := p(k \<mapsto> length cl) \<rparr>"
  have "get_chunks_batched lm [k] out n cc = (Inr (Batch \<lparr> br_event = length cl, br_keys = [k] \<rparr>, [], out), ?cc)"
    using assms(1-3) rc(1) by (simp add: get_chunks_batched_def with_lock_def fresh_cc_def Let_def)
  from cache_step.enter [OF assms(4,5) this] have
    "cache_step lm n H S drops (cc, ts) (?cc, ts[i := Fetching [] out \<lparr> br_event = length cl, br_keys = [k] \<rparr>])"
    by (simp add: entered_def)
  moreover have "fresh_cc ?cc (p(k \<mapsto> length cl)) (cl @ [False]) m" using assms(1) rc by (simp add: fresh_cc_def)
  ultimately show ?thesis by blast
qed

lemma enter_wait:
  assumes "fresh_cc cc p cl m" "p k = Some e" "0 < n" "i < length ts" "ts ! i = Idle [k] out"
  shows "\<exists>cc'. cache_step lm n H S drops (cc, ts) (cc', ts[i := Waiting [] [(k, e)] out]) \<and> fresh_cc cc' p cl m"
proof -
  obtain rc where rc: "rc_get lm k (cc_raw cc) = (None, rc)" "cached rc = Map.empty" "rc_max_size rc = m" "rc_ok rc"
    using rc_get_cases [of k "cc_raw cc"] assms(1) by (metis fresh_cc_def)
  have "get_chunks_batched lm [k] out n cc = (Inr (Wait [(k, e)], [], out), cc\<lparr> cc_raw := rc \<rparr>)"
    using assms(1-3) rc(1) by (simp add: get_chunks_batched_def with_lock_def fresh_cc_def Let_def)
  from cache_step.enter [OF assms(4,5) this] have
    "cache_step lm n H S drops (cc, ts) (cc\<lparr> cc_raw := rc \<rparr>, ts[i := Waiting [] [(k, e)] out])"
    by (simp add: entered_def)
  moreover have "fresh_cc (cc\<lparr> cc_raw := rc \<rparr>) p cl m" using assms(1) rc by (simp add: fresh_cc_def)
  ultimately show ?thesis by blast
qed

lemma run_fetch_wait:
  assumes "0 < n"
  shows "\<exists>cc. cache_reach lm n H S drops (cc_new lm m, [Idle [k] [], Idle [k] []])
      (cc, [Fetching [] [] \<lparr> br_event = 0, br_keys = [k] \<rparr>, Waiting [] [(k, 0)] []]) \<and> fresh_cc cc [k \<mapsto> 0] [False] m"
proof -
  obtain cc1 where 1: "cache_step lm n H S drops (cc_new lm m, [Idle [k] [], Idle [k] []])
      (cc1, [Fetching [] [] \<lparr> br_event = 0, br_keys = [k] \<rparr>, Idle [k] []])" "fresh_cc cc1 [k \<mapsto> 0] [False] m"
    using enter_fetch [OF fresh_cc_new _ assms, where k = k and i = 0 and ts = "[Idle [k] [], Idle [k] []]"] by force
  obtain cc2 where "cache_step lm n H S drops (cc1, [Fetching [] [] \<lparr> br_event = 0, br_keys = [k] \<rparr>, Idle [k] []])
      (cc2, [Fetching [] [] \<lparr> br_event = 0, br_keys = [k] \<rparr>, Waiting [] [(k, 0)] []])" "fresh_cc cc2 [k \<mapsto> 0] [False] m"
    using enter_wait [OF 1(2) _ assms, where k = k and e = 0 and i = 1 and ts = "[Fetching [] [] \<lparr> br_event = 0, br_keys = [k] \<rparr>, Idle [k] []]"] by force
  with 1(1) show ?thesis unfolding cache_reach_def by (meson rtranclp.rtrancl_into_rtrancl rtranclp.rtrancl_refl)
qed

lemma run_two_fetches:
  assumes "0 < n" "k \<noteq> l"
  shows "\<exists>cc. cache_reach lm n H S drops (cc_new lm m, [Idle [k] [], Idle [l] []])
      (cc, [Fetching [] [] \<lparr> br_event = 0, br_keys = [k] \<rparr>, Fetching [] [] \<lparr> br_event = 1, br_keys = [l] \<rparr>])"
proof -
  obtain cc1 where 1: "cache_step lm n H S drops (cc_new lm m, [Idle [k] [], Idle [l] []])
      (cc1, [Fetching [] [] \<lparr> br_event = 0, br_keys = [k] \<rparr>, Idle [l] []])" "fresh_cc cc1 [k \<mapsto> 0] [False] m"
    using enter_fetch [OF fresh_cc_new _ assms(1), where k = k and i = 0 and ts = "[Idle [k] [], Idle [l] []]"] by force
  obtain cc2 where "cache_step lm n H S drops (cc1, [Fetching [] [] \<lparr> br_event = 0, br_keys = [k] \<rparr>, Idle [l] []])
      (cc2, [Fetching [] [] \<lparr> br_event = 0, br_keys = [k] \<rparr>, Fetching [] [] \<lparr> br_event = 1, br_keys = [l] \<rparr>])"
    using enter_fetch [OF 1(2) _ assms(1), where k = l and i = 1 and ts = "[Fetching [] [] \<lparr> br_event = 0, br_keys = [k] \<rparr>, Idle [l] []]"] assms(2)
    by force
  with 1(1) show ?thesis unfolding cache_reach_def by (meson rtranclp.rtrancl_into_rtrancl rtranclp.rtrancl_refl)
qed

text \<open>A chunk bigger than the whole cache is evicted by its own insertion.\<close>

lemma insert_too_big:
  assumes "rc_ok rc" "cached rc = Map.empty" "unat (rc_max_size rc) < length c" "length c < 2 ^ 64"
  shows "\<exists>rc'. rc_insert lm k c rc = Inr rc' \<and> cached rc' = Map.empty"
proof -
  from assms(2) have empty: "entries rc = []" by (simp add: cached_in_def)
  obtain rc' d where rc': "rc_insert lm k c rc = Inr rc'" "rc_ok rc'" "rc_max_size rc' = rc_max_size rc" "entries rc' = drop d [(k, c)]"
    using rc_insert_ok [OF assms(1), of k c] by (auto simp: empty without_def)
  have "entries rc' = []"
  proof (cases d)
    case 0
    then have e: "entries rc' = [(k, c)]" using rc'(4) by simp
    have "of_nat (sizes (entries rc')) \<le> rc_max_size rc'" using rc'(2) unfolding cache_ok_def by metis
    then have "(of_nat (length c) :: u64) \<le> rc_max_size rc'" by (simp add: e)
    then have "length c \<le> unat (rc_max_size rc)" using assms(4) rc'(3) by (simp add: word_le_nat_alt unat_of_nat)
    with assms(3) show ?thesis by simp
  qed (use rc'(4) in simp)
  with rc'(1) show ?thesis by (auto simp: cached_in_def)
qed

end

section \<open>Properties\<close>

text \<open>
  C14. No chunk is fetched twice at the same time: in every state the tasks can reach, whatever the
  interleaving and whatever fetches failed, the batches of two tasks have no key in common,
  and no chunk in a batch is in the cache.
\<close>

theorem batches_disjoint:
  assumes "hashlink lm" "0 < n" "sys_init lm s" "cache_reach lm n H S drops s (cc, ts)"
    "i < length ts" "j < length ts" "i \<noteq> j" "ts ! i = Fetching ks out br" "ts ! j = Fetching ks' out' br'"
  shows "set (br_keys br) \<inter> set (br_keys br') = {} \<and> (\<forall>k \<in> set (br_keys br). cached_in lm (cc_raw cc) k = None)"
proof -
  have ok: "sys_ok lm (cc, ts)"
    using hashlink.cache_reach_ok [OF assms(1,4,2)] hashlink.sys_init_ok [OF assms(1,3)] .
  have "br_event br \<noteq> br_event br'"
    using hashlink.events_distinct [OF assms(1) ok assms(5,6,7)] assms(8,9) by fastforce
  moreover have "cc_pending cc k = Some (br_event br)" if "k \<in> set (br_keys br)" for k
    using that hashlink.fetching_ok(4) [OF assms(1) ok assms(5,8)] by blast
  moreover have "cc_pending cc k = Some (br_event br')" if "k \<in> set (br_keys br')" for k
    using that hashlink.fetching_ok(4) [OF assms(1) ok assms(6,9)] by blast
  ultimately show ?thesis using ok by (fastforce simp: sys_ok_def shared_ok_def)
qed

theorem batches_disjoint_witness:
  "\<exists>cc ts. cache_reach alist_map 512 pad_hash UNIV True (cc_new alist_map 100, [Idle [[1]] [], Idle [[2]] []]) (cc, ts) \<and>
     ts ! 0 = Fetching [] [] \<lparr> br_event = 0, br_keys = [[1]] \<rparr> \<and> ts ! 1 = Fetching [] [] \<lparr> br_event = 1, br_keys = [[2]] \<rparr> \<and>
     set [[1 :: u8]] \<inter> set [[2 :: u8]] = {} \<and> cached_in alist_map (cc_raw cc) [1] = None"
proof -
  obtain cc where r: "cache_reach alist_map 512 pad_hash UNIV True (cc_new alist_map 100, [Idle [[1]] [], Idle [[2]] []])
      (cc, [Fetching [] [] \<lparr> br_event = 0, br_keys = [[1]] \<rparr>, Fetching [] [] \<lparr> br_event = 1, br_keys = [[2]] \<rparr>])"
    using am.run_two_fetches [of 512 "[1]" "[2]" pad_hash UNIV True 100] by auto
  show ?thesis
    using r batches_disjoint [OF am.hashlink_axioms _ _ r, of 0 1] by (intro exI [of _ cc] exI) (auto simp: sys_init_def idle_task_def)
qed

text \<open>
  C16. As long as no fetch fails, a waiting task is never stuck: if one of the semaphores it waits for
  is still open, some task is fetching the very chunk it waits for (unless a panic inside a locked
  section has poisoned the cache).
\<close>

theorem waiter_has_fetcher:
  assumes "hashlink lm" "0 < n" "sys_init lm s" "cache_reach lm n H S False s (cc, ts)" "\<not> cc_poisoned cc"
    "i < length ts" "ts ! i = Waiting ks ws out" "\<not> all_closed ws cc"
  shows "\<exists>j ks' out' br k e. j < length ts \<and> ts ! j = Fetching ks' out' br \<and> (k, e) \<in> set ws \<and> k \<in> set (br_keys br)"
proof -
  note init = hashlink.sys_init_ok [OF assms(1,3)]
  have ok: "sys_ok lm (cc, ts)" using hashlink.cache_reach_ok [OF assms(1,4,2) init] .
  have "hashlink.pending_fetched s"
    using assms(3) by (auto simp: hashlink.pending_fetched_def [OF assms(1)] sys_init_def cc_new_def)
  then have "hashlink.pending_fetched (cc, ts)"
    using hashlink.pending_fetched_reach [OF assms(1,4,2) init] by blast
  then have fetched: "\<exists>j < length ts. fetch_event (ts ! j) = Some e" if "cc_pending cc k = Some e" for k e
    using that assms(5) by (auto simp: hashlink.pending_fetched_def [OF assms(1)])
  from assms(8) obtain k e where ke: "(k, e) \<in> set ws" "\<not> cc_closed cc ! e"
    by (auto simp: all_closed_def list_all_iff)
  with hashlink.waiting_ok(2) [OF assms(1) ok assms(6,7) ke(1)] have "cc_pending cc k = Some e" by blast
  moreover from fetched [OF this] obtain j where "j < length ts" "fetch_event (ts ! j) = Some e" by blast
  moreover from this obtain ks' out' br where "ts ! j = Fetching ks' out' br" "br_event br = e"
    by (auto simp: fetch_event_def split: task.splits)
  ultimately show ?thesis using hashlink.fetching_ok(4) [OF assms(1) ok] ke(1) by blast
qed

theorem waiter_has_fetcher_witness:
  "\<exists>cc ts. cache_reach alist_map 512 pad_hash UNIV False (cc_new alist_map 100, [Idle [[1]] [], Idle [[1]] []]) (cc, ts) \<and>
     ts ! 1 = Waiting [] [([1], 0)] [] \<and> \<not> all_closed [([1], 0)] cc \<and>
     (\<exists>j ks' out' br. j < length ts \<and> ts ! j = Fetching ks' out' br \<and> [1] \<in> set (br_keys br))"
proof -
  obtain cc where r: "cache_reach alist_map 512 pad_hash UNIV False (cc_new alist_map 100, [Idle [[1]] [], Idle [[1]] []])
      (cc, [Fetching [] [] \<lparr> br_event = 0, br_keys = [[1]] \<rparr>, Waiting [] [([1], 0)] []])"
    and f: "am.fresh_cc cc [[1] \<mapsto> 0] [False] 100"
    using am.run_fetch_wait [of 512 pad_hash UNIV False 100 "[1]"] by auto
  show ?thesis
    using r f waiter_has_fetcher [OF am.hashlink_axioms _ _ r, of 1]
    by (intro exI [of _ cc] exI) (auto simp: sys_init_def idle_task_def am.fresh_cc_def all_closed_def)
qed

text \<open>
  C18. A failed fetch blocks its chunks for good: \<^verbatim>\<open>fetch_chunk_batch\<close> drops the batch on an error without
  releasing its keys, so in every later state of the program each of them is still marked as being
  fetched on a semaphore that is never closed. Whoever asks for such a chunk is told to wait
  for that semaphore.
\<close>

theorem dropped_batch_blocks:
  assumes "hashlink lm" "0 < n" "sys_init lm s" "cache_reach lm n H S True s (cc, ts)"
    "i < length ts" "ts ! i = Fetching ks out br" "key \<in> set (br_keys br)"
    "cache_reach lm n H S True (cc, ts[i := Failed err]) (cc', ts')"
  shows "cc_pending cc' key = Some (br_event br) \<and> \<not> cc_closed cc' ! br_event br \<and>
    (\<not> cc_poisoned cc' \<longrightarrow> (\<exists>cc''. get_chunks_batched lm [key] out' n cc' = (Inr (Wait [(key, br_event br)], [], out'), cc'')))"
proof -
  have ok: "sys_ok lm (cc, ts)"
    using hashlink.cache_reach_ok [OF assms(1,4,2)] hashlink.sys_init_ok [OF assms(1,3)] .
  have "cache_step lm n H S True (cc, ts) (cc, ts[i := Failed err])" using assms(5,6) by (intro drop_batch) simp
  with ok have ok1: "sys_ok lm (cc, ts[i := Failed err])" using hashlink.cache_step_ok [OF assms(1) _ _ assms(2)] by blast
  have pend: "cc_pending cc key = Some (br_event br)"
    using assms(7) hashlink.fetching_ok(4) [OF assms(1) ok assms(5,6)] by blast
  have "fetch_event t \<noteq> Some (br_event br)" if "t \<in> set (ts[i := Failed err])" for t
  proof -
    from that obtain j where j: "j < length ts" "t = ts[i := Failed err] ! j" by (auto simp: in_set_conv_nth)
    with hashlink.events_distinct [OF assms(1) ok assms(5) j(1)] assms(5,6) show ?thesis by (cases "i = j") auto
  qed
  with pend have "hashlink.orphaned key (br_event br) (cc, ts[i := Failed err])"
    by (simp add: hashlink.orphaned_def [OF assms(1)])
  from hashlink.orphaned_reach [OF assms(1,8,2) ok1 this] have p': "cc_pending cc' key = Some (br_event br)"
    by (simp add: hashlink.orphaned_def [OF assms(1)])
  have ok': "sys_ok lm (cc', ts')" using hashlink.cache_reach_ok [OF assms(1,8,2) ok1] .
  have "cached_in lm (cc_raw cc') key = None" using ok' p' by (simp add: sys_ok_def shared_ok_def)
  then obtain rc where g: "rc_get lm key (cc_raw cc') = (None, rc)"
    using hashlink.rc_get_cases [OF assms(1), of key "cc_raw cc'"] by metis
  show ?thesis
    using p' hashlink.pending_open [OF assms(1) ok' p']
    by (simp add: get_chunks_batched_def with_lock_def g)
qed

theorem dropped_batch_blocks_witness:
  "\<exists>cc ts. cache_reach alist_map 512 pad_hash UNIV True (cc_new alist_map 100, [Idle [[1]] [], Idle [[1]] []]) (cc, ts) \<and>
     cc_pending cc [1] = Some 0 \<and> ts ! 1 = Waiting [] [([1], 0)] [] \<and> \<not> cc_closed cc ! 0"
proof -
  let ?ts = "[Fetching [] [] \<lparr> br_event = 0, br_keys = [[1]] \<rparr>, Waiting [] [([1], 0)] []]"
  obtain cc where r: "cache_reach alist_map 512 pad_hash UNIV True (cc_new alist_map 100, [Idle [[1]] [], Idle [[1]] []]) (cc, ?ts)"
    using am.run_fetch_wait [of 512 pad_hash UNIV True 100 "[1]"] by auto
  have "cache_step alist_map 512 pad_hash UNIV True (cc, ?ts) (cc, ?ts[0 := Failed UnexpectedEof])" by (rule drop_batch) auto
  then have "cache_reach alist_map 512 pad_hash UNIV True (cc_new alist_map 100, [Idle [[1]] [], Idle [[1]] []]) (cc, ?ts[0 := Failed UnexpectedEof])"
    using r unfolding cache_reach_def by (rule rtranclp.rtrancl_into_rtrancl [rotated])
  moreover have "cc_pending cc [1] = Some 0 \<and> \<not> cc_closed cc ! 0"
    using dropped_batch_blocks [OF am.hashlink_axioms _ _ r, of 0 _ _ _ "[1]" UnexpectedEof cc "?ts[0 := Failed UnexpectedEof]" "[]"]
    by (auto simp: sys_init_def idle_task_def cache_reach_def)
  ultimately show ?thesis by (intro exI [of _ cc] exI [of _ "?ts[0 := Failed UnexpectedEof]"]) simp
qed

text \<open>
  C29. With room for every chunk a peer may send, and as long as no fetch fails, no task ever fails: none
  of the panics of the cache (poisoned lock, remaining chunk not pending, waited-for chunk not in the
  cache, wrong number of chunks) can happen.
\<close>

theorem roomy_cache_never_panics:
  assumes "hashlink lm" "0 < n" "list_all idle_task ts" "finite S" "(\<Sum>b\<in>S. length b) \<le> unat max_size"
    "cache_reach lm n H S False (cc_new lm max_size, ts) (cc, ts')"
  shows "\<not> cc_poisoned cc \<and> (\<forall>t \<in> set ts'. \<forall>e. t \<noteq> Failed e)"
proof -
  have init: "sys_ok lm (cc_new lm max_size, ts)"
    using assms(3) by (intro hashlink.sys_init_ok [OF assms(1)]) (auto simp: sys_init_def)
  have idle: "hashlink.waits_met lm c t" if "idle_task t" for c t
    using that by (simp add: hashlink.waits_met_def [OF assms(1)] idle_task_def split: task.splits)
  have "hashlink.roomy lm H S (cc_new lm max_size, ts)"
    using assms(3,5) idle by (simp add: hashlink.roomy_def [OF assms(1)] list_all_iff)
      (simp add: cc_new_def hashlink.cached_new [OF assms(1)] hashlink.rc_new_ok [OF assms(1)])
  then have "hashlink.roomy lm H S (cc, ts')"
    using hashlink.roomy_reach [OF assms(1,6,2) init assms(4)] by blast
  then show ?thesis
    by (auto simp: hashlink.roomy_def [OF assms(1)] hashlink.waits_met_def [OF assms(1)])
qed

theorem roomy_cache_never_panics_witness:
  "\<exists>cc ts'. cache_reach alist_map 512 pad_hash {[1, 2, 3]} False (cc_new alist_map 100, [Idle [[1]] [], Idle [[1]] []]) (cc, ts') \<and>
     \<not> cc_poisoned cc \<and> (\<forall>t \<in> set ts'. \<forall>e. t \<noteq> Failed e)"
proof -
  obtain cc ts' where r: "cache_reach alist_map 512 pad_hash {[1, 2, 3]} False (cc_new alist_map 100, [Idle [[1]] [], Idle [[1]] []]) (cc, ts')"
    using am.run_fetch_wait [of 512 pad_hash "{[1, 2, 3]}" False 100 "[1]"] by auto
  from roomy_cache_never_panics [OF am.hashlink_axioms _ _ _ _ r] r show ?thesis by (auto simp: idle_task_def)
qed

text \<open>
  C38. In a cache too small for a chunk, two tasks that want the same chunk bring the program down: the chunk is
  evicted by its own insertion, the task that waited for it panics inside the locked section, and the
  poisoned lock makes every later use of the cache panic.
\<close>

theorem small_cache_poisons:
  assumes "hashlink lm" "0 < n" "H c = key" "c \<in> S" "unat max_size < length c" "length c < 2 ^ 64"
  shows "\<exists>cc. cache_reach lm n H S False (cc_new lm max_size, [Idle [key] [], Idle [key] []])
      (cc, [Idle [] [(key, c)], Failed (Panic ''Waited on chunk, but chunk was not put in cache'')]) \<and> cc_poisoned cc \<and>
    (\<forall>ks out m. fst (get_chunks_batched lm ks out m cc) = Inl (Panic ''PoisonError''))"
proof -
  let ?br = "\<lparr> br_event = 0, br_keys = [key] \<rparr>" and ?panic = "Panic ''Waited on chunk, but chunk was not put in cache''"
  obtain cc where r: "cache_reach lm n H S False (cc_new lm max_size, [Idle [key] [], Idle [key] []])
      (cc, [Fetching [] [] ?br, Waiting [] [(key, 0)] []])" and f: "hashlink.fresh_cc lm cc [key \<mapsto> 0] [False] max_size"
    using hashlink.run_fetch_wait [OF assms(1,2), of H S False max_size key] by auto
  note fresh = f [unfolded hashlink.fresh_cc_def [OF assms(1)]]
  obtain rc where rc: "rc_insert lm key c (cc_raw cc) = Inr rc" "cached_in lm rc = Map.empty"
    using hashlink.insert_too_big [OF assms(1), of "cc_raw cc" c key] fresh assms(5,6) by auto
  define cc1 where "cc1 = cc\<lparr> cc_raw := rc, cc_pending := (cc_pending cc)(key := None), cc_closed := [True] \<rparr>"
  have "fulfill lm ?br [c] cc = (Inr (), cc1)" using fresh rc(1) by (simp add: fulfill_def with_lock_def cc1_def)
  from cache_step.fulfil [OF _ _ _ _ _ this, of 0 "[Fetching [] [] ?br, Waiting [] [(key, 0)] []]" "[]" "[]" H S n False]
  have s1: "cache_step lm n H S False (cc, [Fetching [] [] ?br, Waiting [] [(key, 0)] []]) (cc1, [Idle [] [(key, c)], Waiting [] [(key, 0)] []])"
    using assms(3,4) by (simp add: fulfilled_def store_insert_def)
  obtain rc2 where "rc_get lm key rc = (None, rc2)"
    using hashlink.rc_get_cases [OF assms(1), of key rc] rc(2) by metis
  then have "get_chunks_waited lm [(key, 0)] [] cc1 = (Inl ?panic, cc1\<lparr> cc_poisoned := True \<rparr>)"
    using fresh by (simp add: get_chunks_waited_def with_lock_def cc1_def)
  from cache_step.wake [OF _ _ _ this, of 1 "[Idle [] [(key, c)], Waiting [] [(key, 0)] []]" "[]" n H S False]
  have s2: "cache_step lm n H S False (cc1, [Idle [] [(key, c)], Waiting [] [(key, 0)] []])
      (cc1\<lparr> cc_poisoned := True \<rparr>, [Idle [] [(key, c)], Failed ?panic])"
    by (simp add: woken_def all_closed_def cc1_def)
  have "cache_reach lm n H S False (cc_new lm max_size, [Idle [key] [], Idle [key] []])
      (cc1\<lparr> cc_poisoned := True \<rparr>, [Idle [] [(key, c)], Failed ?panic])"
    using r s1 s2 unfolding cache_reach_def by (meson rtranclp.rtrancl_into_rtrancl)
  then show ?thesis
    by (intro exI [of _ "cc1\<lparr> cc_poisoned := True \<rparr>"]) (simp add: get_chunks_batched_def with_lock_def)
qed

theorem small_cache_poisons_witness:
  "\<exists>cc. cache_reach alist_map 512 pad_hash UNIV False (cc_new alist_map 2, [Idle [pad_hash [1, 2, 3]] [], Idle [pad_hash [1, 2, 3]] []])
      (cc, [Idle [] [(pad_hash [1, 2, 3], [1, 2, 3])], Failed (Panic ''Waited on chunk, but chunk was not put in cache'')]) \<and> cc_poisoned cc"
  using small_cache_poisons [OF am.hashlink_axioms, of 512 pad_hash "[1, 2, 3]" "pad_hash [1, 2, 3]" UNIV 2] by auto

end
