(* ===== verification/Protocol_Utils.thy ===== *)
theory Protocol_Utils
  imports Cache_Tasks
begin

text \<open>
  Messages and chunk transfer (\<^verbatim>\<open>common/src/protocol_utils.rs\<close>): the length-prefixed messages on a stream, the
  server's loop that answers chunk requests, and the client's chunk provider, which fetches what
  is not cached in batches through the shared chunk cache.

  \<^item> Serialisation (\<^verbatim>\<open>rmp_serde\<close>) and compression (\<^verbatim>\<open>zstd\<close>) are parameters, in a record of functions.
  \<^item> A QUIC stream pair is a parameter \<open>io\<close>: the operations \<^verbatim>\<open>write_all\<close> and \<^verbatim>\<open>read_exact\<close> on a state. \<open>pipe_io\<close> is a
    finished stream: all the input is there, and the output is collected. \<open>remote_io\<close> connects a client to a
    server given by the output it has produced for the input so far.
  \<^item> What other tasks do to the shared cache while this one awaits is the parameter \<open>env\<close>: the cache after the
    wait, given the batch this task holds or the semaphores it waits for.
\<close>

section \<open>Definitions\<close>

subsection \<open>Messages\<close>

definition MESSAGE_SIZE_LIMIT :: nat where "MESSAGE_SIZE_LIMIT = 20000000"
definition DEFAULT_ZSTD_COMPRESSION_LEVEL :: int where "DEFAULT_ZSTD_COMPRESSION_LEVEL = 11"

record message_transport =
  compression_level :: int

definition mt_new :: "int \<Rightarrow> message_transport" where
  "mt_new level = \<lparr> compression_level = level \<rparr>"

record zstd =
  zstd_encode :: "int \<Rightarrow> bytes \<Rightarrow> bytes res"
  zstd_decode :: "bytes \<Rightarrow> byte_source res"

record 'a serde =
  rmp_write :: "'a \<Rightarrow> bytes res"
  rmp_read :: "byte_source \<Rightarrow> 'a res"

definition encode_message :: "zstd \<Rightarrow> 'a serde \<Rightarrow> message_transport \<Rightarrow> 'a \<Rightarrow> bytes res" where
  "encode_message z rmp mt message = and_then (rmp_write rmp message) (zstd_encode z (compression_level mt))"

definition decode_message :: "zstd \<Rightarrow> 'a serde \<Rightarrow> message_transport \<Rightarrow> bytes \<Rightarrow> 'a res" where
  "decode_message z rmp mt msg_data = and_then (zstd_decode z msg_data) (rmp_read rmp)"

record 'n stream_io =
  io_write_all :: "bytes \<Rightarrow> 'n \<Rightarrow> unit res \<times> 'n"
  io_read_exact :: "nat \<Rightarrow> 'n \<Rightarrow> bytes res \<times> 'n"

definition write_message :: "'n stream_io \<Rightarrow> bytes \<Rightarrow> 'n \<Rightarrow> unit res \<times> 'n" where
  "write_message io msg_data s =
     (if MESSAGE_SIZE_LIMIT < length msg_data then (Inl (Panic ''Message size exceeded limit''), s)
      else case io_write_all io (put_u32_le (of_nat (length msg_data))) s of
             (Inl e, s) \<Rightarrow> (Inl e, s)
           | (Inr _, s) \<Rightarrow> io_write_all io msg_data s)"

definition read_message :: "'n stream_io \<Rightarrow> 'n \<Rightarrow> bytes res \<times> 'n" where
  "read_message io s =
     (case io_read_exact io 4 s of
        (Inl e, s) \<Rightarrow> (Inl e, s)
      | (Inr b, s) \<Rightarrow>
          (let msg_size = unat (from_le b :: u32)
           in if MESSAGE_SIZE_LIMIT < msg_size then (Inl (Panic ''Message size exceeded limit''), s)
              else io_read_exact io msg_size s))"

text \<open>Streams: a finished pair of pipes, and a client's view of a server.\<close>

definition pipe_io :: "(bytes \<times> bytes) stream_io" where
  "pipe_io = \<lparr>
     io_write_all = (\<lambda>b (i, out). (Inr (), (i, out @ b))),
     io_read_exact = (\<lambda>n (i, out). if length i < n then (Inl UnexpectedEof, ([], out)) else (Inr (take n i), (drop n i, out))) \<rparr>"

definition remote_io :: "(bytes \<Rightarrow> bytes) \<Rightarrow> (bytes \<times> nat) stream_io" where
  "remote_io respond = \<lparr>
     io_write_all = (\<lambda>b (sent, consumed). (Inr (), (sent @ b, consumed))),
     io_read_exact = (\<lambda>n (sent, consumed).
       let available = drop consumed (respond sent)
       in if length available < n then (Inl UnexpectedEof, (sent, consumed + length available))
          else (Inr (take n available), (sent, consumed + n))) \<rparr>"

subsection \<open>The server's side\<close>

record request_chunks_message =
  requested_chunks :: "chunk_key list"

record send_chunks_message =
  sm_chunks :: "bytes list"

record messages =
  m_zstd :: zstd
  m_transport :: message_transport
  m_request :: "request_chunks_message serde"
  m_send :: "send_chunks_message serde"

fun lookup_all :: "chunk_store \<Rightarrow> chunk_key list \<Rightarrow> bytes list res" where
  "lookup_all chunks [] = Inr []"
| "lookup_all chunks (key # keys) =
     (case map_of chunks key of
        None \<Rightarrow> Inl (Anyhow ''Client requested chunk that we don't have'')
      | Some c \<Rightarrow> and_then (lookup_all chunks keys) (\<lambda>cs. Inr (c # cs)))"

definition answer_request :: "messages \<Rightarrow> chunk_store \<Rightarrow> bytes \<Rightarrow> bytes res" where
  "answer_request m chunks request_data =
     and_then (decode_message (m_zstd m) (m_request m) (m_transport m) request_data) (\<lambda>request.
     and_then (lookup_all chunks (requested_chunks request)) (\<lambda>cs.
     encode_message (m_zstd m) (m_send m) (m_transport m) \<lparr> sm_chunks = cs \<rparr>))"

text \<open>One unit of fuel per request; \<open>None\<close> is a loop that still waits for requests.\<close>

primrec provide_chunks_as_requested ::
  "nat \<Rightarrow> 'n stream_io \<Rightarrow> messages \<Rightarrow> chunk_store \<Rightarrow> nat \<Rightarrow> 'n \<Rightarrow> (nat res \<times> 'n) option" where
  "provide_chunks_as_requested 0 io m chunks transferred s = None"
| "provide_chunks_as_requested (Suc fuel) io m chunks transferred s =
     (case read_message io s of
        (Inl e, s) \<Rightarrow> Some (if is_panic e then Inl e else Inr transferred, s)
      | (Inr request_data, s) \<Rightarrow>
          (case answer_request m chunks request_data of
             Inl e \<Rightarrow> Some (Inl e, s)
           | Inr response_data \<Rightarrow>
               (case write_message io response_data s of
                  (Inl e, s) \<Rightarrow> Some (Inl e, s)
                | (Inr _, s) \<Rightarrow> provide_chunks_as_requested fuel io m chunks
                    (transferred + length request_data + length response_data) s)))"

subsection \<open>The client's chunk provider\<close>

record ('m, 'n) chunk_fetcher =
  cf_cache :: "'m chunk_cache"
  cf_streams :: 'n
  cf_local :: chunk_store
  cf_pending :: "chunk_key list"
  cf_total_transferred :: nat

definition cf_new :: "'m chunk_cache \<Rightarrow> 'n \<Rightarrow> ('m, 'n) chunk_fetcher" where
  "cf_new cache streams = \<lparr> cf_cache = cache, cf_streams = streams, cf_local = [], cf_pending = [], cf_total_transferred = 0 \<rparr>"

type_synonym 'm env = "batch_request option \<Rightarrow> (chunk_key \<times> event) list \<Rightarrow> 'm chunk_cache \<Rightarrow> 'm chunk_cache"

definition cf_prefetch :: "chunk_key list \<Rightarrow> ('m, 'n) chunk_fetcher \<Rightarrow> ('m, 'n) chunk_fetcher" where
  "cf_prefetch chunks s = s\<lparr> cf_pending := cf_pending s @ filter (\<lambda>k. map_of (cf_local s) k = None) chunks \<rparr>"

text \<open>The loop over the received chunks: it stops at the first one with a wrong hash.\<close>

fun check_chunks :: "hash_fun \<Rightarrow> (chunk_key \<times> bytes) list \<Rightarrow> chunk_store \<Rightarrow> unit res \<times> chunk_store" where
  "check_chunks H [] local_cache = (Inr (), local_cache)"
| "check_chunks H ((key, chunk) # xs) local_cache =
     (if H chunk \<noteq> key then (Inl (Anyhow ''Chunk hash mismatch''), local_cache)
      else check_chunks H xs (store_insert key chunk local_cache))"

definition exchange_chunks ::
  "messages \<Rightarrow> 'n stream_io \<Rightarrow> chunk_key list \<Rightarrow> ('m, 'n) chunk_fetcher \<Rightarrow> bytes list res \<times> ('m, 'n) chunk_fetcher" where
  "exchange_chunks m io keys s =
     (case encode_message (m_zstd m) (m_request m) (m_transport m) \<lparr> requested_chunks = keys \<rparr> of
        Inl e \<Rightarrow> (Inl e, s)
      | Inr request_data \<Rightarrow>
          (let s = s\<lparr> cf_total_transferred := cf_total_transferred s + length request_data \<rparr>
           in case write_message io request_data (cf_streams s) of
                (Inl e, n) \<Rightarrow> (Inl e, s\<lparr> cf_streams := n \<rparr>)
              | (Inr _, n) \<Rightarrow>
                  (case read_message io n of
                     (Inl e, n) \<Rightarrow> (Inl e, s\<lparr> cf_streams := n \<rparr>)
                   | (Inr response_data, n) \<Rightarrow>
                       (let s = s\<lparr> cf_streams := n, cf_total_transferred := cf_total_transferred s + length response_data \<rparr>
                        in case decode_message (m_zstd m) (m_send m) (m_transport m) response_data of
                             Inl e \<Rightarrow> (Inl e, s)
                           | Inr response \<Rightarrow> (Inr (sm_chunks response), s)))))"

definition fetch_chunk_batch ::
  "'m linked_map \<Rightarrow> hash_fun \<Rightarrow> messages \<Rightarrow> 'n stream_io \<Rightarrow> 'm env \<Rightarrow> ('m, 'n) chunk_fetcher \<Rightarrow> unit res \<times> ('m, 'n) chunk_fetcher" where
  "fetch_chunk_batch lm H m io env s =
     (case get_chunks_batched lm (cf_pending s) (cf_local s) 512 (cf_cache s) of
        (Inl e, cc) \<Rightarrow> (Inl e, s\<lparr> cf_cache := cc \<rparr>)
      | (Inr (NoBatch, kept, out), cc) \<Rightarrow> (Inr (), s\<lparr> cf_cache := cc, cf_pending := kept, cf_local := out \<rparr>)
      | (Inr (Wait ws, kept, out), cc) \<Rightarrow>
          (case get_chunks_waited lm ws out (env None ws cc) of
             (Inl e, cc) \<Rightarrow> (Inl e, s\<lparr> cf_cache := cc, cf_pending := kept, cf_local := out \<rparr>)
           | (Inr out, cc) \<Rightarrow> (Inr (), s\<lparr> cf_cache := cc, cf_pending := kept, cf_local := out \<rparr>))
      | (Inr (Batch br, kept, out), cc) \<Rightarrow>
          (case exchange_chunks m io (br_keys br) (s\<lparr> cf_cache := cc, cf_pending := kept, cf_local := out \<rparr>) of
             (Inl e, s) \<Rightarrow> (Inl e, s)
           | (Inr chunks, s) \<Rightarrow>
               (case check_chunks H (zip (br_keys br) chunks) (cf_local s) of
                  (Inl e, out) \<Rightarrow> (Inl e, s\<lparr> cf_local := out \<rparr>)
                | (Inr _, out) \<Rightarrow>
                    (case fulfill lm br chunks (env (Some br) [] (cf_cache s)) of
                       (Inl e, cc) \<Rightarrow> (Inl e, s\<lparr> cf_cache := cc, cf_local := out \<rparr>)
                     | (Inr _, cc) \<Rightarrow> (Inr (), s\<lparr> cf_cache := cc, cf_local := out \<rparr>)))))"

text \<open>What the server has written after it received \<open>sent\<close>; \<open>remote_io\<close> of this is a client connected to it.\<close>

definition server_output :: "messages \<Rightarrow> chunk_store \<Rightarrow> bytes \<Rightarrow> bytes" where
  "server_output m chunks sent =
     (case provide_chunks_as_requested (Suc (length sent)) pipe_io m chunks 0 (sent, []) of
        Some (_, (_, out)) \<Rightarrow> out
      | None \<Rightarrow> [])"

text \<open>The same after the server has written \<open>hello\<close>.\<close>

definition serve :: "bytes \<Rightarrow> messages \<Rightarrow> chunk_store \<Rightarrow> bytes \<Rightarrow> bytes" where
  "serve hello m chunks sent = hello @ server_output m chunks sent"

lemma get_chunks_batched_shrinks:
  assumes "get_chunks_batched lm ks out n cc = (Inr (oc, kept, out'), cc')" "ks \<noteq> []"
  shows "length kept < length ks"
proof -
  obtain kept1 rc1 out1 batch1 where r: "retain_requested lm n (cc_pending cc) ks (cc_raw cc, out, []) = (kept1, rc1, out1, batch1)"
    by (cases "retain_requested lm n (cc_pending cc) ks (cc_raw cc, out, [])") auto
  show ?thesis
  proof (cases "batch1 = []")
    case True
    with assms r show ?thesis
      by (auto simp: get_chunks_batched_def with_lock_def and_then_Inr_iff split: if_splits sum.splits)
  next
    case False
    then have "length kept1 < length ks" using retain_shrinks [OF r] by simp
    with assms r False show ?thesis
      by (auto simp: get_chunks_batched_def with_lock_def Let_def split: if_splits)
  qed
qed

lemma exchange_chunks_frame:
  "exchange_chunks m io keys s = (r, s') \<Longrightarrow>
     cf_pending s' = cf_pending s \<and> cf_local s' = cf_local s \<and> cf_cache s' = cf_cache s"
  by (auto simp: exchange_chunks_def Let_def split: sum.splits prod.splits)

text \<open>Every round of \<^verbatim>\<open>get_chunk\<close> takes keys out of the pending list, whatever the peer and the other tasks do.\<close>

lemma fetch_chunk_batch_shrinks:
  assumes "fetch_chunk_batch lm H m io env s = (Inr u, s')" "cf_pending s \<noteq> []"
  shows "length (cf_pending s') < length (cf_pending s)"
proof -
  from assms(1) obtain oc kept out cc where
    g: "get_chunks_batched lm (cf_pending s) (cf_local s) 512 (cf_cache s) = (Inr (oc, kept, out), cc)"
    by (auto simp: fetch_chunk_batch_def split: sum.splits prod.splits)
  have "cf_pending s' = kept"
    using assms(1) by (auto simp: fetch_chunk_batch_def g split: sum.splits prod.splits batch_outcome.splits
        dest!: exchange_chunks_frame)
  with get_chunks_batched_shrinks [OF g assms(2)] show ?thesis by simp
qed

function cf_get_chunk ::
  "'m linked_map \<Rightarrow> hash_fun \<Rightarrow> messages \<Rightarrow> 'n stream_io \<Rightarrow> 'm env \<Rightarrow> chunk_key \<Rightarrow> ('m, 'n) chunk_fetcher \<Rightarrow>
   bytes res \<times> ('m, 'n) chunk_fetcher" where
  "cf_get_chunk lm H m io env key s =
     (case map_of (cf_local s) key of
        Some chunk \<Rightarrow> (Inr chunk, s)
      | None \<Rightarrow>
          (if cf_pending s = [] then (Inl (Panic ''Chunk was requested without being prefetched first''), s)
           else case fetch_chunk_batch lm H m io env s of
                  (Inl e, s') \<Rightarrow> (Inl e, s')
                | (Inr _, s') \<Rightarrow> cf_get_chunk lm H m io env key s'))"
  by pat_completeness auto
termination
  by (relation "measure (\<lambda>(lm, H, m, io, env, key, s). length (cf_pending s))")
    (auto dest: fetch_chunk_batch_shrinks [OF sym])

definition fetcher_provider ::
  "'m linked_map \<Rightarrow> hash_fun \<Rightarrow> messages \<Rightarrow> 'n stream_io \<Rightarrow> 'm env \<Rightarrow> ('m, 'n) chunk_fetcher chunk_provider" where
  "fetcher_provider lm H m io env = \<lparr> prefetch = cf_prefetch, get_chunk = cf_get_chunk lm H m io env \<rparr>"

declare cf_get_chunk.simps [simp del]

section \<open>Framing\<close>

definition frame :: "bytes \<Rightarrow> bytes" where
  "frame d = put_u32_le (of_nat (length d)) @ d"

lemma unat_frame_length: "length d \<le> MESSAGE_SIZE_LIMIT \<Longrightarrow> unat (of_nat (length d) :: u32) = length d"
  by (simp add: MESSAGE_SIZE_LIMIT_def unat_of_nat)

lemma write_message_pipe:
  "length d \<le> MESSAGE_SIZE_LIMIT \<Longrightarrow> write_message pipe_io d (i, out) = (Inr (), (i, out @ frame d))"
  by (simp add: write_message_def pipe_io_def frame_def)

lemma from_le_put_u32: "from_le (put_u32_le x) = x"
  by (simp add: put_u32_le_def from_le_to_le)

lemma take_put_u32 [simp]: "take 4 (put_u32_le x @ r) = put_u32_le x" "drop 4 (put_u32_le x @ r) = r"
  by simp_all

lemma read_message_pipe:
  assumes "length d \<le> MESSAGE_SIZE_LIMIT"
  shows "read_message pipe_io (frame d @ r, out) = (Inr d, (r, out))"
proof -
  have "unat (from_le (put_u32_le (of_nat (length d))) :: u32) = length d"
    using unat_frame_length [OF assms] by (simp add: from_le_put_u32)
  with assms show ?thesis by (simp add: read_message_def pipe_io_def frame_def Let_def)
qed

lemma read_message_pipe_short: "length i < 4 \<Longrightarrow> read_message pipe_io (i, out) = (Inl UnexpectedEof, ([], out))"
  by (simp add: read_message_def pipe_io_def)

lemma read_message_remote:
  assumes "drop consumed (respond sent) = frame d @ r" "length d \<le> MESSAGE_SIZE_LIMIT"
  shows "read_message (remote_io respond) (sent, consumed) = (Inr d, (sent, consumed + length (frame d)))"
proof -
  have "drop (consumed + 4) (respond sent) = drop 4 (drop consumed (respond sent))" by (simp add: add.commute)
  then have "drop (consumed + 4) (respond sent) = d @ r" by (simp add: assms(1) frame_def)
  moreover have "take 4 (frame d @ r) = put_u32_le (of_nat (length d))" by (simp add: frame_def)
  moreover have "length (respond sent) - consumed = 4 + length d + length r"
    using arg_cong [OF assms(1), of length] by (simp add: frame_def)
  ultimately show ?thesis
    using assms unat_frame_length [OF assms(2)]
    by (simp add: read_message_def remote_io_def Let_def from_le_put_u32) (simp add: frame_def)
qed

lemma write_message_remote:
  "length d \<le> MESSAGE_SIZE_LIMIT \<Longrightarrow> write_message (remote_io respond) d (sent, consumed) = (Inr (), (sent @ frame d, consumed))"
  by (simp add: write_message_def remote_io_def frame_def)

section \<open>The server's loop\<close>

lemma read_message_pipe_consumes:
  "read_message pipe_io (i, out) = (Inr d, (i', out')) \<Longrightarrow> length i' < length i \<and> out' = out"
  by (auto simp: read_message_def pipe_io_def Let_def split: if_splits)

lemma provide_written:
  assumes "read_message io s = (Inr d, s1)" "answer_request m chunks d = Inr resp" "write_message io resp s1 = (w, s2)"
  shows "provide_chunks_as_requested (Suc fuel) io m chunks t s =
    (case w of Inl e \<Rightarrow> Some (Inl e, s2) | Inr _ \<Rightarrow> provide_chunks_as_requested fuel io m chunks (t + length d + length resp) s2)"
  using assms by simp

lemma provide_ends: "length i < fuel \<Longrightarrow> \<exists>r. provide_chunks_as_requested fuel pipe_io m chunks t (i, out) = Some r"
proof (induction fuel arbitrary: i out t)
  case 0
  then show ?case by simp
next
  case (Suc fuel)
  obtain r i' out' where r: "read_message pipe_io (i, out) = (r, i', out')" by (metis prod.collapse)
  show ?case
  proof (cases r)
    case (Inl e)
    with r show ?thesis by simp
  next
    case req: (Inr d)
    with r have "length i' < fuel" using read_message_pipe_consumes [of i out d i' out'] Suc.prems by simp
    with Suc.IH have ends: "\<exists>r. provide_chunks_as_requested fuel pipe_io m chunks t (i', out) = Some r" for t out by blast
    show ?thesis
    proof (cases "answer_request m chunks d")
      case (Inl e)
      with r req show ?thesis by simp
    next
      case (Inr resp)
      show ?thesis
      proof (cases "MESSAGE_SIZE_LIMIT < length resp")
        case True
        then have "write_message pipe_io resp (i', out') = (Inl (Panic ''Message size exceeded limit''), i', out')"
          by (simp add: write_message_def)
        from provide_written [OF r [unfolded req] Inr this] show ?thesis by simp
      next
        case False
        then have "write_message pipe_io resp (i', out') = (Inr (), i', out' @ frame resp)" by (simp add: write_message_pipe)
        from provide_written [OF r [unfolded req] Inr this] ends show ?thesis by simp
      qed
    qed
  qed
qed

lemma provide_output:
  "provide_chunks_as_requested fuel pipe_io m chunks t (i, out) = Some (r, (i', out')) \<Longrightarrow>
    \<exists>new. out' = out @ new \<and> (\<forall>t2 out2. \<exists>r2. provide_chunks_as_requested fuel pipe_io m chunks t2 (i, out2) = Some (r2, (i', out2 @ new)))"
proof (induction fuel arbitrary: t i out)
  case (Suc fuel)
  obtain q i1 o1 where q: "read_message pipe_io (i, out) = (q, i1, o1)" by (metis prod.collapse)
  have q2: "read_message pipe_io (i, out2) = (q, i1, out2)" and o1: "o1 = out" for out2
    using q by (auto simp: read_message_def pipe_io_def Let_def split: if_splits)
  show ?case
  proof (cases q)
    case (Inl e)
    with Suc.prems q q2 o1 show ?thesis by auto
  next
    case req: (Inr d)
    show ?thesis
    proof (cases "answer_request m chunks d")
      case (Inl e)
      with Suc.prems q q2 o1 req show ?thesis by auto
    next
      case (Inr resp)
      show ?thesis
      proof (cases "length resp \<le> MESSAGE_SIZE_LIMIT")
        case True
        with Suc.prems q o1 req Inr have "provide_chunks_as_requested fuel pipe_io m chunks (t + length d + length resp) (i1, out @ frame resp) = Some (r, (i', out'))"
          by (simp add: write_message_pipe)
        from Suc.IH [OF this] obtain new where new: "out' = (out @ frame resp) @ new"
          "\<forall>t2 out2. \<exists>r2. provide_chunks_as_requested fuel pipe_io m chunks t2 (i1, out2) = Some (r2, (i', out2 @ new))" by blast
        have "\<exists>r2. provide_chunks_as_requested (Suc fuel) pipe_io m chunks t2 (i, out2) = Some (r2, (i', out2 @ frame resp @ new))" for t2 out2
          using new(2) [THEN spec, THEN spec, of "t2 + length d + length resp" "out2 @ frame resp"] q2 [of out2] req Inr True
          by (simp add: write_message_pipe)
        with new(1) show ?thesis by (intro exI [of _ "frame resp @ new"]) simp
      next
        case False
        with Suc.prems q q2 o1 req Inr show ?thesis by (auto simp: write_message_def)
      qed
    qed
  qed
qed simp

lemma provide_serves:
  "\<exists>r i'. provide_chunks_as_requested (Suc (length sent)) pipe_io m chunks t (sent, hello) = Some (r, (i', serve hello m chunks sent))"
proof -
  obtain r i' out where p: "provide_chunks_as_requested (Suc (length sent)) pipe_io m chunks 0 (sent, []) = Some (r, (i', out))"
    using provide_ends [of sent "Suc (length sent)" m chunks 0 "[]"] by (metis lessI prod.collapse)
  from provide_output [OF p] obtain r2 where
    "provide_chunks_as_requested (Suc (length sent)) pipe_io m chunks t (sent, hello) = Some (r2, (i', hello @ out))"
    by (metis append_Nil)
  with p show ?thesis by (simp add: serve_def server_output_def del: provide_chunks_as_requested.simps)
qed

lemma lookup_all_ok: "set ks \<subseteq> dom (map_of chunks) \<Longrightarrow> lookup_all chunks ks = Inr (map (\<lambda>k. the (map_of chunks k)) ks)"
  by (induction ks) auto

text \<open>
  The contract of serialisation and compression: messages of the sizes the program sends are
  encoded within the size limit, and decode to themselves.
\<close>

locale transport =
  fixes m :: messages
  assumes request_codec: "length ks \<le> 512 \<Longrightarrow> list_all (\<lambda>k. length k = OUT_LEN) ks \<Longrightarrow>
      \<exists>d. encode_message (m_zstd m) (m_request m) (m_transport m) \<lparr> requested_chunks = ks \<rparr> = Inr d \<and>
        length d \<le> MESSAGE_SIZE_LIMIT \<and>
        decode_message (m_zstd m) (m_request m) (m_transport m) d = Inr \<lparr> requested_chunks = ks \<rparr>"
    and send_codec: "length cs \<le> 512 \<Longrightarrow> list_all (\<lambda>c. length c \<le> MAX_BLOB_SIZE) cs \<Longrightarrow>
      \<exists>d. encode_message (m_zstd m) (m_send m) (m_transport m) \<lparr> sm_chunks = cs \<rparr> = Inr d \<and>
        length d \<le> MESSAGE_SIZE_LIMIT \<and>
        decode_message (m_zstd m) (m_send m) (m_transport m) d = Inr \<lparr> sm_chunks = cs \<rparr>"
begin

definition request_data :: "chunk_key list \<Rightarrow> bytes" where
  "request_data ks = projr (encode_message (m_zstd m) (m_request m) (m_transport m) \<lparr> requested_chunks = ks \<rparr>)"

definition send_data :: "bytes list \<Rightarrow> bytes" where
  "send_data cs = projr (encode_message (m_zstd m) (m_send m) (m_transport m) \<lparr> sm_chunks = cs \<rparr>)"

definition chunks_of_keys :: "chunk_store \<Rightarrow> chunk_key list \<Rightarrow> bytes list" where
  "chunks_of_keys chunks ks = map (\<lambda>k. the (map_of chunks k)) ks"

definition request_ok :: "chunk_store \<Rightarrow> chunk_key list \<Rightarrow> bool" where
  "request_ok chunks ks \<longleftrightarrow> length ks \<le> 512 \<and> list_all (\<lambda>k. length k = OUT_LEN) ks \<and> set ks \<subseteq> dom (map_of chunks)"

definition blobs_ok :: "chunk_store \<Rightarrow> bool" where
  "blobs_ok chunks \<longleftrightarrow> list_all (\<lambda>(k, b). length k = OUT_LEN \<and> length b \<le> MAX_BLOB_SIZE) chunks"

lemma request_data:
  assumes "request_ok chunks ks"
  shows "encode_message (m_zstd m) (m_request m) (m_transport m) \<lparr> requested_chunks = ks \<rparr> = Inr (request_data ks)"
    "length (request_data ks) \<le> MESSAGE_SIZE_LIMIT"
    "decode_message (m_zstd m) (m_request m) (m_transport m) (request_data ks) = Inr \<lparr> requested_chunks = ks \<rparr>"
  using request_codec [of ks] assms by (auto simp: request_ok_def request_data_def)

lemma chunks_of_keys_ok:
  assumes "blobs_ok chunks" "request_ok chunks ks"
  shows "length (chunks_of_keys chunks ks) \<le> 512" "list_all (\<lambda>c. length c \<le> MAX_BLOB_SIZE) (chunks_of_keys chunks ks)"
proof -
  have "length (the (map_of chunks k)) \<le> MAX_BLOB_SIZE" if "k \<in> set ks" for k
  proof -
    from that assms(2) obtain b where b: "map_of chunks k = Some b" by (auto simp: request_ok_def)
    then have "(k, b) \<in> set chunks" by (rule map_of_SomeD)
    with assms(1) b show ?thesis by (auto simp: blobs_ok_def list_all_iff)
  qed
  then show "list_all (\<lambda>c. length c \<le> MAX_BLOB_SIZE) (chunks_of_keys chunks ks)"
    by (simp add: chunks_of_keys_def list_all_iff)
  show "length (chunks_of_keys chunks ks) \<le> 512" using assms(2) by (simp add: chunks_of_keys_def request_ok_def)
qed

lemma send_data:
  assumes "blobs_ok chunks" "request_ok chunks ks"
  shows "encode_message (m_zstd m) (m_send m) (m_transport m) \<lparr> sm_chunks = chunks_of_keys chunks ks \<rparr> =
      Inr (send_data (chunks_of_keys chunks ks))"
    "length (send_data (chunks_of_keys chunks ks)) \<le> MESSAGE_SIZE_LIMIT"
    "decode_message (m_zstd m) (m_send m) (m_transport m) (send_data (chunks_of_keys chunks ks)) =
      Inr \<lparr> sm_chunks = chunks_of_keys chunks ks \<rparr>"
  using send_codec [OF chunks_of_keys_ok [OF assms]] by (auto simp: send_data_def)

lemma answer_request_ok:
  assumes "blobs_ok chunks" "request_ok chunks ks"
  shows "answer_request m chunks (request_data ks) = Inr (send_data (chunks_of_keys chunks ks))"
proof -
  have "lookup_all chunks ks = Inr (chunks_of_keys chunks ks)"
    using assms(2) unfolding chunks_of_keys_def by (intro lookup_all_ok) (simp add: request_ok_def)
  then show ?thesis
    by (simp add: answer_request_def request_data(3) [OF assms(2)] send_data(1) [OF assms])
qed

definition requests :: "chunk_key list list \<Rightarrow> bytes" where
  "requests kss = concat (map (\<lambda>ks. frame (request_data ks)) kss)"

definition responses :: "chunk_store \<Rightarrow> chunk_key list list \<Rightarrow> bytes" where
  "responses chunks kss = concat (map (\<lambda>ks. frame (send_data (chunks_of_keys chunks ks))) kss)"

lemma provide_answers:
  assumes "blobs_ok chunks" "list_all (request_ok chunks) kss" "length kss < fuel"
  shows "\<exists>t'. provide_chunks_as_requested fuel pipe_io m chunks t (requests kss, out) = Some (Inr t', ([], out @ responses chunks kss))"
  using assms(2,3)
proof (induction kss arbitrary: fuel t out)
  case Nil
  then obtain f where "fuel = Suc f" by (cases fuel) auto
  then show ?case by (simp add: requests_def responses_def read_message_pipe_short)
next
  case (Cons ks kss)
  then obtain f where f: "fuel = Suc f" "length kss < f" by (cases fuel) auto
  from Cons.prems have ok: "request_ok chunks ks" by simp
  have "read_message pipe_io (requests (ks # kss), out) = (Inr (request_data ks), (requests kss, out))"
    using read_message_pipe [OF request_data(2) [OF ok], of "requests kss" out] by (simp add: requests_def)
  then show ?case
    using Cons.IH [OF _ f(2), of _ "out @ frame (send_data (chunks_of_keys chunks ks))"] Cons.prems(1)
    by (simp add: f(1) answer_request_ok [OF assms(1) ok] write_message_pipe [OF send_data(2) [OF assms(1) ok]] responses_def)
qed

lemma server_output_requests:
  assumes "blobs_ok chunks" "list_all (request_ok chunks) kss"
  shows "server_output m chunks (requests kss) = responses chunks kss"
proof -
  have "length kss \<le> length (requests kss)"
    by (induction kss) (simp_all add: requests_def frame_def)
  then have "length kss < Suc (length (requests kss))" by simp
  from provide_answers [OF assms this, of 0 "[]"] show ?thesis by (auto simp: server_output_def)
qed

text \<open>The state of a connection on which every request has been answered.\<close>

definition conn_ok :: "bytes \<Rightarrow> chunk_store \<Rightarrow> bytes \<times> nat \<Rightarrow> bool" where
  "conn_ok hello chunks c \<longleftrightarrow>
     (\<exists>kss. list_all (request_ok chunks) kss \<and> c = (requests kss, length hello + length (responses chunks kss)))"

lemma conn_ok_start: "conn_ok hello chunks ([], length hello)"
  unfolding conn_ok_def by (intro exI [of _ "[]"]) (simp add: requests_def responses_def)

lemma exchange_chunks_ok:
  assumes "blobs_ok chunks" "request_ok chunks ks" "conn_ok hello chunks (cf_streams s)"
  shows "\<exists>s'. exchange_chunks m (remote_io (serve hello m chunks)) ks s = (Inr (chunks_of_keys chunks ks), s') \<and>
    conn_ok hello chunks (cf_streams s') \<and> cf_pending s' = cf_pending s \<and> cf_local s' = cf_local s \<and> cf_cache s' = cf_cache s"
proof -
  from assms(3) obtain kss where kss: "list_all (request_ok chunks) kss"
    "cf_streams s = (requests kss, length hello + length (responses chunks kss))" by (auto simp: conn_ok_def)
  let ?req = "request_data ks" and ?resp = "send_data (chunks_of_keys chunks ks)"
  have more: "list_all (request_ok chunks) (kss @ [ks])" using kss(1) assms(2) by simp
  have req: "requests (kss @ [ks]) = requests kss @ frame ?req" by (simp add: requests_def)
  have resp: "responses chunks (kss @ [ks]) = responses chunks kss @ frame ?resp" by (simp add: responses_def)
  have "drop (length hello + length (responses chunks kss)) (serve hello m chunks (requests kss @ frame ?req)) = frame ?resp @ []"
    using server_output_requests [OF assms(1) more] by (simp add: serve_def req resp)
  from read_message_remote [where respond = "serve hello m chunks", OF this send_data(2) [OF assms(1,2)]]
  have read: "read_message (remote_io (serve hello m chunks)) (requests kss @ frame ?req, length hello + length (responses chunks kss)) =
      (Inr ?resp, (requests (kss @ [ks]), length hello + length (responses chunks (kss @ [ks]))))" by (simp add: req resp)
  have "conn_ok hello chunks (requests (kss @ [ks]), length hello + length (responses chunks (kss @ [ks])))"
    using more unfolding conn_ok_def by blast
  then show ?thesis
    by (simp add: exchange_chunks_def request_data(1) [OF assms(2)] kss(2) read
        write_message_remote [OF request_data(2) [OF assms(2)]] send_data(3) [OF assms(1,2)])
qed

end

section \<open>The chunk provider\<close>

text \<open>The cache of a client and the chunks of a server agree on the keys both have.\<close>

definition cache_agrees :: "'m linked_map \<Rightarrow> (chunk_key \<Rightarrow> bytes option) \<Rightarrow> 'm chunk_cache \<Rightarrow> bool" where
  "cache_agrees lm content cc \<longleftrightarrow> shared_ok lm cc \<and>
     (\<forall>k b. cached_in lm (cc_raw cc) k = Some b \<longrightarrow> k \<in> dom content \<longrightarrow> content k = Some b)"

definition holds_batch :: "batch_request \<Rightarrow> 'm chunk_cache \<Rightarrow> bool" where
  "holds_batch br cc \<longleftrightarrow> br_event br < length (cc_closed cc) \<and> (\<forall>k. cc_pending cc k = Some (br_event br) \<longleftrightarrow> k \<in> set (br_keys br))"

text \<open>
  What a task relies on while it awaits: the others keep the cache consistent and leave its batch
  alone; and when the semaphores it waits for have been closed, the chunks are in the cache.
\<close>

definition env_ok :: "'m linked_map \<Rightarrow> (chunk_key \<Rightarrow> bytes option) \<Rightarrow> 'm env \<Rightarrow> bool" where
  "env_ok lm content env \<longleftrightarrow>
     (\<forall>br cc. cache_agrees lm content cc \<longrightarrow> holds_batch br cc \<longrightarrow>
        cache_agrees lm content (env (Some br) [] cc) \<and> holds_batch br (env (Some br) [] cc)) \<and>
     (\<forall>ws cc. cache_agrees lm content cc \<longrightarrow> (\<forall>(k, e) \<in> set ws. cc_pending cc k = Some e \<and> k \<in> dom content) \<longrightarrow>
        cache_agrees lm content (env None ws cc) \<and> (\<forall>(k, e) \<in> set ws. cached_in lm (cc_raw (env None ws cc)) k \<noteq> None))"

lemma check_chunks_ok: "list_all (\<lambda>(k, c). H c = k) xs \<Longrightarrow> check_chunks H xs out = (Inr (), rev xs @ out)"
  by (induction H xs out rule: check_chunks.induct) (auto simp: store_insert_def)

locale fetch_setting = hashlink lm + transport m
  for lm :: "'m linked_map" and m :: messages +
  fixes H :: hash_fun and env :: "'m env" and chunks :: chunk_store and hello :: bytes
  assumes blobs: "blobs_ok chunks"
    and addressed: "list_all (\<lambda>(k, b). k = H b) chunks"
    and env: "env_ok lm (map_of chunks) env"
begin

abbreviation "content \<equiv> map_of chunks"
abbreviation "server \<equiv> remote_io (serve hello m chunks)"

definition local_ok :: "chunk_store \<Rightarrow> bool" where
  "local_ok out \<longleftrightarrow> (\<forall>k b. map_of out k = Some b \<longrightarrow> k \<in> dom content \<longrightarrow> content k = Some b)"

definition ready :: "('m, bytes \<times> nat) chunk_fetcher \<Rightarrow> chunk_key set \<Rightarrow> bool" where
  "ready s P \<longleftrightarrow> cache_agrees lm content (cf_cache s) \<and> conn_ok hello chunks (cf_streams s) \<and>
     local_ok (cf_local s) \<and> set (cf_pending s) \<subseteq> dom content \<and>
     P \<subseteq> dom (map_of (cf_local s)) \<union> set (cf_pending s)"

lemma prefetch_ready: "ready s P \<Longrightarrow> set ks \<subseteq> dom content \<Longrightarrow> ready (cf_prefetch ks s) (P \<union> set ks)"
  unfolding ready_def cf_prefetch_def by (auto simp: dom_def)

lemma content_key: "content k = Some b \<Longrightarrow> k = H b \<and> length k = OUT_LEN"
  using addressed blobs by (auto simp: list_all_iff blobs_ok_def dest!: map_of_SomeD)

lemma local_agrees:
  assumes "local_ok out" "\<forall>(k, b) \<in> set new. k \<in> dom content \<longrightarrow> content k = Some b"
  shows "local_ok (new @ out)"
  unfolding local_ok_def
proof (intro allI impI)
  fix k b assume k: "map_of (new @ out) k = Some b" "k \<in> dom content"
  then consider "map_of new k = Some b" | "map_of out k = Some b" by (auto simp: map_add_Some_iff)
  then show "content k = Some b"
  proof cases
    case 1
    then have "(k, b) \<in> set new" by (rule map_of_SomeD)
    with assms(2) k(2) show ?thesis by blast
  next
    case 2
    with assms(1) k(2) show ?thesis by (simp add: local_ok_def)
  qed
qed

lemma agrees_cached:
  "cache_agrees lm content cc \<Longrightarrow> \<forall>(k, b) \<in> set new. cached (cc_raw cc) k = Some b \<Longrightarrow>
     \<forall>(k, b) \<in> set new. k \<in> dom content \<longrightarrow> content k = Some b"
  unfolding cache_agrees_def by blast

lemma env_batch:
  "cache_agrees lm content cc \<Longrightarrow> holds_batch br cc \<Longrightarrow>
     cache_agrees lm content (env (Some br) [] cc) \<and> holds_batch br (env (Some br) [] cc)"
  using env by (simp add: env_ok_def)

lemma env_wait:
  "cache_agrees lm content cc \<Longrightarrow> \<forall>(k, e) \<in> set ws. cc_pending cc k = Some e \<and> k \<in> dom content \<Longrightarrow>
     cache_agrees lm content (env None ws cc) \<and> (\<forall>(k, e) \<in> set ws. cached (cc_raw (env None ws cc)) k \<noteq> None)"
  using env unfolding env_ok_def by blast

lemma fulfill_agrees:
  assumes "cache_agrees lm content cc" "holds_batch br cc" "set (br_keys br) \<subseteq> dom content"
  shows "\<exists>cc'. fulfill lm br (chunks_of_keys chunks (br_keys br)) cc = (Inr (), cc') \<and> cache_agrees lm content cc'"
proof -
  let ?cs = "chunks_of_keys chunks (br_keys br)"
  have ok: "cc_ok cc" using assms(1) by (simp add: cache_agrees_def)
  have len: "length ?cs = length (br_keys br)" by (simp add: chunks_of_keys_def)
  obtain rc where rc: "fulfill lm br ?cs cc = (Inr (), cc\<lparr> cc_raw := rc, cc_pending := cc_pending cc |` (- set (br_keys br)),
      cc_closed := (cc_closed cc)[br_event br := True] \<rparr>)" "cc_ok (snd (fulfill lm br ?cs cc))"
    "\<forall>k b. cached rc k = Some b \<longrightarrow> (k, b) \<in> set (zip (br_keys br) ?cs) \<or> cached (cc_raw cc) k = Some b"
    using fulfill_spec [OF ok len] assms(2) unfolding holds_batch_def by metis
  have "content k = Some b" if "(k, b) \<in> set (zip (br_keys br) ?cs)" for k b
    using that assms(3) by (auto simp: chunks_of_keys_def zip_map2 set_zip dest!: nth_mem)
  then have "content k = Some b" if "cached rc k = Some b" "k \<in> dom content" for k b
    using that rc(3) assms(1) unfolding cache_agrees_def by blast
  with rc(1,2) show ?thesis by (simp add: cache_agrees_def)
qed

lemma fetch_wait_ready:
  assumes r: "ready s P"
    and g: "get_chunks_batched lm (cf_pending s) (cf_local s) 512 (cf_cache s) =
      (Inr (if ws = [] then NoBatch else Wait ws, [], new @ cf_local s), (cf_cache s)\<lparr> cc_raw := rc \<rparr>)"
    and rc: "rc_ok rc" "cached rc = cached (cc_raw (cf_cache s))" "rc_max_size rc = rc_max_size (cc_raw (cf_cache s))"
    and ws: "\<forall>(k, e) \<in> set ws. cc_pending (cf_cache s) k = Some e \<and> k \<in> set (cf_pending s)"
    and all: "set (cf_pending s) \<subseteq> fst ` set new \<union> fst ` set ws"
    and new: "\<forall>(k, b) \<in> set new. cached (cc_raw (cf_cache s)) k = Some b"
  shows "\<exists>s'. fetch_chunk_batch lm H m server env s = (Inr (), s') \<and> ready s' P"
proof -
  have agrees: "cache_agrees lm content (cf_cache s)" and loc: "local_ok (cf_local s)"
    and pend: "set (cf_pending s) \<subseteq> dom content" and P: "P \<subseteq> dom (map_of (cf_local s)) \<union> set (cf_pending s)"
    and conn: "conn_ok hello chunks (cf_streams s)"
    using r by (auto simp: ready_def)
  define cc where "cc = (cf_cache s)\<lparr> cc_raw := rc \<rparr>"
  have cc: "cache_agrees lm content cc" using agrees rc(1,2) by (simp add: cache_agrees_def shared_ok_def cc_def)
  have loc1: "local_ok (new @ cf_local s)" using local_agrees [OF loc agrees_cached [OF agrees new]] .
  show ?thesis
  proof (cases "ws = []")
    case True
    with g have "fetch_chunk_batch lm H m server env s = (Inr (), s\<lparr> cf_cache := cc, cf_pending := [], cf_local := new @ cf_local s \<rparr>)"
      by (simp add: fetch_chunk_batch_def cc_def)
    moreover have "P \<subseteq> dom (map_of (new @ cf_local s))" 
      using P all True unfolding dom_map_of_conv_image_fst by (simp add: image_Un) blast
    ultimately show ?thesis using cc loc1 conn by (simp add: ready_def)
  next
    case False
    let ?cc = "env None ws cc"
    have "\<forall>(k, e) \<in> set ws. cc_pending cc k = Some e \<and> k \<in> dom content" using ws pend by (auto simp: cc_def)
    from env_wait [OF cc this] have cc': "cache_agrees lm content ?cc" "\<forall>(k, e) \<in> set ws. cached (cc_raw ?cc) k \<noteq> None" by auto
    then have ok': "rc_ok (cc_raw ?cc)" "\<not> cc_poisoned ?cc" by (simp_all add: cache_agrees_def shared_ok_def)
    from collect_waited_ok [OF ok'(1) cc'(2)] obtain rc' out' where
      c: "collect_waited lm ws (cc_raw ?cc) (new @ cf_local s) = Inr (rc', out')" by blast
    from collect_waited_state [OF c ok'(1)] obtain new' where c': "rc_ok rc'" "cached rc' = cached (cc_raw ?cc)"
      "out' = new' @ new @ cf_local s" "\<forall>(k, b) \<in> set new'. cached (cc_raw ?cc) k = Some b" "fst ` set ws \<subseteq> fst ` set new'"
      by blast
    have "fetch_chunk_batch lm H m server env s = (Inr (), s\<lparr> cf_cache := ?cc\<lparr> cc_raw := rc' \<rparr>, cf_pending := [], cf_local := out' \<rparr>)"
      using g False c ok'(2) by (simp add: fetch_chunk_batch_def get_chunks_waited_def with_lock_def cc_def)
    moreover have "cache_agrees lm content (?cc\<lparr> cc_raw := rc' \<rparr>)"
      using cc'(1) c'(1,2) by (simp add: cache_agrees_def shared_ok_def)
    moreover have "local_ok out'" unfolding c'(3) using local_agrees [OF loc1 agrees_cached [OF cc'(1) c'(4)]] .
    moreover have "P \<subseteq> dom (map_of out')" 
      using P all c'(5) unfolding c'(3) dom_map_of_conv_image_fst by (simp add: image_Un) blast
    ultimately show ?thesis using conn by (simp add: ready_def)
  qed
qed

lemma batch_agrees:
  assumes agrees: "cache_agrees lm content old"
    and cc: "cc = old\<lparr> cc_raw := rc, cc_closed := cc_closed old @ [False],
      cc_pending := cc_pending old ++ (\<lambda>k. if k \<in> set (br_keys br) then Some (br_event br) else None) \<rparr>"
    and rc: "rc_ok rc" "cached rc = cached (cc_raw old)"
    and br: "br_event br = length (cc_closed old)" "\<forall>k \<in> set (br_keys br). cached (cc_raw old) k = None \<and> cc_pending old k = None"
  shows "cache_agrees lm content cc \<and> holds_batch br cc"
proof -
  have ok: "cc_ok old" using agrees by (simp add: cache_agrees_def)
  have pend: "cc_pending cc k = (if k \<in> set (br_keys br) then Some (length (cc_closed old)) else cc_pending old k)" for k
    by (simp add: cc br(1) map_add_def)
  have old: "e < length (cc_closed old) \<and> \<not> cc_closed old ! e \<and> cached (cc_raw old) k = None" if "cc_pending old k = Some e" for k e
    using ok that by (simp add: shared_ok_def)
  have "e < length (cc_closed cc) \<and> \<not> cc_closed cc ! e \<and> cached (cc_raw cc) k = None" if "cc_pending cc k = Some e" for k e
    using that old [of k e] br(2) rc(2) unfolding pend by (auto simp: cc nth_append split: if_splits)
  then have "cc_ok cc" using ok rc(1) by (simp add: shared_ok_def cc)
  moreover have "holds_batch br cc"
    using old unfolding holds_batch_def pend br(1) by (auto simp: cc)
  ultimately show ?thesis using agrees rc(2) by (simp add: cache_agrees_def cc)
qed

lemma fetch_batch_ready:
  assumes r: "ready s P"
    and g: "get_chunks_batched lm (cf_pending s) (cf_local s) 512 (cf_cache s) = (Inr (Batch br, kept, new @ cf_local s), cc)"
    and cc: "cc = (cf_cache s)\<lparr> cc_raw := rc, cc_closed := cc_closed (cf_cache s) @ [False],
      cc_pending := cc_pending (cf_cache s) ++ (\<lambda>k. if k \<in> set (br_keys br) then Some (br_event br) else None) \<rparr>"
    and rc: "rc_ok rc" "cached rc = cached (cc_raw (cf_cache s))"
    and br: "br_event br = length (cc_closed (cf_cache s))" "length (br_keys br) \<le> 512"
      "\<forall>k \<in> set (br_keys br). cached (cc_raw (cf_cache s)) k = None \<and> cc_pending (cf_cache s) k = None"
    and sub: "set (br_keys br) \<union> set kept \<subseteq> set (cf_pending s)"
    and all: "set (cf_pending s) \<subseteq> fst ` set new \<union> set (br_keys br) \<union> set kept"
    and new: "\<forall>(k, b) \<in> set new. cached (cc_raw (cf_cache s)) k = Some b"
  shows "\<exists>s'. fetch_chunk_batch lm H m server env s = (Inr (), s') \<and> ready s' P"
proof -
  have agrees: "cache_agrees lm content (cf_cache s)" and loc: "local_ok (cf_local s)"
    and pend: "set (cf_pending s) \<subseteq> dom content" and P: "P \<subseteq> dom (map_of (cf_local s)) \<union> set (cf_pending s)"
    and conn: "conn_ok hello chunks (cf_streams s)"
    using r by (auto simp: ready_def)
  have cc_ok: "cache_agrees lm content cc \<and> holds_batch br cc"
    using batch_agrees [OF agrees cc rc br(1,3)] .
  let ?cc = "env (Some br) [] cc" and ?cs = "chunks_of_keys chunks (br_keys br)" and ?zs = "zip (br_keys br) (chunks_of_keys chunks (br_keys br))"
  have keys: "set (br_keys br) \<subseteq> dom content" using sub pend by blast
  from env_batch [of cc br] cc_ok fulfill_agrees [OF _ _ keys, of ?cc] obtain cc' where
    f: "fulfill lm br ?cs ?cc = (Inr (), cc')" "cache_agrees lm content cc'" by blast
  have "list_all (\<lambda>k. length k = OUT_LEN) (br_keys br)" using keys content_key by (auto simp: list_all_iff)
  with br(2) keys have req: "request_ok chunks (br_keys br)" by (simp add: request_ok_def)
  let ?s = "s\<lparr> cf_cache := cc, cf_pending := kept, cf_local := new @ cf_local s \<rparr>"
  from exchange_chunks_ok [OF blobs req, where s = ?s and hello = hello] conn obtain s1 where
    x: "exchange_chunks m server (br_keys br) ?s = (Inr ?cs, s1)" "conn_ok hello chunks (cf_streams s1)"
    "cf_pending s1 = kept" "cf_local s1 = new @ cf_local s" "cf_cache s1 = cc" by auto
  have zs: "content k = Some b" if "(k, b) \<in> set ?zs" for k b
    using that keys by (auto simp: chunks_of_keys_def zip_map2 set_zip dest!: nth_mem)
  then have "list_all (\<lambda>(k, c). H c = k) ?zs" using content_key by (auto simp: list_all_iff)
  then have "fetch_chunk_batch lm H m server env s = (Inr (), s1\<lparr> cf_cache := cc', cf_local := rev ?zs @ new @ cf_local s \<rparr>)"
    using f(1) x by (simp add: fetch_chunk_batch_def g check_chunks_ok)
  moreover have "local_ok (rev ?zs @ new @ cf_local s)"
    using zs by (intro local_agrees [OF local_agrees [OF loc agrees_cached [OF agrees new]]]) auto
  moreover have "fst ` set ?zs = set (br_keys br)" by (metis chunks_of_keys_def length_map list.set_map map_fst_zip)
  then have "P \<subseteq> dom (map_of (rev ?zs @ new @ cf_local s)) \<union> set kept"
    using P all unfolding dom_map_of_conv_image_fst by (simp add: image_Un) blast
  moreover have "set kept \<subseteq> dom content" using sub pend by blast
  ultimately show ?thesis using f(2) x(2,3) by (auto simp: ready_def)
qed

text \<open>One round of fetching always succeeds, and what was asked for is still at hand or on its way.\<close>

lemma fetch_ready:
  assumes r: "ready s P"
  shows "\<exists>s'. fetch_chunk_batch lm H m server env s = (Inr (), s') \<and> ready s' P"
proof -
  have agrees: "cache_agrees lm content (cf_cache s)" and loc: "local_ok (cf_local s)"
    and pend: "set (cf_pending s) \<subseteq> dom content" and P: "P \<subseteq> dom (map_of (cf_local s)) \<union> set (cf_pending s)"
    and conn: "conn_ok hello chunks (cf_streams s)"
    using r by (auto simp: ready_def)
  then have ok: "cc_ok (cf_cache s)" by (simp add: cache_agrees_def)
  show ?thesis
  proof (cases rule: get_chunks_batched_cases [OF ok, of 512 "cf_pending s" "cf_local s", case_names pos batch waiting])
    case pos
    then show ?case by simp
  next
    case (batch kept new br rc)
    then show ?thesis by (intro fetch_batch_ready [OF r batch(1) refl])
  next
    case (waiting new ws rc)
    then show ?thesis by (intro fetch_wait_ready [OF r])
  qed
qed

lemma get_chunk_ready:
  assumes "ready s P" "k \<in> P" "content k = Some b"
  shows "\<exists>s'. cf_get_chunk lm H m server env k s = (Inr b, s') \<and> ready s' P"
  using assms(1)
proof (induction "length (cf_pending s)" arbitrary: s rule: less_induct)
  case less
  show ?case
  proof (cases "map_of (cf_local s) k")
    case (Some c)
    then have "content k = Some c" using less.prems assms(3) unfolding ready_def local_ok_def by blast
    with Some assms(3) less.prems show ?thesis by (simp add: cf_get_chunk.simps)
  next
    case None
    with less.prems assms(2) have pend: "cf_pending s \<noteq> []" by (auto simp: ready_def)
    obtain s' where s': "fetch_chunk_batch lm H m server env s = (Inr (), s')" "ready s' P"
      using fetch_ready [OF less.prems] by blast
    from less.hyps [OF fetch_chunk_batch_shrinks [OF s'(1) pend] s'(2)] None pend s'(1) show ?thesis
      by (simp add: cf_get_chunk.simps [of lm H m server env k s])
  qed
qed

lemma ready_new: "cache_agrees lm content cc \<Longrightarrow> ready (cf_new cc ([], length hello)) {}"
  by (simp add: ready_def cf_new_def conn_ok_start local_ok_def)

end

sublocale fetch_setting \<subseteq> fetched: chunk_source "fetcher_provider lm H m (remote_io (serve hello m chunks)) env" "map_of chunks" ready
  by unfold_locales (auto simp: fetcher_provider_def intro: prefetch_ready dest: get_chunk_ready)

section \<open>An implementation of the contracts\<close>

text \<open>A plain serialisation without compression, and other tasks that finish what a task waits for.\<close>

definition enc_blob :: "bytes \<Rightarrow> bytes" where
  "enc_blob x = put_u32_le (of_nat (length x)) @ x"

definition dec_blob :: "bytes \<Rightarrow> (bytes \<times> bytes) res" where
  "dec_blob b = and_then (try_get_u32_le b) (\<lambda>(n, r). try_take (unat n) r)"

interpretation blobc: codec "\<lambda>x. length x < 2 ^ 32" enc_blob dec_blob
proof
  fix x r :: bytes assume "length x < 2 ^ 32"
  then show "dec_blob (enc_blob x @ r) = Inr (x, r)"
    by (simp add: dec_blob_def enc_blob_def u32c.dec_enc unat_of_nat)
next
  fix b x r assume "dec_blob b = Inr (x, r)"
  then obtain n q where n: "try_get_u32_le b = Inr (n, q)" "q = x @ r" "length x = unat n"
    by (auto simp: dec_blob_def and_then_Inr_iff try_take_Inr_iff)
  moreover have "unat n < 2 ^ 32" using unsigned_less [of n, where 'a = nat] by simp
  ultimately show "length x < 2 ^ 32 \<and> b = enc_blob x @ r"
    using u32c.dec_sound [OF n(1)] by (simp add: enc_blob_def)
qed

definition enc_blobs :: "bytes list \<Rightarrow> bytes" where
  "enc_blobs xs = put_u32_le (of_nat (length xs)) @ concat (map enc_blob xs)"

definition dec_blobs :: "bytes \<Rightarrow> bytes list res" where
  "dec_blobs b = and_then (try_get_u32_le b) (\<lambda>(n, r). and_then (get_many dec_blob (unat n) r) (\<lambda>(xs, _). Inr xs))"

definition plain_messages :: messages where
  "plain_messages = \<lparr>
     m_zstd = \<lparr> zstd_encode = (\<lambda>_ b. Inr b), zstd_decode = (\<lambda>b. Inr (b, UnexpectedEof)) \<rparr>,
     m_transport = mt_new DEFAULT_ZSTD_COMPRESSION_LEVEL,
     m_request = \<lparr> rmp_write = (\<lambda>q. Inr (enc_blobs (requested_chunks q))),
       rmp_read = (\<lambda>src. and_then (dec_blobs (fst src)) (\<lambda>xs. Inr \<lparr> requested_chunks = xs \<rparr>)) \<rparr>,
     m_send = \<lparr> rmp_write = (\<lambda>q. Inr (enc_blobs (sm_chunks q))),
       rmp_read = (\<lambda>src. and_then (dec_blobs (fst src)) (\<lambda>xs. Inr \<lparr> sm_chunks = xs \<rparr>)) \<rparr> \<rparr>"

lemma dec_blobs_enc:
  assumes "length xs \<le> 512" "list_all (\<lambda>x. length x \<le> MAX_BLOB_SIZE) xs"
  shows "dec_blobs (enc_blobs xs) = Inr xs" "length (enc_blobs xs) \<le> MESSAGE_SIZE_LIMIT"
proof -
  have "list_all (\<lambda>x. length x < 2 ^ 32) xs" using assms(2) by (auto simp: list_all_iff MAX_BLOB_SIZE_def)
  from blobc.get_many_enc [OF this refl, of "[]"] show "dec_blobs (enc_blobs xs) = Inr xs"
    using assms(1) by (simp add: dec_blobs_def enc_blobs_def u32c.dec_enc unat_of_nat)
  have "length (concat (map enc_blob xs)) \<le> length xs * (4 + MAX_BLOB_SIZE)"
    using assms(2) by (induction xs) (simp_all add: enc_blob_def)
  also have "\<dots> \<le> 512 * (4 + MAX_BLOB_SIZE)" using assms(1) by (rule mult_le_mono1)
  finally show "length (enc_blobs xs) \<le> MESSAGE_SIZE_LIMIT"
    by (simp add: enc_blobs_def MESSAGE_SIZE_LIMIT_def MAX_BLOB_SIZE_def)
qed

interpretation plain: transport plain_messages
proof
  fix ks :: "chunk_key list" assume "length ks \<le> 512" "list_all (\<lambda>k. length k = OUT_LEN) ks"
  moreover from this(2) have "list_all (\<lambda>x. length x \<le> MAX_BLOB_SIZE) ks"
    by (auto simp: list_all_iff OUT_LEN_def MAX_BLOB_SIZE_def)
  ultimately show "\<exists>d. encode_message (m_zstd plain_messages) (m_request plain_messages) (m_transport plain_messages) \<lparr> requested_chunks = ks \<rparr> = Inr d \<and>
      length d \<le> MESSAGE_SIZE_LIMIT \<and>
      decode_message (m_zstd plain_messages) (m_request plain_messages) (m_transport plain_messages) d = Inr \<lparr> requested_chunks = ks \<rparr>"
    using dec_blobs_enc [of ks] by (simp add: encode_message_def decode_message_def plain_messages_def)
next
  fix cs :: "bytes list" assume "length cs \<le> 512" "list_all (\<lambda>c. length c \<le> MAX_BLOB_SIZE) cs"
  then show "\<exists>d. encode_message (m_zstd plain_messages) (m_send plain_messages) (m_transport plain_messages) \<lparr> sm_chunks = cs \<rparr> = Inr d \<and>
      length d \<le> MESSAGE_SIZE_LIMIT \<and>
      decode_message (m_zstd plain_messages) (m_send plain_messages) (m_transport plain_messages) d = Inr \<lparr> sm_chunks = cs \<rparr>"
    using dec_blobs_enc [of cs] by (simp add: encode_message_def decode_message_def plain_messages_def)
qed

definition finished_map :: "(chunk_key \<Rightarrow> bytes option) \<Rightarrow> (chunk_key \<times> event) list \<Rightarrow> (chunk_key, bytes) alist" where
  "finished_map content ws =
     fold (\<lambda>(k, e). DAList.update k (the (content k))) (filter (\<lambda>(k, e). content k \<noteq> None) ws) DAList.empty"

definition finishing_env :: "(chunk_key \<Rightarrow> bytes option) \<Rightarrow> (chunk_key, bytes) alist env" where
  "finishing_env content b ws cc =
     (if ws = [] then cc
      else cc\<lparr> cc_raw := \<lparr> rc_chunks = finished_map content ws,
          rc_total_size = of_nat (sizes (DAList.impl_of (finished_map content ws))), rc_max_size = - 1 \<rparr>,
        cc_pending := Map.empty \<rparr>)"

lemma finished_lookup:
  "DAList.lookup (fold (\<lambda>(k, e). DAList.update k (the (content k))) ws m) k =
     (if k \<in> fst ` set ws then Some (the (content k)) else DAList.lookup m k)"
  by (induction ws arbitrary: m) (auto simp: lookup_update)

lemma finished_cached:
  "cached_in alist_map \<lparr> rc_chunks = finished_map content ws, rc_total_size = t, rc_max_size = x \<rparr> k =
     (if k \<in> fst ` set ws then content k else None)"
proof -
  have "k \<in> fst ` set (filter (\<lambda>(k, e). content k \<noteq> None) ws) \<longleftrightarrow> k \<in> fst ` set ws \<and> content k \<noteq> None" by force
  moreover have "cached_in alist_map \<lparr> rc_chunks = finished_map content ws, rc_total_size = t, rc_max_size = x \<rparr> k =
      DAList.lookup (finished_map content ws) k"
    by (simp add: cached_in_def cache_entries_def alist_map_def lookup.rep_eq)
  ultimately show ?thesis
    unfolding finished_map_def finished_lookup by (auto simp: lookup_empty)
qed

lemma finished_ok:
  "cache_ok alist_map \<lparr> rc_chunks = finished_map content ws,
     rc_total_size = of_nat (sizes (DAList.impl_of (finished_map content ws))), rc_max_size = - 1 \<rparr>"
  by (simp add: cache_ok_def cache_entries_def alist_map_def)

lemma finishing_env_ok: "env_ok alist_map content (finishing_env content)"
proof -
  have "cache_agrees alist_map content (finishing_env content None ws cc) \<and>
      (\<forall>(k, e) \<in> set ws. cached_in alist_map (cc_raw (finishing_env content None ws cc)) k \<noteq> None)"
    if "cache_agrees alist_map content cc" "\<forall>(k, e) \<in> set ws. cc_pending cc k = Some e \<and> k \<in> dom content" for ws cc
  proof (cases "ws = []")
    case True
    with that(1) show ?thesis by (simp add: finishing_env_def)
  next
    case False
    have "\<not> cc_poisoned cc" using that(1) by (simp add: cache_agrees_def shared_ok_def)
    with False have "cache_agrees alist_map content (finishing_env content None ws cc)"
      by (auto simp: finishing_env_def cache_agrees_def shared_ok_def finished_ok finished_cached)
    moreover have "\<forall>(k, e) \<in> set ws. cached_in alist_map (cc_raw (finishing_env content None ws cc)) k \<noteq> None"
      using False that(2) by (force simp: finishing_env_def finished_cached)
    ultimately show ?thesis ..
  qed
  then show ?thesis unfolding env_ok_def by (simp add: finishing_env_def)
qed

definition sample_chunks :: chunk_store where
  "sample_chunks = [(pad_hash [1, 2, 3], [1, 2, 3])]"

interpretation sample: fetch_setting alist_map plain_messages pad_hash "finishing_env (map_of sample_chunks)" sample_chunks hello for hello
proof
  show "plain.blobs_ok sample_chunks"
    using hash32_pad_hash by (simp add: plain.blobs_ok_def sample_chunks_def MAX_BLOB_SIZE_def)
  show "list_all (\<lambda>(k, b). k = pad_hash b) sample_chunks" by (simp add: sample_chunks_def)
  show "env_ok alist_map (map_of sample_chunks) (finishing_env (map_of sample_chunks))" by (rule finishing_env_ok)
qed

section \<open>Chunks from an untrusted peer\<close>

text \<open>Every chunk at hand has the hash it is stored under.\<close>

definition fetcher_addressed :: "'m linked_map \<Rightarrow> hash_fun \<Rightarrow> ('m, 'n) chunk_fetcher \<Rightarrow> bool" where
  "fetcher_addressed lm H s \<longleftrightarrow> cache_ok lm (cc_raw (cf_cache s)) \<and>
     (\<forall>k b. cached_in lm (cc_raw (cf_cache s)) k = Some b \<longrightarrow> H b = k) \<and> list_all (\<lambda>(k, b). H b = k) (cf_local s)"

definition env_addressed :: "'m linked_map \<Rightarrow> hash_fun \<Rightarrow> 'm env \<Rightarrow> bool" where
  "env_addressed lm H env \<longleftrightarrow>
     (\<forall>b ws cc. cache_ok lm (cc_raw cc) \<longrightarrow> (\<forall>k b. cached_in lm (cc_raw cc) k = Some b \<longrightarrow> H b = k) \<longrightarrow>
        cache_ok lm (cc_raw (env b ws cc)) \<and> (\<forall>k c. cached_in lm (cc_raw (env b ws cc)) k = Some c \<longrightarrow> H c = k))"

lemma check_chunks_addressed:
  "list_all (\<lambda>(k, b). H b = k) out \<Longrightarrow> list_all (\<lambda>(k, b). H b = k) (snd (check_chunks H xs out)) \<and>
     (fst (check_chunks H xs out) = Inr () \<longrightarrow> list_all (\<lambda>(k, b). H b = k) xs)"
  by (induction H xs out rule: check_chunks.induct) (auto simp: store_insert_def)

context hashlink
begin

lemma get_chunks_batched_raw:
  assumes "get_chunks_batched lm ks out n cc = (r, cc')" "rc_ok (cc_raw cc)"
  shows "rc_ok (cc_raw cc') \<and> cached (cc_raw cc') = cached (cc_raw cc) \<and>
    (\<forall>oc kept out'. r = Inr (oc, kept, out') \<longrightarrow> (\<exists>new. out' = new @ out \<and> (\<forall>(k, b) \<in> set new. cached (cc_raw cc) k = Some b)))"
proof -
  obtain kept1 rc1 out1 batch1 where r: "retain_requested lm n (cc_pending cc) ks (cc_raw cc, out, []) = (kept1, rc1, out1, batch1)"
    by (cases "retain_requested lm n (cc_pending cc) ks (cc_raw cc, out, [])") auto
  from retain_spec [OF r] have "\<exists>new. out1 = new @ out \<and> (\<forall>(k, b) \<in> set new. cached (cc_raw cc) k = Some b)"
    unfolding retain_post_def by blast
  with assms r retain_state [OF r] show ?thesis
    by (auto simp: get_chunks_batched_def with_lock_def Let_def and_then_Inr_iff split: if_splits sum.splits)
qed

lemma fulfill_raw:
  assumes "fulfill lm br cs cc = (r, cc')" "rc_ok (cc_raw cc)"
  shows "rc_ok (cc_raw cc') \<and>
    (\<forall>k b. cached (cc_raw cc') k = Some b \<longrightarrow> (k, b) \<in> set (zip (br_keys br) cs) \<or> cached (cc_raw cc) k = Some b)"
proof -
  obtain rc where rc: "fulfill_loop lm (zip (br_keys br) cs) cc =
      Inr (cc\<lparr> cc_raw := rc, cc_pending := cc_pending cc |` (- fst ` set (zip (br_keys br) cs)) \<rparr>)" "rc_ok rc"
    "\<forall>k b. cached rc k = Some b \<longrightarrow> (k, b) \<in> set (zip (br_keys br) cs) \<or> cached (cc_raw cc) k = Some b"
    using fulfill_loop_spec [OF assms(2)] by blast
  from assms(1) rc(1) have "cc_raw cc' = cc_raw cc \<or> cc_raw cc' = rc"
    by (auto simp: fulfill_def with_lock_def split: if_splits)
  with assms(2) rc(2,3) show ?thesis by metis
qed

lemma waited_addressed:
  assumes "get_chunks_waited lm ws out cc = (r, cc')" "rc_ok (cc_raw cc)" "\<forall>k b. cached (cc_raw cc) k = Some b \<longrightarrow> H b = k"
    "list_all (\<lambda>(k, b). H b = k) out"
  shows "rc_ok (cc_raw cc') \<and> (\<forall>k b. cached (cc_raw cc') k = Some b \<longrightarrow> H b = k)"
    "r = Inr out' \<Longrightarrow> list_all (\<lambda>(k, b). H b = k) out'"
proof -
  show "rc_ok (cc_raw cc') \<and> (\<forall>k b. cached (cc_raw cc') k = Some b \<longrightarrow> H b = k)"
    using waited_quiet [OF assms(1,2)] assms(3) by simp
  assume "r = Inr out'"
  with assms(1) obtain rc' where "collect_waited lm ws (cc_raw cc) out = Inr (rc', out')"
    by (auto simp: get_chunks_waited_def with_lock_def and_then_Inr_iff split: if_splits sum.splits)
  from collect_waited_state [OF this assms(2)] obtain new where
    "out' = new @ out" "\<forall>(k, b) \<in> set new. cached (cc_raw cc) k = Some b" by blast
  with assms(3,4) show "list_all (\<lambda>(k, b). H b = k) out'" by (fastforce simp: list_all_iff)
qed

lemma batch_addressed:
  assumes "fetcher_addressed lm H s" "env_addressed lm H env" "exchange_chunks m io (br_keys br) s = (x, s1)"
    "fetched = (case x of
       Inl e \<Rightarrow> (Inl e, s1)
     | Inr chunks \<Rightarrow>
         (case check_chunks H (zip (br_keys br) chunks) (cf_local s1) of
            (Inl e, out) \<Rightarrow> (Inl e, s1\<lparr> cf_local := out \<rparr>)
          | (Inr _, out) \<Rightarrow>
              (case fulfill lm br chunks (env (Some br) [] (cf_cache s1)) of
                 (Inl e, cc) \<Rightarrow> (Inl e, s1\<lparr> cf_cache := cc, cf_local := out \<rparr>)
               | (Inr _, cc) \<Rightarrow> (Inr (), s1\<lparr> cf_cache := cc, cf_local := out \<rparr>))))"
  shows "fetcher_addressed lm H (snd fetched)"
proof -
  have s1: "fetcher_addressed lm H s1" using assms(1) exchange_chunks_frame [OF assms(3)] by (simp add: fetcher_addressed_def)
  show ?thesis
  proof (cases x)
    case (Inl e)
    with assms(4) s1 show ?thesis by simp
  next
    case (Inr chunks)
    let ?xs = "zip (br_keys br) chunks"
    obtain u out where c: "check_chunks H ?xs (cf_local s1) = (u, out)" by fastforce
    have out: "list_all (\<lambda>(k, b). H b = k) out" "u = Inr () \<Longrightarrow> list_all (\<lambda>(k, b). H b = k) ?xs"
      using check_chunks_addressed [of H "cf_local s1" ?xs] s1 c by (auto simp: fetcher_addressed_def)
    obtain r cc where f: "fulfill lm br chunks (env (Some br) [] (cf_cache s1)) = (r, cc)" by fastforce
    show ?thesis
    proof (cases u)
      case e: (Inl e)
      with assms(4) Inr c s1 out(1) show ?thesis by (simp add: fetcher_addressed_def)
    next
      case u: (Inr v)
      let ?cc = "env (Some br) [] (cf_cache s1)"
      have env: "rc_ok (cc_raw ?cc)" "\<forall>k c. cached (cc_raw ?cc) k = Some c \<longrightarrow> H c = k"
        using s1 assms(2) unfolding fetcher_addressed_def env_addressed_def by blast+
      have "rc_ok (cc_raw cc)" "\<forall>k b. cached (cc_raw cc) k = Some b \<longrightarrow> H b = k"
        using fulfill_raw [OF f env(1)] env(2) out(2) u by (fastforce simp: list_all_iff)+
      with assms(4) Inr c u f out(1) show ?thesis by (simp add: fetcher_addressed_def split: sum.split)
    qed
  qed
qed

lemma fetch_addressed:
  assumes "fetcher_addressed lm H s" "env_addressed lm H env" "fetch_chunk_batch lm H m io env s = (r, s')"
  shows "fetcher_addressed lm H s'"
proof -
  have ok: "rc_ok (cc_raw (cf_cache s))" and cadd: "\<forall>k b. cached (cc_raw (cf_cache s)) k = Some b \<longrightarrow> H b = k"
    and ladd: "list_all (\<lambda>(k, b). H b = k) (cf_local s)"
    using assms(1) by (simp_all add: fetcher_addressed_def)
  have env: "rc_ok (cc_raw (env b ws cc)) \<and> (\<forall>k c. cached (cc_raw (env b ws cc)) k = Some c \<longrightarrow> H c = k)"
    if "rc_ok (cc_raw cc)" "\<forall>k b. cached (cc_raw cc) k = Some b \<longrightarrow> H b = k" for b ws cc
    using assms(2) that unfolding env_addressed_def by blast
  obtain g cc where g: "get_chunks_batched lm (cf_pending s) (cf_local s) 512 (cf_cache s) = (g, cc)" by fastforce
  have cc: "rc_ok (cc_raw cc)" "\<forall>k b. cached (cc_raw cc) k = Some b \<longrightarrow> H b = k"
    using get_chunks_batched_raw [OF g ok] cadd by auto
  show ?thesis
  proof (cases g)
    case (Inl e)
    with assms(3) g cc ladd show ?thesis by (auto simp: fetch_chunk_batch_def fetcher_addressed_def)
  next
    case (Inr x)
    obtain oc kept out where x: "x = (oc, kept, out)" by (metis prod.collapse)
    have out: "list_all (\<lambda>(k, b). H b = k) out"
      using get_chunks_batched_raw [OF g ok] Inr x ladd cadd by (fastforce simp: list_all_iff)
    show ?thesis
    proof (cases oc)
      case NoBatch
      with assms(3) g Inr x cc out show ?thesis by (auto simp: fetch_chunk_batch_def fetcher_addressed_def)
    next
      case (Wait ws)
      obtain w cc2 where w: "get_chunks_waited lm ws out (env None ws cc) = (w, cc2)" by fastforce
      have "rc_ok (cc_raw (env None ws cc))" "\<forall>k c. cached (cc_raw (env None ws cc)) k = Some c \<longrightarrow> H c = k"
        using env [OF cc] by auto
      from waited_addressed [OF w this out] Wait assms(3) g Inr x w out show ?thesis
        by (auto simp: fetch_chunk_batch_def fetcher_addressed_def split: sum.splits)
    next
      case (Batch br)
      let ?s = "s\<lparr> cf_cache := cc, cf_pending := kept, cf_local := out \<rparr>"
      have "fetcher_addressed lm H ?s" using cc out by (simp add: fetcher_addressed_def)
      moreover obtain z s1 where z: "exchange_chunks m io (br_keys br) ?s = (z, s1)" by fastforce
      ultimately have "fetcher_addressed lm H (snd (fetch_chunk_batch lm H m io env s))"
        using Batch g Inr x
        by (intro batch_addressed [OF _ assms(2) z]) (auto simp: fetch_chunk_batch_def split: sum.split prod.split)
      with assms(3) show ?thesis by simp
    qed
  qed
qed

end

context hashlink
begin

lemma get_chunk_addressed:
  assumes "fetcher_addressed lm H s" "env_addressed lm H env" "cf_get_chunk lm H m io env key s = (r, s')"
  shows "fetcher_addressed lm H s' \<and> (\<forall>chunk. r = Inr chunk \<longrightarrow> H chunk = key)"
  using assms(1,3)
proof (induction "length (cf_pending s)" arbitrary: s rule: less_induct)
  case less
  note step = cf_get_chunk.simps [of lm H m io env key s]
  show ?case
  proof (cases "map_of (cf_local s) key")
    case (Some c)
    then have "H c = key" using less.prems(1) by (auto simp: fetcher_addressed_def list_all_iff dest!: map_of_SomeD)
    with Some less.prems show ?thesis by (auto simp: step)
  next
    case None
    obtain q s1 where f: "fetch_chunk_batch lm H m io env s = (q, s1)" by fastforce
    have s1: "fetcher_addressed lm H s1" using fetch_addressed [OF less.prems(1) assms(2) f] .
    show ?thesis
    proof (cases "cf_pending s = [] \<or> (\<exists>e. q = Inl e)")
      case True
      with None f less.prems s1 show ?thesis by (auto simp: step split: if_splits)
    next
      case False
      then obtain u where u: "q = Inr u" "cf_pending s \<noteq> []" by (cases q) auto
      have "cf_get_chunk lm H m io env key s1 = (r, s')" using None f u less.prems(2) by (simp add: step)
      with less.hyps [OF fetch_chunk_batch_shrinks [OF f [unfolded u(1)] u(2)] s1] show ?thesis by blast
    qed
  qed
qed

end

context fetch_setting
begin

lemma fetch_tree:
  assumes "tree n (set chunks) cl cs" "set chunks = {(k, b). content k = Some b}" "cache_agrees lm content cc" "Suc (Suc n) < fuel"
  shows "\<exists>s1 s2. prefetch_metadata_chunks fuel (fetcher_provider lm H m server env) [cl] (cf_new cc ([], length hello)) = Some (Inr (), s1) \<and>
    reconstruct_data fuel (fetcher_provider lm H m server env) cl s1 = Some (cs, Inr (), s2)"
proof -
  have t: "tree n fetched.stored cl cs" using assms(1,2) by (simp add: fetched.stored_def)
  then have "list_all (fetched.subtree (Suc n)) [cl]" by (auto simp: fetched.subtree_def)
  from fetched.prefetch_metadata_ready [OF ready_new [OF assms(3)] this assms(4)] obtain s1 P1 where
    1: "prefetch_metadata_chunks fuel (fetcher_provider lm H m server env) [cl] (cf_new cc ([], length hello)) = Some (Inr (), s1)" "ready s1 P1"
    by blast
  from fetched.reconstruct_tree [OF t 1(2), of fuel] assms(4) 1(1) show ?thesis by auto
qed

end


lemma mark_dirty_ok: "\<not> cc_poisoned cc \<Longrightarrow> mark_dirty cc = (Inr (), cc\<lparr> cc_needs_saving := True \<rparr>)"
  by (simp add: mark_dirty_def with_lock_def)

section \<open>Properties\<close>

text \<open>
  Messages survive the wire: a message of at most 20000000 bytes is written as four bytes of length and its
  data, and reading those bytes, whatever follows them, gives it back and leaves the rest; every
  truncation ends in an end-of-file error.
\<close>

lemma message_framing:
  assumes "length d \<le> 20000000"
  shows "\<exists>w. write_message pipe_io d (i, out) = (Inr (), (i, out @ w)) \<and> length w = 4 + length d \<and>
    read_message pipe_io (w @ r, out') = (Inr d, (r, out')) \<and>
    (\<forall>n < length w. read_message pipe_io (take n w, out') = (Inl UnexpectedEof, ([], out')))"
proof -
  have d: "length d \<le> MESSAGE_SIZE_LIMIT" using assms by (simp add: MESSAGE_SIZE_LIMIT_def)
  have "read_message pipe_io (take n (frame d), out') = (Inl UnexpectedEof, ([], out'))" if "n < length (frame d)" for n
  proof (cases "n < 4")
    case True
    then show ?thesis by (simp add: read_message_pipe_short)
  next
    case False
    then have t: "take n (frame d) = put_u32_le (of_nat (length d)) @ take (n - 4) d" by (simp add: frame_def)
    have "n - 4 < length d" using that False by (simp add: frame_def)
    then show ?thesis
      using d unat_frame_length [OF d] False unfolding t by (simp add: read_message_def pipe_io_def Let_def from_le_put_u32)
  qed
  with write_message_pipe [OF d] read_message_pipe [OF d] show ?thesis
    by (intro exI [of _ "frame d"]) (simp add: frame_def)
qed

text \<open>
  C32. The server's loop ends: on a stream that has been finished, with any bytes in it, the loop that answers
  chunk requests returns, with the number of bytes transferred or an error, after at most one round per byte.
\<close>

theorem provide_terminates:
  assumes "length input < fuel"
  shows "\<exists>result streams. provide_chunks_as_requested fuel pipe_io m chunks 0 (input, []) = Some (result, streams)"
  using provide_ends [OF assms, of m chunks 0 "[]"] by auto

theorem provide_terminates_witness:
  "\<exists>result streams. provide_chunks_as_requested 6 pipe_io plain_messages sample_chunks 0 ([1, 0, 0, 0, 9], []) = Some (result, streams)"
  by (rule provide_terminates) simp

text \<open>
  C12. A peer cannot forge chunks: whatever the peer sends, however messages are decoded and whatever the other
  tasks do that keeps the cache hash-addressed, a chunk \<^verbatim>\<open>get_chunk\<close> returns has the hash it was
  asked for by, and everything kept in the caches still has.
\<close>

theorem get_chunk_authentic:
  assumes "hashlink lm" "env_addressed lm H env" "fetcher_addressed lm H s" "cf_get_chunk lm H m io env key s = (r, s')"
  shows "fetcher_addressed lm H s' \<and> (\<forall>chunk. r = Inr chunk \<longrightarrow> H chunk = key)"
  using hashlink.get_chunk_addressed [OF assms(1,3,2,4)] .

theorem get_chunk_authentic_witness:
  "\<exists>s'. cf_get_chunk alist_map pad_hash plain_messages (remote_io (serve [5, 6] plain_messages sample_chunks))
      (finishing_env (map_of sample_chunks)) (pad_hash [1, 2, 3])
      (cf_prefetch [pad_hash [1, 2, 3]] (cf_new (cc_new alist_map 100) ([], 2))) = (Inr [1, 2, 3], s') \<and>
    fetcher_addressed alist_map pad_hash s'"
proof -
  let ?s = "cf_prefetch [pad_hash [1, 2, 3]] (cf_new (cc_new alist_map 100) ([], 2))"
  have "env_addressed alist_map pad_hash (finishing_env (map_of sample_chunks))"
    by (auto simp: env_addressed_def finishing_env_def finished_ok finished_cached sample_chunks_def split: if_splits)
  moreover have "fetcher_addressed alist_map pad_hash ?s"
    by (simp add: fetcher_addressed_def cf_prefetch_def cf_new_def cc_new_def am.rc_new_ok am.cached_new)
  moreover have "cache_agrees alist_map (map_of sample_chunks) (cc_new alist_map 100)"
    by (simp add: cache_agrees_def am.cc_new_ok) (simp add: cc_new_def am.cached_new)
  from sample.prefetch_ready [OF sample.ready_new [OF this, of "[5, 6]"], of "[pad_hash [1, 2, 3]]"]
  have "sample.ready [5, 6] ?s {pad_hash [1, 2, 3]}" by (simp add: sample_chunks_def numeral_2_eq_2)
  from sample.get_chunk_ready [OF this, of "pad_hash [1, 2, 3]" "[1, 2, 3]"] obtain s' where
    "cf_get_chunk alist_map pad_hash plain_messages (remote_io (serve [5, 6] plain_messages sample_chunks))
      (finishing_env (map_of sample_chunks)) (pad_hash [1, 2, 3]) ?s = (Inr [1, 2, 3], s')"
    by (auto simp: sample_chunks_def)
  ultimately show ?thesis using get_chunk_authentic [OF am.hashlink_axioms] by blast
qed



end
