(* ===== verification/Common_Lib.thy ===== *)
theory Common_Lib
  imports Protocol_Utils
begin

text \<open>
  What both programs share around their proxies (\<^verbatim>\<open>common/src/lib.rs\<close>, \<^verbatim>\<open>common/src/cli_args.rs\<close>): the
  command line options and what they configure, the creation of the chunk cache and its writer
  task (\<^verbatim>\<open>ChunkCache::start_writer\<close>), the accept loop of the server, and the shutdown of a program.
  The file system, the clock and the QUIC endpoint are arguments: the content of a path, the
  sequence of ticks and the sequence of accepted connections.

  The property is that a restarted client has the cache its predecessor saved.
\<close>

section \<open>Options\<close>

record cache_options =
  co_cache_path :: "string option"
  co_size_limit :: u64
  co_save_interval :: u64
  co_compression_level :: int

record transport_options =
  to_compression_level :: int

record client_args =
  cache_path :: "string option"
  cache_limit :: u64
  cache_interval :: u64
  cache_compression :: int
  net_compression :: int

definition default_client_args :: client_args where
  "default_client_args = \<lparr> cache_path = None, cache_limit = 500000000, cache_interval = 60,
     cache_compression = 3, net_compression = DEFAULT_ZSTD_COMPRESSION_LEVEL \<rparr>"

definition args_cache_options :: "client_args \<Rightarrow> cache_options" where
  "args_cache_options args = \<lparr> co_cache_path = cache_path args, co_size_limit = cache_limit args,
     co_save_interval = cache_interval args, co_compression_level = cache_compression args \<rparr>"

definition args_transport_options :: "client_args \<Rightarrow> transport_options" where
  "args_transport_options args = \<lparr> to_compression_level = net_compression args \<rparr>"

definition create_message_transport :: "transport_options \<Rightarrow> message_transport" where
  "create_message_transport options = mt_new (to_compression_level options)"

section \<open>The chunk cache and its writer\<close>

text \<open>
  A tick of the writer comes with what the other tasks did to the cache since the last one and
  the outcome of the file operations. An error of \<^verbatim>\<open>try_save\<close> is logged and the loop goes on; only
  the panic on a poisoned lock ends the task. The first result tells whether the task is alive.
\<close>

type_synonym 'm tick = "('m chunk_cache \<Rightarrow> 'm chunk_cache) \<times> (bytes \<Rightarrow> unit res)"

fun start_writer ::
  "'m linked_map \<Rightarrow> (bytes \<Rightarrow> bytes) \<Rightarrow> 'm tick list \<Rightarrow> 'm chunk_cache \<Rightarrow> bytes option \<Rightarrow>
   bool \<times> 'm chunk_cache \<times> bytes option" where
  "start_writer lm zstd [] cc old = (True, cc, old)"
| "start_writer lm zstd ((others, disk) # ticks) cc old =
     (case try_save lm zstd disk (others cc) old of
        (Inl e, cc', old') \<Rightarrow> if is_panic e then (False, cc', old') else start_writer lm zstd ticks cc' old'
      | (Inr _, cc', old') \<Rightarrow> start_writer lm zstd ticks cc' old')"

record writer =
  wr_path :: string
  wr_interval :: u64
  wr_level :: int

text \<open>
  \<^verbatim>\<open>create_chunk_cache\<close>: \<open>absolute\<close> is \<^verbatim>\<open>std::path::absolute\<close>, \<open>files\<close> the content of the files that exist and
  \<open>metadata\<close> the outcome of asking for the size of a file. The second result is the writer task
  that has been started.
\<close>

definition create_chunk_cache ::
  "'m linked_map \<Rightarrow> hash_fun \<Rightarrow> (bytes \<Rightarrow> byte_source) \<Rightarrow> (string \<Rightarrow> string res) \<Rightarrow> (string \<Rightarrow> u64 res) \<Rightarrow>
   (string \<Rightarrow> bytes option) \<Rightarrow> cache_options \<Rightarrow> ('m chunk_cache \<times> writer) res" where
  "create_chunk_cache lm H zstd absolute metadata files options =
     and_then (case co_cache_path options of
                 Some p \<Rightarrow> Inr p
               | None \<Rightarrow> (case absolute ''persistent-cache'' of
                            Inr p \<Rightarrow> Inr p
                          | Inl e \<Rightarrow> Inl (Panic ''called `Result::unwrap()` on an `Err` value''))) (\<lambda>path.
     and_then (case files path of
                 Some data \<Rightarrow> and_then (metadata path) (\<lambda>compressed_size.
                   load_from_file lm H zstd (co_size_limit options) (Some data))
               | None \<Rightarrow> Inr (cc_new lm (co_size_limit options))) (\<lambda>chunk_cache.
     Inr (chunk_cache, \<lparr> wr_path = path, wr_interval = co_save_interval options,
       wr_level = co_compression_level options \<rparr>)))"

section \<open>The server loop and the shutdown\<close>

text \<open>
  What \<^verbatim>\<open>endpoint.accept().await\<close> and the handshake of the connection give: the endpoint is closed, the
  handshake fails, or there is a connection. \<^verbatim>\<open>run_server\<close> returns how it ended, if it did, and the
  connections for which a handler has been spawned.
\<close>

datatype 'c incoming = EndpointClosed | HandshakeFailed error | Established 'c

fun run_server :: "'c incoming list \<Rightarrow> unit res option \<times> 'c list" where
  "run_server [] = (None, [])"
| "run_server (EndpointClosed # _) = (Some (Inl (Panic ''called `Option::unwrap()` on a `None` value'')), [])"
| "run_server (HandshakeFailed e # _) = (Some (Inl e), [])"
| "run_server (Established c # rest) = (case run_server rest of (r, cs) \<Rightarrow> (r, c # cs))"

text \<open>
  \<^verbatim>\<open>cli_wrapper\<close> waits for the program or for Ctrl-C (\<open>None\<close>), closes the endpoint and waits until it is
  idle; the mains unwrap its result. A panic of the program unwinds through it: nothing is closed in
  order, and the panic is what the main ends with.
\<close>

datatype shutdown_step = CloseEndpoint nat string | WaitIdle

definition cli_wrapper :: "unit res option \<Rightarrow> unit res \<times> shutdown_step list" where
  "cli_wrapper run =
     (case run of
        None \<Rightarrow> (Inr (), [CloseEndpoint 0 ''quit'', WaitIdle])
      | Some (Inr _) \<Rightarrow> (Inr (), [CloseEndpoint 0 ''quit'', WaitIdle])
      | Some (Inl e) \<Rightarrow> (Inl e, if is_panic e then [] else [CloseEndpoint 0 ''quit'', WaitIdle]))"

text \<open>\<^verbatim>\<open>Result::unwrap\<close>, which panics on an error; a panic that is already under way goes on.\<close>

definition unwrap :: "'a res \<Rightarrow> 'a res" where
  "unwrap r = (case r of
     Inr x \<Rightarrow> Inr x
   | Inl e \<Rightarrow> Inl (if is_panic e then e else Panic ''called `Result::unwrap()` on an `Err` value''))"

definition subcommand_server :: "'c incoming list \<Rightarrow> unit res \<times> 'c list" where
  "subcommand_server evs = (case run_server evs of (r, cs) \<Rightarrow> (unwrap (fst (cli_wrapper r)), cs))"

section \<open>Lemmas\<close>

lemma run_server_established: "run_server (map Established cs @ evs) = (case run_server evs of (r, ds) \<Rightarrow> (r, cs @ ds))"
  by (induction cs) (auto split: prod.splits)

text \<open>
  One failed handshake ends the server: the program panics, and whoever connects afterwards is
  not served.
\<close>

lemma failed_handshake_ends_server:
  "\<not> is_panic e \<Longrightarrow> subcommand_server (map Established cs @ HandshakeFailed e # evs) =
     (Inl (Panic ''called `Result::unwrap()` on an `Err` value''), cs)"
  by (simp add: subcommand_server_def run_server_established cli_wrapper_def unwrap_def)

lemma server_serves_all: "subcommand_server (map Established cs) = (Inr (), cs)"
  using run_server_established [of cs "[]"] by (simp add: subcommand_server_def cli_wrapper_def unwrap_def)

lemma start_writer_append:
  "start_writer lm zstd ticks cc old = (True, cc', old') \<Longrightarrow>
   start_writer lm zstd (ticks @ more_ticks) cc old = start_writer lm zstd more_ticks cc' old'"
proof (induction ticks arbitrary: cc old)
  case (Cons t ts)
  then show ?case by (cases t) (auto split: prod.splits sum.splits if_splits)
qed simp

lemma try_save_keeps_cache:
  "try_save lm zstd disk cc old = (r, cc', old') \<Longrightarrow> cc_raw cc' = cc_raw cc \<and> cc_pending cc' = cc_pending cc \<and>
     cc_poisoned cc' = cc_poisoned cc"
  by (auto simp: try_save_def save_snapshot_def with_lock_def split: if_splits sum.splits prod.splits option.splits)

text \<open>The writer never changes what the cache holds.\<close>

lemma start_writer_neutral:
  "start_writer lm zstd (map (\<lambda>d. (\<lambda>c. c, d)) disks) cc old = (alive, cc', old') \<Longrightarrow>
   cc_raw cc' = cc_raw cc \<and> cc_pending cc' = cc_pending cc"
proof (induction disks arbitrary: cc old)
  case (Cons d ds)
  obtain r cc1 old1 where t: "try_save lm zstd d cc old = (r, cc1, old1)" by (metis prod_cases3)
  with Cons.prems have "cc' = cc1 \<or> start_writer lm zstd (map (\<lambda>d. (\<lambda>c. c, d)) ds) cc1 old1 = (alive, cc', old')"
    by (auto split: sum.splits if_splits)
  with Cons.IH [of cc1 old1] try_save_keeps_cache [OF t] show ?case by auto
qed auto

section \<open>Restarting a client\<close>

text \<open>
  C26. A restarted client has the chunks its predecessor held at its last save: whatever happened
  before, when the writer ticks while the cache is marked dirty and the file operations
  succeed, creating the chunk cache again from the written file with the same options gives
  a valid cache with the same chunks in the same order and the same size, and starts a writer for
  the same file.
\<close>

theorem restart_keeps_cache:
  assumes "hashlink lm" "hash32 H" "\<forall>b. decompress (compress b) = (b, UnexpectedEof)"
    "start_writer lm compress ticks cc0 old0 = (True, before, old)" "others before = cc"
    "shared_ok lm cc" "cc_needs_saving cc"
    "\<forall>(k, b) \<in> set (cache_entries lm (cc_raw cc)). k = H b \<and> length b \<le> 20000000"
    "length (cache_entries lm (cc_raw cc)) < 2 ^ 32" "sizes (cache_entries lm (cc_raw cc)) < 2 ^ 64"
    "\<forall>b. disk b = Inr ()"
    "co_cache_path options = Some path" "co_size_limit options = rc_max_size (cc_raw cc)" "metadata path = Inr len"
  shows "\<exists>cc1 saved cc2.
    start_writer lm compress (ticks @ [(others, disk)]) cc0 old0 = (True, cc1, Some saved) \<and>
    create_chunk_cache lm H decompress absolute metadata (files(path \<mapsto> saved)) options =
      Inr (cc2, \<lparr> wr_path = path, wr_interval = co_save_interval options, wr_level = co_compression_level options \<rparr>) \<and>
    cache_entries lm (cc_raw cc2) = cache_entries lm (cc_raw cc) \<and>
    rc_total_size (cc_raw cc2) = rc_total_size (cc_raw cc) \<and> rc_max_size (cc_raw cc2) = co_size_limit options"
proof -
  from save_load_roundtrip [where zstd_decode = decompress and zstd_encode = compress and old = old, OF assms(1,2,6-10,3,11)] obtain saved cc1 cc2 where *:
    "try_save lm compress disk cc old = (Inr (), cc1, Some saved)"
    "load_from_file lm H decompress (rc_max_size (cc_raw cc)) (Some saved) = Inr cc2"
    "cache_entries lm (cc_raw cc2) = cache_entries lm (cc_raw cc)"
    "rc_total_size (cc_raw cc2) = rc_total_size (cc_raw cc)" "rc_max_size (cc_raw cc2) = rc_max_size (cc_raw cc)"
    by blast
  have "start_writer lm compress (ticks @ [(others, disk)]) cc0 old0 = (True, cc1, Some saved)"
    using start_writer_append [OF assms(4), of "[(others, disk)]"] *(1) by (simp add: assms(5))
  moreover have "create_chunk_cache lm H decompress absolute metadata (files(path \<mapsto> saved)) options =
      Inr (cc2, \<lparr> wr_path = path, wr_interval = co_save_interval options, wr_level = co_compression_level options \<rparr>)"
    using *(2) by (simp add: create_chunk_cache_def assms(12-14))
  ultimately show ?thesis using *(3-5) assms(13) by auto
qed

definition sample_options :: cache_options where
  "sample_options = args_cache_options (default_client_args\<lparr> cache_path := Some ''cache'', cache_limit := 100 \<rparr>)"

lemma sample_options_simps [simp]:
  "co_cache_path sample_options = Some ''cache''" "co_size_limit sample_options = 100"
  by (simp_all add: sample_options_def args_cache_options_def default_client_args_def)

theorem restart_keeps_cache_witness:
  "\<exists>cc. cache_entries alist_map (cc_raw cc) = [(pad_hash [1], [1])] \<and>
    (\<exists>cc1 saved cc2 w.
      start_writer alist_map id [(id, \<lambda>_. Inl (Anyhow ''disk full'')), (\<lambda>_. cc, \<lambda>_. Inr ())] (cc_new alist_map 100) None =
        (True, cc1, Some saved) \<and>
      create_chunk_cache alist_map pad_hash (\<lambda>b. (b, UnexpectedEof)) Inr (\<lambda>_. Inr 0) (Map.empty(''cache'' \<mapsto> saved)) sample_options =
        Inr (cc2, w) \<and>
      cache_entries alist_map (cc_raw cc2) = [(pad_hash [1], [1])])"
proof -
  obtain rc where rc: "cache_ok alist_map rc" "rc_max_size rc = 100" "cache_entries alist_map rc = [(pad_hash [1], [1])]"
    using am.rc_insert_fits [OF am.rc_new_ok(1) [of 100], of "pad_hash [1]" "[1]"]
    by (auto simp: am.rc_new_ok without_def)
  define cc where "cc = (cc_new alist_map 100)\<lparr> cc_raw := rc, cc_needs_saving := True \<rparr>"
  have cc: "shared_ok alist_map cc" "cc_needs_saving cc" "cc_raw cc = rc"
    using rc(1) by (simp_all add: cc_def cc_new_def shared_ok_def)
  have tick: "start_writer alist_map id [(id, \<lambda>_. Inl (Anyhow ''disk full''))] (cc_new alist_map 100) None =
      (True, cc_new alist_map 100, None)"
    by (simp add: try_save_def save_snapshot_def with_lock_def cc_new_def)
  from restart_keeps_cache [OF am.hashlink_axioms hash32_pad_hash _ tick _ cc(1,2), of "\<lambda>b. (b, UnexpectedEof)" "\<lambda>_. cc"
      "\<lambda>_. Inr ()" sample_options "''cache''" "\<lambda>_. Inr 0" 0 Inr Map.empty]
  show ?thesis using rc cc(3) by (intro exI [of _ cc]) (auto)
qed

end
