(* ===== verification/Programs.thy ===== *)
theory Programs
  imports Common_Lib
begin

text \<open>
  The two programs (\<^verbatim>\<open>factorio-cacher/src/main.rs\<close>, \<^verbatim>\<open>dsp-nebula-cacher/src/main.rs\<close>) and what they use to reach the network: the QUIC configuration
  (\<^verbatim>\<open>common/src/quic.rs\<close>) and the UPnP port mapping (\<^verbatim>\<open>common/src/upnp.rs\<close>).

  \<^item> The operating system and the libraries are records of outcomes: name lookup, sockets and QUIC in \<open>host_env\<close>, rustls in \<open>tls\<close>, igd-next in \<open>igd\<close>.
    What a program asks of the gateway is the list of its calls.
  \<^item> The result of a proxy, \<open>None\<close> while it runs until Ctrl-C, is an argument; the proxies have theories of their own. \<open>started\<close> tells what a
    proxy has been started with.
  \<^item> Values are dropped where the source drops them: the port mapping of the client at the end of \<^verbatim>\<open>run_client\<close>, that of the server at the end of
    \<^verbatim>\<open>subcommand_server\<close>, also when it panics.

  The lemmas: an idle connection is kept alive, the defaults are those the help text names, and whatever way a program
  ends, a port mapping it made is removed again.
\<close>

section \<open>Addresses\<close>

datatype ip_addr = V4 u32 | V6 "128 word"

type_synonym socket_addr = "ip_addr \<times> u16"

definition is_ipv6 :: "socket_addr \<Rightarrow> bool" where
  "is_ipv6 a = (case fst a of V4 _ \<Rightarrow> False | V6 _ \<Rightarrow> True)"

definition expect :: "string \<Rightarrow> 'a res \<Rightarrow> 'a res" where
  "expect msg r = (case r of Inr x \<Rightarrow> Inr x | Inl _ \<Rightarrow> Inl (Panic msg))"

definition context_of :: "string \<Rightarrow> 'a res \<Rightarrow> 'a res" where
  "context_of msg r = (case r of Inr x \<Rightarrow> Inr x | Inl _ \<Rightarrow> Inl (Anyhow msg))"

section \<open>QUIC\<close>

text \<open>Durations are in milliseconds; an idle timeout is a variable-length integer below \<open>2^62\<close>.\<close>

definition QUIC_IDLE_TIMEOUT :: nat where "QUIC_IDLE_TIMEOUT = 60000"
definition QUIC_KEEPALIVE_INTERVAL :: nat where "QUIC_KEEPALIVE_INTERVAL = 20000"

record transport_config =
  tc_max_idle_timeout :: "nat option"
  tc_keep_alive_interval :: "nat option"

definition idle_timeout :: "nat \<Rightarrow> nat res" where
  "idle_timeout ms = (if ms < 2 ^ 62 then Inr ms else Inl (Anyhow ''value too large for varint encoding''))"

record ('cert, 'key, 'conf) tls =
  default_transport :: transport_config
  cert_from_pem :: "bytes \<Rightarrow> 'cert res"
  key_from_pem :: "bytes \<Rightarrow> 'key res"
  add_root :: "'cert \<Rightarrow> unit res"
  with_root_certificates :: "'cert \<Rightarrow> 'conf res"
  with_single_cert :: "'cert \<Rightarrow> 'key \<Rightarrow> 'conf res"

definition make_client_config :: "('cert, 'key, 'conf) tls \<Rightarrow> bytes \<Rightarrow> ('conf \<times> transport_config) res" where
  "make_client_config tls ROOT_CERT_DATA =
     and_then (unwrap (cert_from_pem tls ROOT_CERT_DATA)) (\<lambda>cert.
     and_then (unwrap (add_root tls cert)) (\<lambda>_.
     and_then (unwrap (with_root_certificates tls cert)) (\<lambda>client_config.
     and_then (unwrap (idle_timeout QUIC_IDLE_TIMEOUT)) (\<lambda>idle.
     Inr (client_config, (default_transport tls)\<lparr> tc_max_idle_timeout := Some idle, tc_keep_alive_interval := Some QUIC_KEEPALIVE_INTERVAL \<rparr>)))))"

definition make_server_config :: "('cert, 'key, 'conf) tls \<Rightarrow> bytes \<Rightarrow> bytes \<Rightarrow> ('conf \<times> transport_config) res" where
  "make_server_config tls END_CERT_DATA END_PRIVATE_KEY_DATA =
     and_then (unwrap (cert_from_pem tls END_CERT_DATA)) (\<lambda>cert.
     and_then (unwrap (key_from_pem tls END_PRIVATE_KEY_DATA)) (\<lambda>private_key.
     and_then (unwrap (with_single_cert tls cert private_key)) (\<lambda>server_config.
     and_then (unwrap (idle_timeout QUIC_IDLE_TIMEOUT)) (\<lambda>idle.
     Inr (server_config, (default_transport tls)\<lparr> tc_max_idle_timeout := Some idle \<rparr>)))))"

record 'c host_env =
  lookup_host :: "string \<Rightarrow> socket_addr list res"
  open_endpoint :: "socket_addr \<Rightarrow> unit res"
  start_connect :: "socket_addr \<Rightarrow> string \<Rightarrow> unit res"
  finish_connect :: "socket_addr \<Rightarrow> string \<Rightarrow> 'c res"
  bind_socket :: "socket_addr \<Rightarrow> unit res"

definition resolve :: "'c host_env \<Rightarrow> string \<Rightarrow> socket_addr res" where
  "resolve env address =
     and_then (expect ''Error looking up host'' (lookup_host env address)) (\<lambda>addrs.
       case addrs of [] \<Rightarrow> Inl (Panic ''No server address found'') | a # _ \<Rightarrow> Inr a)"

record 'conf endpoint =
  ep_local :: socket_addr
  ep_config :: "'conf \<times> transport_config"

definition create_client_endpoint ::
  "'c host_env \<Rightarrow> ('cert, 'key, 'conf) tls \<Rightarrow> bytes \<Rightarrow> string \<Rightarrow> ('conf endpoint \<times> socket_addr) res" where
  "create_client_endpoint env tls root address =
     and_then (resolve env address) (\<lambda>server_address.
       let local_address = (if is_ipv6 server_address then V6 0 else V4 0, 0)
       in and_then (unwrap (open_endpoint env local_address)) (\<lambda>_.
          and_then (make_client_config tls root) (\<lambda>config.
          Inr (\<lparr> ep_local = local_address, ep_config = config \<rparr>, server_address))))"

definition create_server_endpoint ::
  "'c host_env \<Rightarrow> ('cert, 'key, 'conf) tls \<Rightarrow> bytes \<Rightarrow> bytes \<Rightarrow> socket_addr \<Rightarrow> 'conf endpoint res" where
  "create_server_endpoint env tls cert key listen_address =
     and_then (make_server_config tls cert key) (\<lambda>config.
     and_then (unwrap (open_endpoint env listen_address)) (\<lambda>_.
     Inr \<lparr> ep_local = listen_address, ep_config = config \<rparr>))"

definition client_connect :: "'c host_env \<Rightarrow> socket_addr \<Rightarrow> 'c res" where
  "client_connect env server_address =
     and_then (start_connect env server_address ''localhost'') (\<lambda>_.
     context_of ''QUIC connecting'' (finish_connect env server_address ''localhost''))"

section \<open>UPnP\<close>

definition LEASE_DURATION :: u32 where "LEASE_DURATION = 24 * 60 * 60"

text \<open>The calls a gateway gets, with the outcomes of the calls and of the search in \<open>igd\<close>.\<close>

datatype igd_call = AddPort u16 socket_addr u32 string | RemovePort u16

record igd =
  search_gateway :: "unit res"
  local_ip :: "ip_addr res"
  add_port :: "unit res"
  remove_port :: "unit res"

record upnp_port_mapping =
  pm_port :: u16

definition open_port :: "igd \<Rightarrow> u16 \<Rightarrow> upnp_port_mapping res \<times> igd_call list" where
  "open_port d port =
     (case and_then (context_of ''Finding gateway'' (search_gateway d)) (\<lambda>_. context_of ''Getting local ip'' (local_ip d)) of
        Inl e \<Rightarrow> (Inl e, [])
      | Inr ip \<Rightarrow>
          (and_then (context_of ''Adding port mapping'' (add_port d)) (\<lambda>_. Inr \<lparr> pm_port = port \<rparr>),
           [AddPort port (ip, port) LEASE_DURATION ''FactorioCacher'']))"

text \<open>\<^verbatim>\<open>Drop for UpnpPortMapping\<close>: an error of the call is only logged.\<close>

definition drop_mapping :: "upnp_port_mapping \<Rightarrow> igd_call list" where
  "drop_mapping m = [RemovePort (pm_port m)]"

text \<open>
  \<^verbatim>\<open>let _upnp_port_mapping = if args.upnp { Some(open_port(port)) } else { None }\<close> and the rest of its scope, at the end
  of which the mapping is dropped.
\<close>

definition with_port :: "igd \<Rightarrow> bool \<Rightarrow> u16 \<Rightarrow> (error \<Rightarrow> 'a) \<Rightarrow> 'a \<Rightarrow> 'a \<times> igd_call list" where
  "with_port d upnp port failed rest =
     (if upnp
      then (case open_port d port of
              (Inl e, calls) \<Rightarrow> (failed e, calls)
            | (Inr m, calls) \<Rightarrow> (rest, calls @ drop_mapping m))
      else (rest, []))"

section \<open>Arguments\<close>

record factorio_client_args = client_args +
  fc_port :: u16
  fc_host :: ip_addr
  fc_server_address :: string
  fc_upnp :: bool

record server_args =
  sa_net_compression :: int
  sa_port :: u16
  sa_host :: ip_addr
  sa_game_address :: string
  sa_upnp :: bool

text \<open>\<^verbatim>\<open>world_est_multiplier\<close> is a float, of an arbitrary type here.\<close>

record 'f factorio_server_args = server_args +
  fs_auto_lan :: bool
  fs_world_est_multiplier :: 'f

record nebula_client_args = client_args +
  nc_port :: u16
  nc_host :: ip_addr
  nc_server_address :: string

definition server_transport_options :: "'x server_args_scheme \<Rightarrow> transport_options" where
  "server_transport_options args = \<lparr> to_compression_level = sa_net_compression args \<rparr>"

definition default_factorio_client :: "string \<Rightarrow> factorio_client_args" where
  "default_factorio_client address = client_args.extend default_client_args
     (factorio_client_args.fields 60120 (V4 0) address False)"

definition default_nebula_client :: "string \<Rightarrow> nebula_client_args" where
  "default_nebula_client address = client_args.extend default_client_args (nebula_client_args.fields 60120 (V4 0) address)"

definition default_server_args :: "string \<Rightarrow> server_args" where
  "default_server_args address = \<lparr> sa_net_compression = DEFAULT_ZSTD_COMPRESSION_LEVEL, sa_port = 60130, sa_host = V4 0,
     sa_game_address = address, sa_upnp = False \<rparr>"

section \<open>The clients\<close>

record 'm cache_env =
  ce_map :: "'m linked_map"
  ce_hash :: hash_fun
  ce_zstd :: "bytes \<Rightarrow> byte_source"
  ce_absolute :: "string \<Rightarrow> string res"
  ce_metadata :: "string \<Rightarrow> u64 res"
  ce_files :: "string \<rightharpoonup> bytes"

record ('c, 'm) started =
  st_connection :: 'c
  st_listen :: socket_addr
  st_cache :: "'m chunk_cache"
  st_writer :: writer
  st_transport :: message_transport

definition create_cache_in :: "'m cache_env \<Rightarrow> cache_options \<Rightarrow> ('m chunk_cache \<times> writer) res" where
  "create_cache_in ce = create_chunk_cache (ce_map ce) (ce_hash ce) (ce_zstd ce) (ce_absolute ce) (ce_metadata ce) (ce_files ce)"

text \<open>What both clients do first: connect, bind, load the cache.\<close>

definition prepare_client ::
  "'c host_env \<Rightarrow> 'm cache_env \<Rightarrow> socket_addr \<Rightarrow> socket_addr \<Rightarrow> client_args \<Rightarrow> ('c, 'm) started res" where
  "prepare_client env ce server_address listen_address args =
     and_then (client_connect env server_address) (\<lambda>quic_connection.
     and_then (bind_socket env listen_address) (\<lambda>_.
     and_then (create_cache_in ce (args_cache_options args)) (\<lambda>(chunk_cache, writer).
     Inr \<lparr> st_connection = quic_connection, st_listen = listen_address, st_cache = chunk_cache, st_writer = writer,
       st_transport = create_message_transport (args_transport_options args) \<rparr>)))"

text \<open>
  \<open>quit\<close> tells that Ctrl-C comes while \<^verbatim>\<open>run_client\<close> still waits for one of these; opening the port does not wait. The
  result \<open>None\<close> is a run that Ctrl-C ended.
\<close>

definition factorio_run_client ::
  "'c host_env \<Rightarrow> 'm cache_env \<Rightarrow> igd \<Rightarrow> bool \<Rightarrow> (('c, 'm) started \<Rightarrow> unit res option) \<Rightarrow> socket_addr \<Rightarrow> factorio_client_args \<Rightarrow>
   unit res option \<times> igd_call list" where
  "factorio_run_client env ce d quit run_client_proxy server_address args =
     (if quit then (None, [])
      else case prepare_client env ce server_address (fc_host args, fc_port args) (client_args.truncate args) of
        Inl e \<Rightarrow> (Some (Inl e), [])
      | Inr st \<Rightarrow> with_port d (fc_upnp args) (fc_port args) (\<lambda>e. Some (Inl e)) (run_client_proxy st))"

definition nebula_run_client ::
  "'c host_env \<Rightarrow> 'm cache_env \<Rightarrow> bool \<Rightarrow> (('c, 'm) started \<Rightarrow> unit res option) \<Rightarrow> socket_addr \<Rightarrow> nebula_client_args \<Rightarrow>
   unit res option" where
  "nebula_run_client env ce quit run_client_proxy server_address args =
     (if quit then None
      else case prepare_client env ce server_address (nc_host args, nc_port args) (client_args.truncate args) of
        Inl e \<Rightarrow> Some (Inl e)
      | Inr st \<Rightarrow> run_client_proxy st)"

definition factorio_subcommand_client ::
  "'c host_env \<Rightarrow> ('cert, 'key, 'conf) tls \<Rightarrow> bytes \<Rightarrow> 'm cache_env \<Rightarrow> igd \<Rightarrow> bool \<Rightarrow> (('c, 'm) started \<Rightarrow> unit res option) \<Rightarrow>
   factorio_client_args \<Rightarrow> unit res \<times> igd_call list" where
  "factorio_subcommand_client env tls root ce d quit run_client_proxy args =
     (case create_client_endpoint env tls root (fc_server_address args) of
        Inl e \<Rightarrow> (Inl e, [])
      | Inr (endpoint, server_address) \<Rightarrow>
          (case factorio_run_client env ce d quit run_client_proxy server_address args of
             (r, calls) \<Rightarrow> (unwrap (fst (cli_wrapper r)), calls)))"

definition nebula_subcommand_client ::
  "'c host_env \<Rightarrow> ('cert, 'key, 'conf) tls \<Rightarrow> bytes \<Rightarrow> 'm cache_env \<Rightarrow> bool \<Rightarrow> (('c, 'm) started \<Rightarrow> unit res option) \<Rightarrow>
   nebula_client_args \<Rightarrow> unit res" where
  "nebula_subcommand_client env tls root ce quit run_client_proxy args =
     and_then (create_client_endpoint env tls root (nc_server_address args)) (\<lambda>(endpoint, server_address).
     unwrap (fst (cli_wrapper (nebula_run_client env ce quit run_client_proxy server_address args))))"

section \<open>The servers\<close>

text \<open>What a server hands to the handler of each of its connections; \<open>sd_lan_task\<close> tells whether the LAN discovery task runs.\<close>

record 'c served =
  sd_game_address :: socket_addr
  sd_transport :: message_transport
  sd_connections :: "'c list"

record ('c, 'f) factorio_served = "'c served" +
  sd_world_estimate_multiplier :: 'f
  sd_lan_task :: bool

definition prepare_server ::
  "'c host_env \<Rightarrow> ('cert, 'key, 'conf) tls \<Rightarrow> bytes \<Rightarrow> bytes \<Rightarrow> 'x server_args_scheme \<Rightarrow> socket_addr res" where
  "prepare_server env tls cert key args =
     and_then (resolve env (sa_game_address args)) (\<lambda>game_address.
     and_then (create_server_endpoint env tls cert key (sa_host args, sa_port args)) (\<lambda>_. Inr game_address))"

text \<open>The mapping lives until the end of \<^verbatim>\<open>subcommand_server\<close>, also when the last \<^verbatim>\<open>unwrap\<close> panics.\<close>

definition factorio_subcommand_server ::
  "'c host_env \<Rightarrow> ('cert, 'key, 'conf) tls \<Rightarrow> bytes \<Rightarrow> bytes \<Rightarrow> igd \<Rightarrow> 'c incoming list \<Rightarrow> 'f factorio_server_args \<Rightarrow>
   (unit res \<times> ('c, 'f) factorio_served option) \<times> igd_call list" where
  "factorio_subcommand_server env tls cert key d evs args =
     (case prepare_server env tls cert key args of
        Inl e \<Rightarrow> ((Inl e, None), [])
      | Inr factorio_address \<Rightarrow>
          with_port d (sa_upnp args) (sa_port args) (\<lambda>e. (unwrap (Inl e), None))
            (case subcommand_server evs of (r, conns) \<Rightarrow>
               (r, Some \<lparr> sd_game_address = factorio_address,
                 sd_transport = create_message_transport (server_transport_options args), sd_connections = conns,
                 sd_world_estimate_multiplier = fs_world_est_multiplier args, sd_lan_task = fs_auto_lan args \<rparr>)))"

definition nebula_subcommand_server ::
  "'c host_env \<Rightarrow> ('cert, 'key, 'conf) tls \<Rightarrow> bytes \<Rightarrow> bytes \<Rightarrow> igd \<Rightarrow> 'c incoming list \<Rightarrow> server_args \<Rightarrow>
   (unit res \<times> 'c served option) \<times> igd_call list" where
  "nebula_subcommand_server env tls cert key d evs args =
     (case prepare_server env tls cert key args of
        Inl e \<Rightarrow> ((Inl e, None), [])
      | Inr dsp_address \<Rightarrow>
          with_port d (sa_upnp args) (sa_port args) (\<lambda>e. (unwrap (Inl e), None))
            (case subcommand_server evs of (r, conns) \<Rightarrow>
               (r, Some \<lparr> sd_game_address = dsp_address,
                 sd_transport = create_message_transport (server_transport_options args), sd_connections = conns \<rparr>)))"

section \<open>Lemmas\<close>

lemma res_wrappers [simp]:
  "unwrap (Inr x) = Inr x" "expect msg (Inr x) = Inr x" "context_of msg (Inr x) = Inr x"
  "unwrap r = Inr x \<longleftrightarrow> r = Inr x" "expect msg r = Inr x \<longleftrightarrow> r = Inr x" "context_of msg r = Inr x \<longleftrightarrow> r = Inr x"
  by (auto simp: unwrap_def expect_def context_of_def split: sum.splits)

text \<open>The client pings at least twice before either side gives an idle connection up.\<close>

lemma connection_kept_alive:
  assumes "make_client_config tls root = Inr (c, cc)" "make_server_config tls cert key = Inr (s, sc)"
  shows "\<exists>ping. tc_keep_alive_interval cc = Some ping \<and>
    (\<exists>t. tc_max_idle_timeout cc = Some t \<and> 2 * ping < t) \<and> (\<exists>t. tc_max_idle_timeout sc = Some t \<and> 2 * ping < t)"
  using assms by (auto simp: make_client_config_def make_server_config_def and_then_Inr_iff idle_timeout_def QUIC_IDLE_TIMEOUT_def QUIC_KEEPALIVE_INTERVAL_def)

lemma client_endpoint_family:
  "create_client_endpoint env tls root address = Inr (ep, a) \<Longrightarrow> is_ipv6 (ep_local ep) = is_ipv6 a \<and> snd (ep_local ep) = 0"
proof -
  assume "create_client_endpoint env tls root address = Inr (ep, a)"
  then have "ep_local ep = (if is_ipv6 a then V6 0 else V4 0, 0)"
    by (auto simp: create_client_endpoint_def and_then_Inr_iff Let_def)
  then show ?thesis by (simp add: is_ipv6_def)
qed

text \<open>
  Whatever way a program ends, with an error, a panic or Ctrl-C: it asks for the port at most once, with a lease of a day that
  is not renewed, and when it got the port it gives it back as the last thing it does.
\<close>

definition port_given_back :: "igd \<Rightarrow> u16 \<Rightarrow> igd_call list \<Rightarrow> bool" where
  "port_given_back d port calls \<longleftrightarrow> calls = [] \<or>
     (\<exists>ip. calls = AddPort port (ip, port) 86400 ''FactorioCacher'' # (if add_port d = Inr () then [RemovePort port] else []))"

lemma no_calls: "port_given_back d port []"
  by (simp add: port_given_back_def)

lemma with_port_given_back: "port_given_back d port (snd (with_port d upnp port failed rest))"
  by (auto simp: with_port_def open_port_def drop_mapping_def port_given_back_def LEASE_DURATION_def context_of_def and_then_def split: sum.splits)

lemma factorio_client_gives_port_back:
  "port_given_back d (fc_port args) (snd (factorio_subcommand_client env tls root ce d quit proxy args))"
proof -
  have "port_given_back d (fc_port args) (snd (factorio_run_client env ce d quit proxy a args))" for a
    by (auto simp: factorio_run_client_def with_port_given_back no_calls split: sum.split)
  then show ?thesis
    by (auto simp: factorio_subcommand_client_def no_calls case_prod_beta split: sum.split)
qed

lemma factorio_server_gives_port_back:
  "port_given_back d (sa_port args) (snd (factorio_subcommand_server env tls cert key d evs args))"
  by (auto simp: factorio_subcommand_server_def with_port_given_back no_calls split: sum.split)

lemma nebula_server_gives_port_back:
  "port_given_back d (sa_port args) (snd (nebula_subcommand_server env tls cert key d evs args))"
  by (auto simp: nebula_subcommand_server_def with_port_given_back no_calls split: sum.split)

lemma factorio_client_defaults:
  assumes "start_connect env a ''localhost'' = Inr ()" "finish_connect env a ''localhost'' = Inr c" "bind_socket env (V4 0, 60120) = Inr ()" "ce_absolute ce ''persistent-cache'' = Inr path"
    "ce_files ce path = None"
  shows "factorio_run_client env ce d False proxy a (default_factorio_client address) =
    (proxy \<lparr> st_connection = c, st_listen = (V4 0, 60120), st_cache = cc_new (ce_map ce) 500000000,
       st_writer = \<lparr> wr_path = path, wr_interval = 60, wr_level = 3 \<rparr>, st_transport = mt_new 11 \<rparr>, [])"
  using assms by (simp add: factorio_run_client_def prepare_client_def client_connect_def default_factorio_client_def factorio_client_args.defs
      client_args.defs default_client_args_def create_cache_in_def create_chunk_cache_def args_cache_options_def args_transport_options_def
      create_message_transport_def DEFAULT_ZSTD_COMPRESSION_LEVEL_def with_port_def)

end
