(* ===== verification/Zip_Writer.thy ===== *)
theory Zip_Writer
  imports Utils Rev_Crc
begin

text \<open>
  The writer of zip archives (\<^verbatim>\<open>factorio-cacher/src/zip_writer.rs\<close>) and a reader of the zip format to judge it by.

  \<^item> A file name is the bytes of its UTF-8 encoding, which is what the code writes and measures.
  \<^item> A conversion that does not fit its width is the panic of \<^verbatim>\<open>expect\<close>. Offsets are \<^verbatim>\<open>usize\<close> and
    stay below the size of memory.
  \<^item> \<^verbatim>\<open>miniz_oxide\<close>'s \<^verbatim>\<open>compress_to_vec\<close> is the parameter \<open>deflate\<close>.
  \<^item> \<open>unzip\<close> is the specification: it finds the end record in the last 22 bytes, walks the central directory,
    and for every entry reads the local header at its offset, inflates the data and compares size and checksum.
\<close>

section \<open>Definitions\<close>

definition ZIP_CRC :: crc where "ZIP_CRC = crc_32_iso_hdlc"

record zip_entry_metadata =
  ze_start_offset :: nat
  ze_file_name :: bytes
  ze_file_name_size :: u16
  ze_compressed_size :: u32
  ze_uncompressed_size :: u32
  ze_compression_method :: u16
  ze_data_crc :: u32

record zip_writer =
  zw_current_offset :: nat
  zw_entries :: "zip_entry_metadata list"

definition CENTRAL_DIRECTORY_ENTRY_SIZE :: nat where "CENTRAL_DIRECTORY_ENTRY_SIZE = 46"
definition END_OF_CENTRAL_DIRECTORY_SIZE :: nat where "END_OF_CENTRAL_DIRECTORY_SIZE = 22"

definition zw_new :: zip_writer where
  "zw_new = \<lparr> zw_current_offset = 0, zw_entries = [] \<rparr>"

text \<open>\<^verbatim>\<open>try_into().expect(..)\<close> on a length.\<close>

definition expect_u32 :: "string \<Rightarrow> nat \<Rightarrow> u32 res" where
  "expect_u32 msg n = (if n < 2 ^ 32 then Inr (of_nat n) else Inl (Panic msg))"

definition expect_u16 :: "string \<Rightarrow> nat \<Rightarrow> u16 res" where
  "expect_u16 msg n = (if n < 2 ^ 16 then Inr (of_nat n) else Inl (Panic msg))"

type_synonym deflater = "u8 \<Rightarrow> bytes \<Rightarrow> bytes"

definition local_header :: "zip_entry_metadata \<Rightarrow> bytes" where
  "local_header e =
     put_u32_le 0x04034b50 @ put_u16_le 45 @ put_u16_le 0 @ put_u16_le (ze_compression_method e) @
     put_u16_le 0 @ put_u16_le 0 @ put_u32_le (ze_data_crc e) @ put_u32_le (ze_compressed_size e) @
     put_u32_le (ze_uncompressed_size e) @ put_u16_le (ze_file_name_size e) @ put_u16_le 0 @ ze_file_name e"

definition encode_file ::
  "deflater \<Rightarrow> bytes \<Rightarrow> bytes \<Rightarrow> u8 option \<Rightarrow> zip_writer \<Rightarrow> (bytes \<times> zip_writer) res" where
  "encode_file deflate file_name file_data deflate_level self =
     (let (final_data, compression_method) =
        (case deflate_level of Some l \<Rightarrow> (deflate l file_data, 8) | None \<Rightarrow> (file_data, 0));
        data_crc = crc_checksum ZIP_CRC file_data
      in and_then (expect_u32 ''Zip entry uncompressed size didn't fit in u32'' (length file_data)) (\<lambda>uncompressed_size.
         and_then (expect_u32 ''Zip entry compressed size didn't fit in u32'' (length final_data)) (\<lambda>compressed_size.
         and_then (expect_u16 ''File name length didn't fit in u16'' (length file_name)) (\<lambda>file_name_size.
         let e = \<lparr> ze_start_offset = zw_current_offset self, ze_file_name = file_name, ze_file_name_size = file_name_size,
               ze_compressed_size = compressed_size, ze_uncompressed_size = uncompressed_size,
               ze_compression_method = compression_method, ze_data_crc = data_crc \<rparr>;
             buf = local_header e
         in Inr (buf @ final_data,
              self\<lparr> zw_entries := zw_entries self @ [e],
                    zw_current_offset := zw_current_offset self + length buf + length final_data \<rparr>)))))"

definition advance_offset :: "nat \<Rightarrow> zip_writer \<Rightarrow> zip_writer" where
  "advance_offset offset self = self\<lparr> zw_current_offset := zw_current_offset self + offset \<rparr>"

definition central_entry :: "zip_entry_metadata \<Rightarrow> bytes res" where
  "central_entry e =
     and_then (expect_u32 ''Entry offset didn't fit in u32'' (ze_start_offset e)) (\<lambda>offset. Inr (
       put_u32_le 0x02014b50 @ put_u16_le 45 @ put_u16_le 45 @ put_u16_le 0 @ put_u16_le (ze_compression_method e) @
       put_u16_le 0 @ put_u16_le 0 @ put_u32_le (ze_data_crc e) @ put_u32_le (ze_compressed_size e) @
       put_u32_le (ze_uncompressed_size e) @ put_u16_le (ze_file_name_size e) @ put_u16_le 0 @ put_u16_le 0 @
       put_u16_le 0 @ put_u16_le 0 @ put_u32_le 0 @ put_u32_le offset @ ze_file_name e))"

primrec central_entries :: "zip_entry_metadata list \<Rightarrow> bytes res" where
  "central_entries [] = Inr []"
| "central_entries (e # es) = and_then (central_entry e) (\<lambda>b. and_then (central_entries es) (\<lambda>bs. Inr (b @ bs)))"

definition encode_central_directory :: "zip_writer \<Rightarrow> bytes res" where
  "encode_central_directory self =
     and_then (expect_u32 ''Central directory offset didn't fit in u32'' (zw_current_offset self)) (\<lambda>central_directory_offset.
     and_then (expect_u16 ''Entry count did not fit in u16'' (length (zw_entries self))) (\<lambda>entry_count.
     and_then (central_entries (zw_entries self)) (\<lambda>buf.
     and_then (expect_u32 ''Central directory size didn't fit in u32'' (length buf)) (\<lambda>central_directory_size.
     Inr (buf @ put_u32_le 0x06054b50 @ put_u16_le 0 @ put_u16_le 0 @ put_u16_le entry_count @ put_u16_le entry_count @
       put_u32_le central_directory_size @ put_u32_le central_directory_offset @ put_u16_le 0)))))"

definition central_directory_size :: "zip_writer \<Rightarrow> nat" where
  "central_directory_size self =
     foldl (\<lambda>size e. size + (CENTRAL_DIRECTORY_ENTRY_SIZE + length (ze_file_name e))) 0 (zw_entries self) +
     END_OF_CENTRAL_DIRECTORY_SIZE"

definition current_size :: "zip_writer \<Rightarrow> nat" where
  "current_size self = zw_current_offset self"

section \<open>The zip format\<close>

record central_record =
  cr_method :: u16
  cr_crc :: u32
  cr_compressed :: u32
  cr_uncompressed :: u32
  cr_name :: bytes
  cr_offset :: u32

definition expect_magic :: "u32 \<Rightarrow> bytes \<Rightarrow> (unit \<times> bytes) res" where
  "expect_magic m b = and_then (try_get_u32_le b) (\<lambda>(x, b). if x = m then Inr ((), b) else Inl (Anyhow ''invalid zip archive''))"

definition read_central :: "bytes \<Rightarrow> (central_record \<times> bytes) res" where
  "read_central b =
     and_then (expect_magic 0x02014b50 b) (\<lambda>(_, b). and_then (try_advance 6 b) (\<lambda>(_, b).
     and_then (try_get_u16_le b) (\<lambda>(method, b). and_then (try_advance 4 b) (\<lambda>(_, b).
     and_then (try_get_u32_le b) (\<lambda>(crc, b). and_then (try_get_u32_le b) (\<lambda>(csize, b).
     and_then (try_get_u32_le b) (\<lambda>(usize, b). and_then (try_get_u16_le b) (\<lambda>(nlen, b).
     and_then (try_get_u16_le b) (\<lambda>(xlen, b). and_then (try_get_u16_le b) (\<lambda>(clen, b).
     and_then (try_advance 8 b) (\<lambda>(_, b). and_then (try_get_u32_le b) (\<lambda>(offset, b).
     and_then (try_take (unat nlen) b) (\<lambda>(name, b). and_then (try_advance (unat xlen + unat clen) b) (\<lambda>(_, b).
     Inr (\<lparr> cr_method = method, cr_crc = crc, cr_compressed = csize, cr_uncompressed = usize, cr_name = name, cr_offset = offset \<rparr>, b)
     ))))))))))))))"

definition unpack :: "(bytes \<Rightarrow> bytes res) \<Rightarrow> central_record \<Rightarrow> bytes \<Rightarrow> (bytes \<times> bytes) res" where
  "unpack inflate r raw =
     and_then (if cr_method r = 0 then Inr raw else if cr_method r = 8 then inflate raw
       else Inl (Anyhow ''unsupported compression method'')) (\<lambda>content.
     if length content = unat (cr_uncompressed r) \<and> crc_checksum ZIP_CRC content = cr_crc r then Inr (cr_name r, content)
     else Inl (Anyhow ''invalid checksum''))"

definition read_local :: "(bytes \<Rightarrow> bytes res) \<Rightarrow> bytes \<Rightarrow> central_record \<Rightarrow> (bytes \<times> bytes) res" where
  "read_local inflate b r =
     and_then (try_advance (unat (cr_offset r)) b) (\<lambda>(_, b). and_then (expect_magic 0x04034b50 b) (\<lambda>(_, b).
     and_then (try_advance 22 b) (\<lambda>(_, b). and_then (try_get_u16_le b) (\<lambda>(nlen, b). and_then (try_get_u16_le b) (\<lambda>(xlen, b).
     and_then (try_advance (unat nlen + unat xlen) b) (\<lambda>(_, b). and_then (try_take (unat (cr_compressed r)) b) (\<lambda>(raw, b).
     unpack inflate r raw)))))))"

primrec collect :: "('a \<Rightarrow> 'b res) \<Rightarrow> 'a list \<Rightarrow> 'b list res" where
  "collect f [] = Inr []"
| "collect f (x # xs) = and_then (f x) (\<lambda>y. and_then (collect f xs) (\<lambda>ys. Inr (y # ys)))"

definition unzip :: "(bytes \<Rightarrow> bytes res) \<Rightarrow> bytes \<Rightarrow> (bytes \<times> bytes) list res" where
  "unzip inflate b =
     and_then (try_advance (length b - 22) b) (\<lambda>(_, e). and_then (expect_magic 0x06054b50 e) (\<lambda>(_, e).
     and_then (try_advance 6 e) (\<lambda>(_, e). and_then (try_get_u16_le e) (\<lambda>(count, e). and_then (try_get_u32_le e) (\<lambda>(size, e).
     and_then (try_get_u32_le e) (\<lambda>(offset, e). and_then (try_advance (unat offset) b) (\<lambda>(_, d).
     and_then (get_many read_central (unat count) d) (\<lambda>(rs, _). collect (read_local inflate b) rs))))))))"

section \<open>Sizes\<close>

lemma expect_Inr_iff [simp]:
  "expect_u32 m n = Inr x \<longleftrightarrow> n < 2 ^ 32 \<and> x = of_nat n" "expect_u16 m n = Inr y \<longleftrightarrow> n < 2 ^ 16 \<and> y = of_nat n"
  by (auto simp: expect_u32_def expect_u16_def)

lemma unat_of_nat_fits: "n < 2 ^ 32 \<Longrightarrow> unat (of_nat n :: u32) = n" "n < 2 ^ 16 \<Longrightarrow> unat (of_nat n :: u16) = n"
  by (simp_all add: unat_of_nat)

lemma length_local_header: "length (local_header e) = 30 + length (ze_file_name e)"
  by (simp add: local_header_def)

lemma length_central_entries:
  "central_entries es = Inr b \<Longrightarrow>
    length b = foldl (\<lambda>size e. size + (CENTRAL_DIRECTORY_ENTRY_SIZE + length (ze_file_name e))) 0 es"
proof -
  have "foldl (\<lambda>size e. size + (46 + length (ze_file_name e))) n es = n + foldl (\<lambda>size e. size + (46 + length (ze_file_name e))) 0 es" for n es
    by (induction es arbitrary: n) (simp, metis (no_types, lifting) add.assoc add_0 foldl_Cons)
  note acc = this
  show "central_entries es = Inr b \<Longrightarrow> ?thesis"
    unfolding CENTRAL_DIRECTORY_ENTRY_SIZE_def
  proof (induction es arbitrary: b)
    case (Cons e es)
    then show ?case by (subst foldl_Cons, subst acc) (auto simp: and_then_Inr_iff central_entry_def)
  qed simp
qed

lemma length_central_directory: "encode_central_directory w = Inr d \<Longrightarrow> length d = central_directory_size w"
  by (auto simp: encode_central_directory_def central_directory_size_def and_then_Inr_iff END_OF_CENTRAL_DIRECTORY_SIZE_def
      length_central_entries)

lemma encode_file_parts:
  assumes "encode_file deflate n d l w = Inr (out, w')"
  obtains e raw where "out = local_header e @ raw" "zw_entries w' = zw_entries w @ [e]"
    "zw_current_offset w' = zw_current_offset w + length out" "ze_start_offset e = zw_current_offset w"
    "ze_file_name e = n" "unat (ze_file_name_size e) = length n" "unat (ze_compressed_size e) = length raw"
    "unat (ze_uncompressed_size e) = length d" "ze_data_crc e = crc_checksum ZIP_CRC d"
    "case l of None \<Rightarrow> raw = d \<and> ze_compression_method e = 0 | Some l \<Rightarrow> raw = deflate l d \<and> ze_compression_method e = 8"
  using assms
  by (cases l) (fastforce simp: encode_file_def Let_def and_then_Inr_iff unat_of_nat_fits)+

section \<open>What the reader finds\<close>

definition record_of :: "zip_entry_metadata \<Rightarrow> central_record" where
  "record_of e = \<lparr> cr_method = ze_compression_method e, cr_crc = ze_data_crc e, cr_compressed = ze_compressed_size e,
     cr_uncompressed = ze_uncompressed_size e, cr_name = ze_file_name e, cr_offset = of_nat (ze_start_offset e) \<rparr>"

lemma try_advance_enough: "n \<le> length b \<Longrightarrow> try_advance n b = Inr ((), drop n b)"
  by (simp add: try_advance_def)

lemmas get_put_simps = u16c.dec_enc [of _ _, simplified] u32c.dec_enc [of _ _, simplified] try_advance_enough expect_magic_def

lemma read_central_entry:
  assumes "central_entry e = Inr b" "unat (ze_file_name_size e) = length (ze_file_name e)"
  shows "read_central (b @ r) = Inr (record_of e, r)"
  using assms by (auto simp: central_entry_def and_then_Inr_iff read_central_def get_put_simps record_of_def)

lemma read_central_entries:
  assumes "central_entries es = Inr b" "list_all (\<lambda>e. unat (ze_file_name_size e) = length (ze_file_name e)) es"
  shows "get_many read_central (length es) (b @ r) = Inr (map record_of es, r)"
  using assms
proof (induction es arbitrary: b)
  case (Cons e es)
  then obtain b1 b2 where "central_entry e = Inr b1" "central_entries es = Inr b2" "b = b1 @ b2"
    by (auto simp: and_then_Inr_iff)
  with Cons show ?case by (simp add: read_central_entry)
qed simp

lemma read_local_entry:
  assumes "ze_start_offset e = length p" "ze_start_offset e < 2 ^ 32" "unat (ze_file_name_size e) = length (ze_file_name e)"
    "unat (ze_compressed_size e) = length raw"
  shows "read_local inflate (p @ local_header e @ raw @ r) (record_of e) = unpack inflate (record_of e) raw"
  using assms unat_of_nat_fits(1) [of "length p"]
  by (auto simp: read_local_def local_header_def get_put_simps record_of_def)

text \<open>Every entry of the writer describes a file stored in the bytes written so far.\<close>

definition stores :: "(bytes \<Rightarrow> bytes res) \<Rightarrow> bytes \<Rightarrow> zip_entry_metadata \<Rightarrow> bytes \<times> bytes \<Rightarrow> bool" where
  "stores inflate b e f \<longleftrightarrow> unat (ze_file_name_size e) = length (ze_file_name e) \<and> ze_start_offset e \<le> length b \<and> ze_file_name e = fst f \<and>
     (ze_start_offset e < 2 ^ 32 \<longrightarrow> (\<forall>r. read_local inflate (b @ r) (record_of e) = Inr f))"

definition zw_ok :: "(bytes \<Rightarrow> bytes res) \<Rightarrow> bytes \<Rightarrow> zip_writer \<Rightarrow> (bytes \<times> bytes) list \<Rightarrow> bool" where
  "zw_ok inflate b w fs \<longleftrightarrow> zw_current_offset w = length b \<and> list_all2 (stores inflate b) (zw_entries w) fs"

lemma zw_ok_new [simp]: "zw_ok inflate [] zw_new []"
  by (simp add: zw_ok_def zw_new_def)

lemma stores_append: "stores inflate b e f \<Longrightarrow> stores inflate (b @ s) e f"
  by (auto simp: stores_def)

lemma zw_ok_advance: "zw_ok inflate b w fs \<Longrightarrow> length gap = n \<Longrightarrow> zw_ok inflate (b @ gap) (advance_offset n w) fs"
  by (auto simp: zw_ok_def advance_offset_def elim!: list_all2_mono intro: stores_append)

lemma zw_ok_encode_file:
  assumes "zw_ok inflate b w fs" "encode_file deflate n d l w = Inr (out, w')" "\<forall>l d. inflate (deflate l d) = Inr d"
  shows "zw_ok inflate (b @ out) w' (fs @ [(n, d)])"
proof -
  obtain e raw where e: "out = local_header e @ raw" "zw_entries w' = zw_entries w @ [e]"
    "zw_current_offset w' = zw_current_offset w + length out" "ze_start_offset e = zw_current_offset w"
    "ze_file_name e = n" "unat (ze_file_name_size e) = length n" "unat (ze_compressed_size e) = length raw"
    "unat (ze_uncompressed_size e) = length d" "ze_data_crc e = crc_checksum ZIP_CRC d"
    "case l of None \<Rightarrow> raw = d \<and> ze_compression_method e = 0 | Some l \<Rightarrow> raw = deflate l d \<and> ze_compression_method e = 8"
    by (rule encode_file_parts [OF assms(2)])
  have "unpack inflate (record_of e) raw = Inr (n, d)"
    using e(5,8-10) assms(3) by (cases l) (auto simp: unpack_def record_of_def)
  then have "stores inflate (b @ out) e (n, d)"
    using read_local_entry [of e b raw inflate] e(1,4-7) assms(1) by (auto simp: stores_def zw_ok_def)
  then show ?thesis
    using assms(1) e(2,3)
    by (auto simp: zw_ok_def intro!: list_all2_appendI elim!: list_all2_mono intro: stores_append)
qed

lemma collect_Inr: "list_all2 (\<lambda>x y. f x = Inr y) xs ys \<Longrightarrow> collect f xs = Inr ys"
  by (induction rule: list_all2_induct) auto

lemma central_entries_offsets: "central_entries es = Inr b \<Longrightarrow> list_all (\<lambda>e. ze_start_offset e < 2 ^ 32) es"
  by (induction es arbitrary: b) (auto simp: and_then_Inr_iff central_entry_def)

lemma unzip_written:
  assumes ok: "zw_ok inflate b w fs" and dir: "encode_central_directory w = Inr dir"
  shows "unzip inflate (b @ dir) = Inr fs"
proof -
  obtain cd where cd: "central_entries (zw_entries w) = Inr cd" "zw_current_offset w < 2 ^ 32" "length (zw_entries w) < 2 ^ 16"
    and dir_eq: "dir = cd @ put_u32_le 0x06054b50 @ put_u16_le 0 @ put_u16_le 0 @ put_u16_le (of_nat (length (zw_entries w))) @
       put_u16_le (of_nat (length (zw_entries w))) @ put_u32_le (of_nat (length cd)) @
       put_u32_le (of_nat (zw_current_offset w)) @ put_u16_le 0"
    using dir by (auto simp: encode_central_directory_def and_then_Inr_iff)
  note off = cd(2) [unfolded ok [unfolded zw_ok_def, THEN conjunct1]]
  have es: "list_all2 (stores inflate b) (zw_entries w) fs" and len: "zw_current_offset w = length b"
    using ok by (simp_all add: zw_ok_def)
  then have names: "list_all (\<lambda>e. unat (ze_file_name_size e) = length (ze_file_name e)) (zw_entries w)"
    by (auto simp: stores_def list_all2_conv_all_nth list_all_length)
  have "list_all2 (\<lambda>r f. read_local inflate (b @ dir) r = Inr f) (map record_of (zw_entries w)) fs"
    using es central_entries_offsets [OF cd(1)] by (auto simp: list_all2_conv_all_nth list_all_length stores_def)
  moreover have "get_many read_central (length (zw_entries w)) dir = Inr (map record_of (zw_entries w), drop (length cd) dir)"
    using read_central_entries [OF cd(1) names] by (simp add: dir_eq)
  ultimately show ?thesis
    unfolding unzip_def using unat_of_nat_fits(1) [OF off] unat_of_nat_fits(2) [OF cd(3)]
    by (simp add: dir_eq len get_put_simps collect_Inr)
qed

text \<open>Nothing the writer does panics below the limits of the format.\<close>

definition file_fits :: "deflater \<Rightarrow> bytes \<Rightarrow> bytes \<Rightarrow> u8 option \<Rightarrow> bool" where
  "file_fits deflate n d l \<longleftrightarrow> length n < 2 ^ 16 \<and> length d < 2 ^ 32 \<and>
     (case l of None \<Rightarrow> True | Some l \<Rightarrow> length (deflate l d) < 2 ^ 32)"

lemma encode_file_fits: "file_fits deflate n d l \<Longrightarrow> \<exists>out w'. encode_file deflate n d l w = Inr (out, w')"
  by (auto simp: encode_file_def file_fits_def Let_def expect_u32_def expect_u16_def split: option.splits)

lemma central_entries_fit: "list_all (\<lambda>e. ze_start_offset e < 2 ^ 32) es \<Longrightarrow> \<exists>b. central_entries es = Inr b"
  by (induction es) (auto simp: central_entry_def expect_u32_def)

lemma encode_central_directory_fits:
  assumes "zw_ok inflate b w fs" "length fs < 2 ^ 16" "length b + central_directory_size w < 2 ^ 32"
  shows "\<exists>dir. encode_central_directory w = Inr dir"
proof -
  have ok: "zw_current_offset w = length b" "list_all2 (stores inflate b) (zw_entries w) fs"
    using assms(1) by (simp_all add: zw_ok_def)
  then have "list_all (\<lambda>e. ze_start_offset e < 2 ^ 32) (zw_entries w)"
    using assms(3) by (fastforce simp: stores_def list_all2_conv_all_nth list_all_length)
  then obtain cd where cd: "central_entries (zw_entries w) = Inr cd"
    using central_entries_fit by blast
  then have "length cd \<le> central_directory_size w"
    by (simp add: length_central_entries central_directory_size_def)
  with cd ok assms(2,3) show ?thesis
    by (auto simp: encode_central_directory_def expect_u32_def expect_u16_def dest: list_all2_lengthD)
qed

lemma advance_offset_simps [simp]:
  "central_directory_size (advance_offset n w) = central_directory_size w"
  "current_size (advance_offset n w) = current_size w + n" "zw_entries (advance_offset n w) = zw_entries w"
  by (simp_all add: central_directory_size_def advance_offset_def current_size_def)

lemma central_directory_size_names:
  assumes "zw_ok inflate b w fs"
  shows "central_directory_size w = (\<Sum>f\<leftarrow>fs. 46 + length (fst f)) + 22"
proof -
  have "foldl (\<lambda>size e. size + (46 + length (ze_file_name e))) n es = n + (\<Sum>e\<leftarrow>es. 46 + length (ze_file_name e))" for n and es :: "zip_entry_metadata list"
    by (induction es arbitrary: n) simp_all
  moreover have "(\<Sum>e\<leftarrow>es. 46 + length (ze_file_name e)) = (\<Sum>f\<leftarrow>fs. 46 + length (fst f))" if "list_all2 (stores inflate b) es fs" for es
    using that by (induction rule: list_all2_induct) (simp_all add: stores_def)
  ultimately show ?thesis
    using assms by (simp add: central_directory_size_def zw_ok_def CENTRAL_DIRECTORY_ENTRY_SIZE_def END_OF_CENTRAL_DIRECTORY_SIZE_def)
qed

section \<open>Properties\<close>

text \<open>The calls a client of the writer makes for a list of files: name, content and level of each.\<close>

primrec encode_files ::
  "deflater \<Rightarrow> (bytes \<times> bytes \<times> u8 option) list \<Rightarrow> zip_writer \<Rightarrow> (bytes \<times> zip_writer) res" where
  "encode_files deflate [] w = Inr ([], w)"
| "encode_files deflate (f # fs) w =
     (case f of (n, d, l) \<Rightarrow> and_then (encode_file deflate n d l w) (\<lambda>(out, w').
        and_then (encode_files deflate fs w') (\<lambda>(outs, w''). Inr (out @ outs, w''))))"

lemma zw_ok_encode_files:
  assumes "encode_files deflate fs w = Inr (outs, w')" "zw_ok inflate b w gs" "\<forall>l d. inflate (deflate l d) = Inr d"
  shows "zw_ok inflate (b @ outs) w' (gs @ map (\<lambda>(n, d, l). (n, d)) fs)"
  using assms
proof (induction fs arbitrary: w b gs outs)
  case (Cons f fs)
  obtain n d l where f: "f = (n, d, l)" by (cases f)
  with Cons.prems(1) obtain out w1 outs1 where 1: "encode_file deflate n d l w = Inr (out, w1)"
    "encode_files deflate fs w1 = Inr (outs1, w')" "outs = out @ outs1"
    by (auto simp: and_then_Inr_iff)
  from Cons.IH [OF 1(2) zw_ok_encode_file [OF Cons.prems(2) 1(1) Cons.prems(3)] Cons.prems(3)] show ?case
    by (simp add: f 1(3))
qed simp

text \<open>
  C21. The archives are readable: write any files, leave any gap, and append the central directory. A reader of the
  format finds exactly the files written, with names, contents, sizes and checksums, and the whole has exactly the
  size the writer predicted.
\<close>

theorem zip_archive_readable:
  assumes "\<forall>l d. inflate (deflate l d) = Inr d"
    "encode_files deflate fs zw_new = Inr (body, w)"
    "encode_central_directory (advance_offset (length gap) w) = Inr dir"
  shows "unzip inflate (body @ gap @ dir) = Inr (map (\<lambda>(n, d, l). (n, d)) fs) \<and>
    length (body @ gap @ dir) = current_size w + length gap + central_directory_size w"
proof -
  have ok: "zw_ok inflate body w (map (\<lambda>(n, d, l). (n, d)) fs)"
    using zw_ok_encode_files [OF assms(2) zw_ok_new assms(1)] by simp
  from unzip_written [OF zw_ok_advance [OF this refl] assms(3)] show ?thesis
    using length_central_directory [OF assms(3)] ok by (simp add: zw_ok_def current_size_def)
qed

lemma zip_example:
  "\<exists>body w dir. encode_files (\<lambda>l d. d) [([97], [1, 2], None), ([98], [3], Some 1)] zw_new = Inr (body, w) \<and>
    encode_central_directory (advance_offset (length [0, 0, 0 :: u8]) w) = Inr dir"
  by (simp add: encode_file_def Let_def expect_u32_def expect_u16_def zw_new_def local_header_def advance_offset_def
      encode_central_directory_def central_entry_def)

theorem zip_archive_readable_witness:
  "\<exists>body dir. unzip Inr (body @ [0, 0, 0] @ dir) = Inr [([97], [1, 2]), ([98], [3])]"
proof -
  obtain body w dir where "encode_files (\<lambda>l d. d) [([97], [1, 2], None), ([98], [3], Some 1)] zw_new = Inr (body, w)"
    "encode_central_directory (advance_offset (length [0, 0, 0 :: u8]) w) = Inr dir"
    using zip_example by blast
  from zip_archive_readable [OF _ this, of Inr] show ?thesis by auto
qed

end
