(* ===== verification/Factorio_Protocol.thy ===== *)
theory Factorio_Protocol
  imports Utils
begin

text \<open>
  The packets of the game (\<^verbatim>\<open>factorio-cacher/src/factorio_protocol.rs\<close>) and the datagrams the two proxies exchange
  (\<^verbatim>\<open>factorio-cacher/src/protocol.rs\<close>): packet types, the packet header with its fragmentation
  fields, block requests and blocks, the heartbeat that announces a map download, and the metadata of a world.

  \<^item> The variable-length integer of a datagram's peer id is \<^verbatim>\<open>quinn\<close>'s: a writer and a reader that are
    parameters, with the \<open>codec\<close> contract.
  \<^item> \<^verbatim>\<open>HeartbeatFlags\<close> is the byte itself (\<^verbatim>\<open>from_bits_retain\<close>).
\<close>

section \<open>Definitions\<close>

definition TRANSFER_BLOCK_SIZE :: u32 where "TRANSFER_BLOCK_SIZE = 503"

datatype packet_type =
    ServerToClientHeartbeat
  | TransferBlockRequest
  | TransferBlock
  | Unknown u8

definition packet_type_from_u8 :: "u8 \<Rightarrow> packet_type" where
  "packet_type_from_u8 val =
     (if val = 7 then ServerToClientHeartbeat
      else if val = 12 then TransferBlockRequest
      else if val = 13 then TransferBlock
      else Unknown val)"

fun packet_type_into_u8 :: "packet_type \<Rightarrow> u8" where
  "packet_type_into_u8 ServerToClientHeartbeat = 7"
| "packet_type_into_u8 TransferBlockRequest = 12"
| "packet_type_into_u8 TransferBlock = 13"
| "packet_type_into_u8 (Unknown val) = val"

record packet_fragmentation_info =
  is_last_fragment :: bool
  message_id :: u16
  fragment_id :: "u16 option"

record factorio_packet_header =
  packet_type :: packet_type
  fragmentation :: "packet_fragmentation_info option"

definition header_new_unfragmented :: "packet_type \<Rightarrow> factorio_packet_header" where
  "header_new_unfragmented t = \<lparr> packet_type = t, fragmentation = None \<rparr>"

text \<open>The fragmentation fields, present when one of the two flags is set.\<close>

definition decode_fragment_id :: "bool \<Rightarrow> bytes \<Rightarrow> (u16 option \<times> bytes) res" where
  "decode_fragment_id is_fragmented data =
     (if is_fragmented then and_then (try_get_factorio_varint16 data) (\<lambda>(i, data). Inr (Some i, data)) else Inr (None, data))"

definition skip_confirms :: "u16 \<Rightarrow> bytes \<Rightarrow> (unit \<times> bytes) res" where
  "skip_confirms mid data =
     (if mid AND 0x8000 \<noteq> 0 then and_then (try_get_u32_le data) (\<lambda>(len, data). try_advance (unat len) data)
      else Inr ((), data))"

definition decode_fragmentation :: "bool \<Rightarrow> bool \<Rightarrow> bytes \<Rightarrow> (packet_fragmentation_info \<times> bytes) res" where
  "decode_fragmentation is_fragmented is_last data =
     and_then (try_get_u16_le data) (\<lambda>(mid, data).
     and_then (decode_fragment_id is_fragmented data) (\<lambda>(fid, data).
     and_then (skip_confirms mid data) (\<lambda>(_, data).
     Inr (\<lparr> is_last_fragment = is_last, message_id = mid AND 0x7FFF, fragment_id = fid \<rparr>, data))))"

definition header_decode :: "bytes \<Rightarrow> (factorio_packet_header \<times> bytes) res" where
  "header_decode data =
     and_then (try_get_u8 data) (\<lambda>(flags, data).
       let t = packet_type_from_u8 (flags AND 0b00011111);
           is_fragmented = (flags AND 0b01000000 \<noteq> 0);
           is_last = (flags AND 0b10000000 \<noteq> 0)
       in if is_fragmented \<or> is_last then
            and_then (decode_fragmentation is_fragmented is_last data) (\<lambda>(f, data).
              Inr (\<lparr> packet_type = t, fragmentation = Some f \<rparr>, data))
          else Inr (\<lparr> packet_type = t, fragmentation = None \<rparr>, data))"

definition header_encode :: "factorio_packet_header \<Rightarrow> bytes res" where
  "header_encode h =
     (if fragmentation h \<noteq> None then Inl (Panic ''Encoding fragmented packets is unsupported'')
      else Inr (put_u8 (packet_type_into_u8 (packet_type h))))"

text \<open>The default method of the trait \<^verbatim>\<open>FactorioPacket\<close>: the header, then the body.\<close>

definition encode_full_packet :: "packet_type \<Rightarrow> bytes \<Rightarrow> bytes res" where
  "encode_full_packet t body = and_then (header_encode (header_new_unfragmented t)) (\<lambda>h. Inr (h @ body))"

record transfer_block_request_packet =
  tbr_block_id :: u32

definition tbr_decode :: "bytes \<Rightarrow> transfer_block_request_packet res" where
  "tbr_decode data = and_then (try_get_u32_le data) (\<lambda>(block_id, _). Inr \<lparr> tbr_block_id = block_id \<rparr>)"

definition tbr_encode :: "transfer_block_request_packet \<Rightarrow> bytes" where
  "tbr_encode p = put_u32_le (tbr_block_id p)"

record transfer_block_packet =
  tb_block_id :: u32
  tb_data :: bytes

definition tb_decode :: "bytes \<Rightarrow> transfer_block_packet res" where
  "tb_decode data = and_then (try_get_u32_le data) (\<lambda>(block_id, data). Inr \<lparr> tb_block_id = block_id, tb_data = data \<rparr>)"

definition tb_encode :: "transfer_block_packet \<Rightarrow> bytes" where
  "tb_encode p = put_u32_le (tb_block_id p) @ tb_data p"

text \<open>The packets as they go out; encoding an unfragmented header does not panic.\<close>

definition request_packet :: "u32 \<Rightarrow> bytes" where
  "request_packet block_id = projr (encode_full_packet TransferBlockRequest (tbr_encode \<lparr> tbr_block_id = block_id \<rparr>))"

definition block_packet :: "transfer_block_packet \<Rightarrow> bytes" where
  "block_packet p = projr (encode_full_packet TransferBlock (tb_encode p))"

definition HasSynchronizerActions :: u8 where "HasSynchronizerActions = 0x10"
definition MAP_READY_FOR_DOWNLOAD_ACTION_ID :: u8 where "MAP_READY_FOR_DOWNLOAD_ACTION_ID = 5"

record factorio_world_metadata =
  world_size :: u32
  no_idea1 :: u32
  aux_size :: u32
  no_idea2 :: u32
  world_crc :: u32

definition wm_decode :: "bytes \<Rightarrow> (factorio_world_metadata \<times> bytes) res" where
  "wm_decode data =
     and_then (try_get_u32_le data) (\<lambda>(a, data).
     and_then (try_get_u32_le data) (\<lambda>(b, data).
     and_then (try_get_u32_le data) (\<lambda>(c, data).
     and_then (try_get_u32_le data) (\<lambda>(d, data).
     and_then (try_get_u32_le data) (\<lambda>(e, data).
     Inr (\<lparr> world_size = a, no_idea1 = b, aux_size = c, no_idea2 = d, world_crc = e \<rparr>, data))))))"

definition wm_encode :: "factorio_world_metadata \<Rightarrow> bytes" where
  "wm_encode w = put_u32_le (world_size w) @ put_u32_le (no_idea1 w) @ put_u32_le (aux_size w) @
     put_u32_le (no_idea2 w) @ put_u32_le (world_crc w)"

record server_to_client_heartbeat_packet =
  hb_flags :: u8
  hb_data :: bytes

definition hb_decode :: "bytes \<Rightarrow> server_to_client_heartbeat_packet res" where
  "hb_decode data =
     and_then (try_get_u8 data) (\<lambda>(flags, data).
     and_then (try_get_u32_le data) (\<lambda>(_, data).
     Inr \<lparr> hb_flags = flags, hb_data = data \<rparr>))"

definition try_decode_map_ready :: "server_to_client_heartbeat_packet \<Rightarrow> factorio_world_metadata option res" where
  "try_decode_map_ready p =
     (if hb_flags p = HasSynchronizerActions then
        and_then (try_get_factorio_varint32 (hb_data p)) (\<lambda>(action_count, data).
          if 0 < action_count then
            and_then (try_get_u8 data) (\<lambda>(action_type, data).
              if action_type = MAP_READY_FOR_DOWNLOAD_ACTION_ID then
                and_then (wm_decode data) (\<lambda>(w, _). Inr (Some w))
              else Inr None)
          else Inr None)
      else Inr None)"

subsection \<open>Datagrams\<close>

record 'i datagram =
  dg_peer_id :: 'i
  dg_data :: bytes

definition dg_new :: "'i \<Rightarrow> bytes \<Rightarrow> 'i datagram" where
  "dg_new peer_id data = \<lparr> dg_peer_id = peer_id, dg_data = data \<rparr>"

definition dg_decode :: "(bytes \<Rightarrow> ('i \<times> bytes) res) \<Rightarrow> bytes \<Rightarrow> 'i datagram res" where
  "dg_decode varint_decode data =
     and_then (varint_decode data) (\<lambda>(peer_id, data). Inr \<lparr> dg_peer_id = peer_id, dg_data = data \<rparr>)"

definition dg_encode :: "('i \<Rightarrow> bytes) \<Rightarrow> 'i datagram \<Rightarrow> bytes" where
  "dg_encode varint_encode d = varint_encode (dg_peer_id d) @ dg_data d"

section \<open>Readers and codecs\<close>

interpretation wmc: codec "\<lambda>_. True" wm_encode wm_decode
proof
  fix x :: factorio_world_metadata and r
  show "wm_decode (wm_encode x @ r) = Inr (x, r)"
    by (simp add: wm_decode_def wm_encode_def u32c.dec_enc)
next
  fix b x r assume "wm_decode b = Inr (x, r)"
  then show "True \<and> b = wm_encode x @ r"
    by (auto simp: wm_decode_def wm_encode_def and_then_Inr_iff u32c.dec_iff)
qed

lemma length_wm_encode [simp]: "length (wm_encode w) = 20"
  by (simp add: wm_encode_def)

lemma reader_fragment_id: "reader (decode_fragment_id f)"
  unfolding decode_fragment_id_def [abs_def]
  by (cases f) (simp_all add: reader_return reader_and_then [OF varint16.reader_axioms reader_return, simplified])

lemma reader_skip_confirms: "reader (skip_confirms mid)"
  unfolding skip_confirms_def [abs_def]
  by (cases "mid AND 0x8000 = 0") (simp_all add: reader_return reader_and_then [OF u32c.reader_axioms advance.reader_axioms])

lemma reader_fragmentation: "reader (decode_fragmentation f l)"
  unfolding decode_fragmentation_def [abs_def]
  by (intro reader_and_then u16c.reader_axioms reader_fragment_id reader_skip_confirms reader_return)

interpretation hdr: reader header_decode
proof -
  have "reader (\<lambda>data. let t = packet_type_from_u8 (flags AND 0b00011111);
           is_fragmented = (flags AND 0b01000000 \<noteq> 0); is_last = (flags AND 0b10000000 \<noteq> 0)
       in if is_fragmented \<or> is_last then
            and_then (decode_fragmentation is_fragmented is_last data) (\<lambda>(f, data).
              Inr (\<lparr> packet_type = t, fragmentation = Some f \<rparr>, data))
          else Inr (\<lparr> packet_type = t, fragmentation = None \<rparr>, data))" for flags
    by (cases "flags AND 0b01000000 \<noteq> 0 \<or> flags AND 0b10000000 \<noteq> 0")
      (simp_all only: Let_def if_True if_False reader_return reader_and_then [OF reader_fragmentation reader_return])
  from reader_and_then [OF u8c.reader_axioms this]
  show "reader header_decode" by (simp add: header_decode_def [abs_def])
qed

section \<open>Errors are never panics\<close>

lemma try_get_not_panic:
  "try_get_u8 b = Inl e \<Longrightarrow> \<not> is_panic e" "try_get_u16_le b = Inl e \<Longrightarrow> \<not> is_panic e"
  "try_get_u32_le b = Inl e \<Longrightarrow> \<not> is_panic e" "try_advance n b = Inl e \<Longrightarrow> \<not> is_panic e"
  by (auto simp: try_get_defs try_advance_def and_then_Inl_iff try_take_Inl_iff split: if_splits)

lemma varint16_not_panic: "try_get_factorio_varint16 b = Inl e \<Longrightarrow> \<not> is_panic e"
  by (auto simp: try_get_factorio_varint16_def and_then_Inl_iff try_get_not_panic split: if_splits)

lemma header_not_panic: "header_decode b = Inl e \<Longrightarrow> \<not> is_panic e"
  by (auto simp: header_decode_def decode_fragmentation_def decode_fragment_id_def skip_confirms_def Let_def
      and_then_Inl_iff try_get_not_panic varint16_not_panic split: if_splits)

section \<open>What the proxies send\<close>

lemma header_decode_plain:
  assumes "t \<in> {ServerToClientHeartbeat, TransferBlockRequest, TransferBlock}"
  shows "header_decode (packet_type_into_u8 t # r) = Inr (header_new_unfragmented t, r)"
  using assms by (auto simp: header_decode_def packet_type_from_u8_def header_new_unfragmented_def)

lemma encode_full_packet_plain: "encode_full_packet t body = Inr (packet_type_into_u8 t # body)"
  by (simp add: encode_full_packet_def header_encode_def header_new_unfragmented_def put_u8_def)

lemma request_packet_simps:
  "header_decode (request_packet i) = Inr (header_new_unfragmented TransferBlockRequest, put_u32_le i)"
  "tbr_decode (put_u32_le i) = Inr \<lparr> tbr_block_id = i \<rparr>"
  using header_decode_plain [of TransferBlockRequest "put_u32_le i"] u32c.dec_enc [of i "[]"]
  by (simp_all add: request_packet_def encode_full_packet_plain tbr_encode_def tbr_decode_def)

lemma block_packet_simps:
  "header_decode (block_packet p) = Inr (header_new_unfragmented TransferBlock, tb_encode p)"
  "tb_decode (tb_encode p) = Inr p"
  using header_decode_plain [of TransferBlock "tb_encode p"] u32c.dec_enc [of "tb_block_id p" "tb_data p"]
  by (simp_all add: block_packet_def encode_full_packet_plain tb_encode_def tb_decode_def)

text \<open>The metadata inside an announcement.\<close>

lemma map_ready_split:
  assumes "and_then (hb_decode d) try_decode_map_ready = Inr (Some w)"
  shows "\<exists>p r. d = p @ wm_encode w @ r \<and>
    (\<forall>w'. and_then (hb_decode (p @ wm_encode w' @ r)) try_decode_map_ready = Inr (Some w'))"
proof -
  from assms obtain flags d1 n d2 cnt d3 t d4 r where
    1: "try_get_u8 d = Inr (flags, d1)" "try_get_u32_le d1 = Inr (n, d2)" "flags = HasSynchronizerActions"
    and 2: "try_get_factorio_varint32 d2 = Inr (cnt, d3)" "0 < cnt"
    and 3: "try_get_u8 d3 = Inr (t, d4)" "t = MAP_READY_FOR_DOWNLOAD_ACTION_ID" "wm_decode d4 = Inr (w, r)"
    by (auto simp: hb_decode_def try_decode_map_ready_def and_then_Inr_iff split: if_splits)
  obtain v where v: "d2 = v @ d3" "\<forall>s. try_get_factorio_varint32 (v @ s) = Inr (cnt, s)"
    using varint32.dec_prefix [OF 2(1)] by blast
  have d: "d = (put_u8 flags @ put_u32_le n @ v @ put_u8 t) @ wm_encode w @ r"
    using u8c.dec_sound [OF 1(1)] u32c.dec_sound [OF 1(2)] v(1) u8c.dec_sound [OF 3(1)] wmc.dec_sound [OF 3(3)] by simp
  have "and_then (hb_decode ((put_u8 flags @ put_u32_le n @ v @ put_u8 t) @ wm_encode w' @ r)) try_decode_map_ready = Inr (Some w')" for w'
    using 1(3) 2(2) 3(2) v(2)
    by (simp add: hb_decode_def try_decode_map_ready_def u8c.dec_enc u32c.dec_enc wmc.dec_enc)
  with d show ?thesis by blast
qed

section \<open>Properties\<close>

text \<open>
  C33. The packets the proxies build are read back by the game's protocol: for every block id and every block, the
  full packet decodes to an unfragmented header of its type and a body that decodes to the same packet; and
  every packet type has the byte it was read from.
\<close>

theorem packets_roundtrip:
  "(\<exists>body. encode_full_packet TransferBlockRequest (tbr_encode q) = Inr (request_packet (tbr_block_id q)) \<and>
     header_decode (request_packet (tbr_block_id q)) = Inr (header_new_unfragmented TransferBlockRequest, body) \<and> tbr_decode body = Inr q) \<and>
   (\<exists>body. encode_full_packet TransferBlock (tb_encode p) = Inr (block_packet p) \<and>
     header_decode (block_packet p) = Inr (header_new_unfragmented TransferBlock, body) \<and> tb_decode body = Inr p) \<and>
   packet_type_into_u8 (packet_type_from_u8 v) = v"
proof (intro conjI)
  show "\<exists>body. encode_full_packet TransferBlockRequest (tbr_encode q) = Inr (request_packet (tbr_block_id q)) \<and>
     header_decode (request_packet (tbr_block_id q)) = Inr (header_new_unfragmented TransferBlockRequest, body) \<and> tbr_decode body = Inr q"
    using request_packet_simps [of "tbr_block_id q"] by (cases q) (simp add: request_packet_def encode_full_packet_plain)
  show "\<exists>body. encode_full_packet TransferBlock (tb_encode p) = Inr (block_packet p) \<and>
     header_decode (block_packet p) = Inr (header_new_unfragmented TransferBlock, body) \<and> tb_decode body = Inr p"
    using block_packet_simps by (simp add: block_packet_def encode_full_packet_plain)
  show "packet_type_into_u8 (packet_type_from_u8 v) = v" by (simp add: packet_type_from_u8_def)
qed

text \<open>
  Reading a header is safe and local: on any bytes it ends in an error that is not a panic, or it consumes a
  non-empty prefix, and the same prefix gives the same header whatever follows it.
\<close>

lemma header_decode_local:
  "case header_decode b of
     Inl e \<Rightarrow> \<not> is_panic e
   | Inr (h, r) \<Rightarrow> \<exists>p. p \<noteq> [] \<and> b = p @ r \<and> (\<forall>s. header_decode (p @ s) = Inr (h, s))"
proof (cases "header_decode b")
  case (Inl e)
  then show ?thesis using header_not_panic by simp
next
  case (Inr x)
  obtain h r where x: "x = (h, r)" by fastforce
  from hdr.dec_prefix [of b h r] Inr x obtain p where p: "b = p @ r" "\<forall>s. header_decode (p @ s) = Inr (h, s)" by blast
  have "header_decode [] = Inl (TryGetError 1 0)" by (simp add: header_decode_def)
  with p(2) have "p \<noteq> []" by (metis Inl_Inr_False append_Nil)
  with p Inr x show ?thesis by auto
qed

end
