(* ===== verification/Factorio_World.thy ===== *)
theory Factorio_World
  imports Dedup Zip_Writer Factorio_Protocol
begin

text \<open>
  Taking a saved world apart and putting it together again (\<^verbatim>\<open>factorio-cacher/src/factorio_world.rs\<close>).

  \<^item> \<^verbatim>\<open>miniz_oxide\<close> is the record \<open>miniz\<close> of its three functions; \<open>miniz_ok\<close> states what their documentation
    promises: compressed data inflates to the original, and the limit of the decompressor is respected.
  \<^item> The \<^verbatim>\<open>zip\<close> crate's reader is the parameter \<open>zip_archive\<close>: opening an archive yields its entries, each of which
    may fail to open, and whose content may fail to be read.
  \<^item> \<^verbatim>\<open>crc::Digest\<close> is the state of the CRC.
  \<^item> Block counts are computed in \<^verbatim>\<open>u32\<close> and wrap. A \<^verbatim>\<open>usize\<close> difference below zero is a length no
    buffer can have, and resizing to it is a panic.
\<close>

section \<open>Definitions\<close>

definition FACTORIO_CRC :: crc where "FACTORIO_CRC = crc_32_iso_hdlc"
definition FACTORIO_REV_CRC :: rev_crc where "FACTORIO_REV_CRC = rev_crc_new FACTORIO_CRC"
definition RECONSTRUCT_DEFLATE_LEVEL :: u8 where "RECONSTRUCT_DEFLATE_LEVEL = 1"

record miniz =
  compress_to_vec :: deflater
  compress_to_vec_zlib :: deflater
  decompress_to_vec_zlib_with_limit :: "nat \<Rightarrow> bytes \<Rightarrow> bytes res"

type_synonym zip_archive = "bytes \<Rightarrow> (bytes \<times> bytes res) res list res"

datatype factorio_file_type = Normal | Zlib

record factorio_file_description =
  fd_file_type :: factorio_file_type
  fd_file_name :: bytes
  fd_content_size :: u64
  fd_chunk_list :: chunk_list

record factorio_world_description =
  wd_files :: "factorio_file_description list"
  wd_aux_data :: bytes
  wd_total_chunks :: u64

record factorio_file =
  ff_file_type :: factorio_file_type
  ff_data :: bytes

subsection \<open>Files\<close>

text \<open>\<^verbatim>\<open>"level.dat"\<close>, and the part of a name after its last slash.\<close>

definition level_dat :: bytes where
  "level_dat = [0x6C, 0x65, 0x76, 0x65, 0x6C, 0x2E, 0x64, 0x61, 0x74]"

definition base_name :: "bytes \<Rightarrow> bytes" where
  "base_name n = rev (takeWhile (\<lambda>c. c \<noteq> 0x2F) (rev n))"

definition is_level_dat :: "bytes \<Rightarrow> bool" where
  "is_level_dat n = (let name = base_name n in
     take 9 name = level_dat \<and> list_all (\<lambda>c. 0x30 \<le> c \<and> c \<le> 0x39) (drop 9 name))"

definition decode_factorio_file :: "miniz \<Rightarrow> bytes \<Rightarrow> bytes \<Rightarrow> factorio_file res" where
  "decode_factorio_file mz file_name file_data =
     (if is_level_dat file_name
      then and_then (decompress_to_vec_zlib_with_limit mz 20000000 file_data) (\<lambda>uncompressed_data.
        Inr \<lparr> ff_file_type = Zlib, ff_data = uncompressed_data \<rparr>)
      else Inr \<lparr> ff_file_type = Normal, ff_data = file_data \<rparr>)"

definition encode_factorio_file :: "miniz \<Rightarrow> factorio_file \<Rightarrow> bytes" where
  "encode_factorio_file mz f =
     (case ff_file_type f of
        Normal \<Rightarrow> ff_data f
      | Zlib \<Rightarrow> compress_to_vec_zlib mz RECONSTRUCT_DEFLATE_LEVEL (ff_data f))"

subsection \<open>Taking a world apart\<close>

definition chunk_file ::
  "hash_fun \<Rightarrow> bytes \<Rightarrow> factorio_file \<Rightarrow> chunk_store \<Rightarrow> (factorio_file_description \<times> chunk_store) res" where
  "chunk_file H file_name f chunks =
     and_then (chunk_data H (ff_data f) chunks) (\<lambda>(chunk_list, chunks).
     and_then (minimize_chunk_list H chunk_list chunks) (\<lambda>(chunk_list, chunks).
     Inr (\<lparr> fd_file_type = ff_file_type f, fd_file_name = file_name, fd_content_size = of_nat (length (ff_data f)),
            fd_chunk_list = chunk_list \<rparr>, chunks)))"

primrec deconstruct_files ::
  "hash_fun \<Rightarrow> miniz \<Rightarrow> (bytes \<times> bytes res) res list \<Rightarrow> chunk_store \<Rightarrow> (factorio_file_description list \<times> chunk_store) res" where
  "deconstruct_files H mz [] chunks = Inr ([], chunks)"
| "deconstruct_files H mz (entry # entries) chunks =
     and_then entry (\<lambda>(name, content).
     and_then content (\<lambda>buf.
     and_then (decode_factorio_file mz name buf) (\<lambda>decoded_file.
     and_then (chunk_file H name decoded_file chunks) (\<lambda>(desc, chunks).
     and_then (deconstruct_files H mz entries chunks) (\<lambda>(descs, chunks). Inr (desc # descs, chunks))))))"

definition deconstruct_world ::
  "hash_fun \<Rightarrow> miniz \<Rightarrow> zip_archive \<Rightarrow> bytes \<Rightarrow> bytes \<Rightarrow> (factorio_world_description \<times> chunk_store) res" where
  "deconstruct_world H mz zip_new world_data aux_data =
     and_then (zip_new world_data) (\<lambda>entries.
     and_then (deconstruct_files H mz entries []) (\<lambda>(files, chunks).
     Inr (\<lparr> wd_files = files, wd_aux_data = aux_data, wd_total_chunks = of_nat (store_len chunks) \<rparr>, chunks)))"

subsection \<open>Putting it together\<close>

record world_reconstructor =
  wr_zip_writer :: zip_writer
  wr_crc_hasher :: u32

definition wr_new :: world_reconstructor where
  "wr_new = \<lparr> wr_zip_writer = zw_new, wr_crc_hasher = crc_digest FACTORIO_CRC \<rparr>"

definition wr_hash :: "bytes \<Rightarrow> world_reconstructor \<Rightarrow> world_reconstructor" where
  "wr_hash b self = self\<lparr> wr_crc_hasher := crc_update FACTORIO_CRC (wr_crc_hasher self) b \<rparr>"

text \<open>\<open>None\<close>: the stream of chunks has not ended within the fuel.\<close>

definition deflate_level_of :: "factorio_file_type \<Rightarrow> u8 option" where
  "deflate_level_of t = (case t of Normal \<Rightarrow> Some RECONSTRUCT_DEFLATE_LEVEL | Zlib \<Rightarrow> None)"

definition reconstruct_world_file ::
  "nat \<Rightarrow> miniz \<Rightarrow> 's chunk_provider \<Rightarrow> factorio_file_description \<Rightarrow> world_reconstructor \<Rightarrow> 's \<Rightarrow>
    (bytes res \<times> world_reconstructor \<times> 's) option" where
  "reconstruct_world_file fuel mz prov file_desc self s =
     (case reconstruct_data fuel prov (fd_chunk_list file_desc) s of
        None \<Rightarrow> None
      | Some (_, Inl e, s') \<Rightarrow> Some (Inl e, self, s')
      | Some (cs, Inr _, s') \<Rightarrow>
          let file_data = encode_factorio_file mz \<lparr> ff_file_type = fd_file_type file_desc, ff_data = concat cs \<rparr>
          in (case encode_file (compress_to_vec mz) (fd_file_name file_desc) file_data
                     (deflate_level_of (fd_file_type file_desc)) (wr_zip_writer self) of
                Inl e \<Rightarrow> Some (Inl e, self, s')
              | Inr (zip_entry_data, zw) \<Rightarrow> Some (Inr zip_entry_data, wr_hash zip_entry_data (self\<lparr> wr_zip_writer := zw \<rparr>), s')))"

definition assert_eq :: "'a \<Rightarrow> 'a \<Rightarrow> string \<Rightarrow> unit res" where
  "assert_eq x y msg = (if x = y then Inr () else Inl (Panic msg))"

text \<open>\<^verbatim>\<open>b.resize(aligned - size + b.len(), 0)\<close>\<close>

definition resize_to :: "nat \<Rightarrow> nat \<Rightarrow> bytes \<Rightarrow> bytes res" where
  "resize_to aligned actual b =
     (if aligned + length b < actual then Inl (Panic ''capacity overflow'')
      else let n = aligned + length b - actual in Inr (take n b @ replicate (n - length b) 0))"

definition block_count :: "u32 \<Rightarrow> u32" where
  "block_count n = (n + TRANSFER_BLOCK_SIZE - 1) div TRANSFER_BLOCK_SIZE"

definition aligned_length :: "nat \<Rightarrow> nat" where
  "aligned_length n = unat (block_count (of_nat n) * TRANSFER_BLOCK_SIZE)"

definition finalize_world :: "factorio_world_description \<Rightarrow> nat \<Rightarrow> u32 \<Rightarrow> world_reconstructor \<Rightarrow> bytes res" where
  "finalize_world world_desc target_world_size target_crc self =
     (let current = current_size (wr_zip_writer self);
          zip_footer_size = central_directory_size (wr_zip_writer self);
          total_size = current + zip_footer_size + 4
      in if total_size > target_world_size then Inl (Anyhow ''Reconstructed world size won't fit inside of estimated size'')
         else let output = replicate (target_world_size - total_size) 0;
              self = wr_hash output self;
              zw = advance_offset (length output + 4) (wr_zip_writer self)
         in and_then (encode_central_directory zw) (\<lambda>zip_footer.
         let forward_crc = crc_finalize FACTORIO_CRC (wr_crc_hasher self);
             rev_crc_hasher = rd_update (rd_update (rev_crc_digest FACTORIO_REV_CRC target_crc) (wd_aux_data world_desc)) zip_footer;
             forge_bytes = forge_crc forward_crc rev_crc_hasher;
             output = output @ forge_bytes @ zip_footer
         in and_then (assert_eq (current + length output) target_world_size ''final world size is not equal to target world size'') (\<lambda>_.
         let final_crc = crc_finalize FACTORIO_CRC (wr_crc_hasher (wr_hash (wd_aux_data world_desc) (wr_hash zip_footer (wr_hash forge_bytes self))))
         in and_then (assert_eq final_crc target_crc ''Forging CRC failed'') (\<lambda>_.
         and_then (resize_to (aligned_length target_world_size) target_world_size output) (\<lambda>output.
         let output = output @ wd_aux_data world_desc
         in and_then (resize_to (aligned_length (length (wd_aux_data world_desc))) (length (wd_aux_data world_desc)) output) (\<lambda>output.
         and_then (assert_eq ((current + length output) mod unat TRANSFER_BLOCK_SIZE) 0 ''not aligned'') (\<lambda>_.
         Inr output)))))))"

text \<open>
  The loop over the files of a description: the pieces sent so far, and how it ends. \<open>chan_open\<close> tells, from the
  pieces sent, whether the receiver of the channel still exists.
\<close>

primrec reconstruct_files ::
  "nat \<Rightarrow> miniz \<Rightarrow> 's chunk_provider \<Rightarrow> (bytes list \<Rightarrow> bool) \<Rightarrow> factorio_file_description list \<Rightarrow> bytes list \<Rightarrow>
    world_reconstructor \<Rightarrow> 's \<Rightarrow> (bytes list \<times> unit res \<times> world_reconstructor \<times> 's) option" where
  "reconstruct_files fuel mz prov chan_open [] sent wr s = Some (sent, Inr (), wr, s)"
| "reconstruct_files fuel mz prov chan_open (file_desc # files) sent wr s =
     (case reconstruct_world_file fuel mz prov file_desc wr s of
        None \<Rightarrow> None
      | Some (Inl e, wr', s') \<Rightarrow> Some (sent, Inl e, wr', s')
      | Some (Inr data, wr', s') \<Rightarrow>
          (if chan_open sent then reconstruct_files fuel mz prov chan_open files (sent @ [data]) wr' s'
           else Some (sent, Inl (Anyhow ''channel closed''), wr', s')))"

section \<open>Alignment and checksum\<close>

definition miniz_ok :: "(bytes \<Rightarrow> bytes res) \<Rightarrow> miniz \<Rightarrow> bool" where
  "miniz_ok inflate mz \<longleftrightarrow>
     (\<forall>l d. inflate (compress_to_vec mz l d) = Inr d) \<and>
     (\<forall>n l d. length d \<le> n \<longrightarrow> decompress_to_vec_zlib_with_limit mz n (compress_to_vec_zlib mz l d) = Inr d) \<and>
     (\<forall>n b d. decompress_to_vec_zlib_with_limit mz n b = Inr d \<longrightarrow> length d \<le> n)"

definition blocks_length :: "nat \<Rightarrow> nat" where
  "blocks_length n = (n + 502) div 503 * 503"

lemma blocks_length_bounds: "n \<le> blocks_length n" "blocks_length n < n + 503" "503 dvd blocks_length n"
proof -
  have "(n + 502) div 503 * 503 + (n + 502) mod 503 = n + 502" "(n + 502) mod 503 < 503" by simp_all
  then show "n \<le> blocks_length n" "blocks_length n < n + 503" unfolding blocks_length_def by linarith+
qed (simp add: blocks_length_def)

lemma unat_block_count: "n + 502 < 2 ^ 32 \<Longrightarrow> unat (block_count (of_nat n)) = (n + 502) div 503"
proof -
  assume "n + 502 < 2 ^ 32"
  moreover have "of_nat n + TRANSFER_BLOCK_SIZE - 1 = (of_nat (n + 502) :: u32)"
    by (simp add: TRANSFER_BLOCK_SIZE_def)
  ultimately show ?thesis
    by (simp only: block_count_def unat_div_distrib unat_of_nat_fits) (simp add: TRANSFER_BLOCK_SIZE_def)
qed

lemma aligned_length_exact: "n + 502 < 2 ^ 32 \<Longrightarrow> aligned_length n = blocks_length n"
proof -
  assume n: "n + 502 < 2 ^ 32"
  have "(n + 502) div 503 * 503 \<le> n + 502" by simp
  with n have "unat (block_count (of_nat n)) * unat TRANSFER_BLOCK_SIZE < 2 ^ 32"
    by (simp only: unat_block_count) (simp add: TRANSFER_BLOCK_SIZE_def)
  then have "aligned_length n = unat (block_count (of_nat n)) * unat TRANSFER_BLOCK_SIZE"
    unfolding aligned_length_def by (simp add: unat_mult_lem [THEN iffD1])
  also have "\<dots> = blocks_length n"
    using unat_block_count [OF n] by (simp add: blocks_length_def TRANSFER_BLOCK_SIZE_def)
  finally show ?thesis .
qed

lemma resize_to_pads: "n \<le> a \<Longrightarrow> resize_to a n b = Inr (b @ replicate (a - n) 0)"
  by (simp add: resize_to_def Let_def)

lemma FACTORIO_CRC_ok: "crc_ok FACTORIO_CRC"
  by (simp add: FACTORIO_CRC_def crc_32_iso_hdlc_ok)

lemma wr_hash_simps [simp]:
  "wr_zip_writer (wr_hash b wr) = wr_zip_writer wr"
  "wr_crc_hasher (wr_hash b wr) = crc_update FACTORIO_CRC (wr_crc_hasher wr) b"
  by (simp_all add: wr_hash_def)

lemma forged_crc:
  fixes v t :: u32 and dir aux :: bytes
  defines "forge \<equiv> forge_crc (crc_finalize FACTORIO_CRC v)
    (rd_update (rd_update (rev_crc_digest FACTORIO_REV_CRC t) aux) dir)"
  shows "crc_finalize FACTORIO_CRC (crc_update FACTORIO_CRC (crc_update FACTORIO_CRC (crc_update FACTORIO_CRC v forge) dir) aux) = t"
proof -
  have "crc_update FACTORIO_CRC v forge =
      rev_update (rev_crc_new FACTORIO_CRC) (rev_update (rev_crc_new FACTORIO_CRC) (t XOR rev_xorout FACTORIO_REV_CRC) aux) dir"
    unfolding forge_def by (subst forge_crc_correct [OF FACTORIO_CRC_ok]) (simp_all add: FACTORIO_REV_CRC_def)
  then show ?thesis
    by (simp add: crc_update_rev_update [OF FACTORIO_CRC_ok] crc_finalize_def FACTORIO_REV_CRC_def)
      (simp add: rev_crc_new_def xor.assoc)
qed

section \<open>The finished world\<close>

definition wr_ok :: "(bytes \<Rightarrow> bytes res) \<Rightarrow> bytes \<Rightarrow> world_reconstructor \<Rightarrow> (bytes \<times> bytes) list \<Rightarrow> bool" where
  "wr_ok inflate body wr fs \<longleftrightarrow> zw_ok inflate body (wr_zip_writer wr) fs \<and>
     wr_crc_hasher wr = crc_update FACTORIO_CRC (crc_digest FACTORIO_CRC) body"

text \<open>What the game must be able to rely on when it gets the bytes of a world.\<close>

definition world_layout ::
  "(bytes \<Rightarrow> bytes res) \<Rightarrow> (bytes \<times> bytes) list \<Rightarrow> bytes \<Rightarrow> nat \<Rightarrow> u32 \<Rightarrow> bytes \<Rightarrow> bool" where
  "world_layout inflate fs aux n crc bs \<longleftrightarrow> (\<exists>archive pad1 pad2. bs = archive @ pad1 @ aux @ pad2 \<and>
     length archive = n \<and> length (archive @ pad1) = blocks_length n \<and>
     length (aux @ pad2) = blocks_length (length aux) \<and>
     crc_checksum FACTORIO_CRC (archive @ aux) = crc \<and> unzip inflate archive = Inr fs)"

lemma wr_ok_new [simp]: "wr_ok inflate [] wr_new []"
  by (simp add: wr_ok_def wr_new_def crc_update_simps [OF FACTORIO_CRC_ok])

lemma wr_ok_start: "wr_ok inflate (concat []) wr_new []"
  by simp

lemma finalize_world_value:
  assumes fits: "current_size zw + central_directory_size zw + 4 \<le> tsize" "tsize + 502 < 2 ^ 32" "length aux + 502 < 2 ^ 32"
    and wr: "zw = wr_zip_writer wr" "aux = wd_aux_data desc"
    and pad: "pad = replicate (tsize - (current_size zw + central_directory_size zw + 4)) 0"
    and dir: "encode_central_directory (advance_offset (length pad + 4) zw) = Inr dir"
    and forge: "forge = forge_crc (crc_finalize FACTORIO_CRC (crc_update FACTORIO_CRC (wr_crc_hasher wr) pad))
      (rd_update (rd_update (rev_crc_digest FACTORIO_REV_CRC crc) aux) dir)"
  shows "finalize_world desc tsize crc wr = Inr (pad @ forge @ dir @ replicate (blocks_length tsize - tsize) 0 @ aux @
    replicate (blocks_length (length aux) - length aux) 0)"
proof -
  define out where "out = pad @ forge @ dir @ replicate (blocks_length tsize - tsize) 0 @ aux @
    replicate (blocks_length (length aux) - length aux) 0"
  have lforge: "length forge = 4" by (simp add: forge)
  have "length dir = central_directory_size zw" using length_central_directory [OF dir] by simp
  then have all: "current_size zw + (length pad + (4 + length dir)) = tsize" using fits(1) by (simp add: pad)
  have crc: "crc_finalize FACTORIO_CRC (crc_update FACTORIO_CRC (crc_update FACTORIO_CRC
      (crc_update FACTORIO_CRC (crc_update FACTORIO_CRC (wr_crc_hasher wr) pad) forge) dir) aux) = crc"
    unfolding forge by (rule forged_crc)
  have "current_size zw + length out = blocks_length tsize + blocks_length (length aux)"
    using all lforge blocks_length_bounds(1) [of tsize] blocks_length_bounds(1) [of "length aux"] by (simp add: out_def)
  then have "(current_size zw + length out) mod 503 = 0"
    using blocks_length_bounds(3) by simp
  then have "finalize_world desc tsize crc wr = Inr out"
    using all crc fits(1) dir blocks_length_bounds(1) [of tsize] blocks_length_bounds(1) [of "length aux"]
    unfolding finalize_world_def Let_def
    by (simp add: wr [symmetric] pad [symmetric] forge [symmetric] lforge assert_eq_def aligned_length_exact [OF fits(2)]
        aligned_length_exact [OF fits(3)] resize_to_pads TRANSFER_BLOCK_SIZE_def out_def) (simp add: ac_simps)
  then show ?thesis by (simp add: out_def)
qed

lemma finalize_world_fits:
  assumes ok: "wr_ok inflate body wr fs" and n: "length fs < 2 ^ 16"
    and fits: "length body + central_directory_size (wr_zip_writer wr) + 4 \<le> tsize" "tsize + 502 < 2 ^ 32"
    and aux: "length (wd_aux_data desc) + 502 < 2 ^ 32"
  shows "\<exists>out. finalize_world desc tsize crc wr = Inr out \<and> world_layout inflate fs (wd_aux_data desc) tsize crc (body @ out)"
proof -
  define zw aux v0 pad where "zw = wr_zip_writer wr" and "aux = wd_aux_data desc" and "v0 = wr_crc_hasher wr"
    and "pad = replicate (tsize - (length body + central_directory_size zw + 4)) (0 :: u8)"
  have zw: "zw_ok inflate body zw fs" and v0: "v0 = crc_update FACTORIO_CRC (crc_digest FACTORIO_CRC) body"
    using ok by (simp_all add: wr_ok_def zw_def v0_def)
  have cur: "current_size zw = length body" using zw by (simp add: zw_ok_def current_size_def)
  have gap: "zw_ok inflate (body @ pad @ g) (advance_offset (length pad + 4) zw) fs" if "length g = 4" for g
    using zw_ok_advance [OF zw, of "pad @ g"] that by simp
  have total: "length body + length pad + 4 + central_directory_size zw = tsize"
    using fits(1) by (simp add: pad_def zw_def)
  obtain dir where dir: "encode_central_directory (advance_offset (length pad + 4) zw) = Inr dir"
    using encode_central_directory_fits [OF gap [of "[0, 0, 0, 0]"] n] total fits(2) by auto
  define forge where "forge = forge_crc (crc_finalize FACTORIO_CRC (crc_update FACTORIO_CRC v0 pad))
    (rd_update (rd_update (rev_crc_digest FACTORIO_REV_CRC crc) aux) dir)"
  have lforge: "length forge = 4" by (simp add: forge_def)
  define archive where "archive = body @ pad @ forge @ dir"
  have "length archive = tsize" using total length_central_directory [OF dir] lforge by (simp add: archive_def)
  moreover have "crc_checksum FACTORIO_CRC (archive @ aux) = crc"
    using forged_crc [of "crc_update FACTORIO_CRC v0 pad" crc aux dir, folded forge_def]
    by (simp add: crc_checksum_def archive_def crc_update_simps [OF FACTORIO_CRC_ok] v0)
  moreover have "unzip inflate archive = Inr fs"
    using unzip_written [OF gap [OF lforge] dir] by (simp add: archive_def)
  ultimately have "world_layout inflate fs aux tsize crc (archive @ replicate (blocks_length tsize - tsize) 0 @ aux @
      replicate (blocks_length (length aux) - length aux) 0)"
    unfolding world_layout_def using blocks_length_bounds(1) [of tsize] blocks_length_bounds(1) [of "length aux"]
    by - (rule exI [of _ archive], rule exI [of _ "replicate (blocks_length tsize - tsize) 0"],
        rule exI [of _ "replicate (blocks_length (length aux) - length aux) 0"], simp)
  moreover have "finalize_world desc tsize crc wr = Inr (pad @ forge @ dir @ replicate (blocks_length tsize - tsize) 0 @ aux @
      replicate (blocks_length (length aux) - length aux) 0)"
    using fits aux dir by (intro finalize_world_value [where zw = zw]) (simp_all add: zw_def aux_def v0_def pad_def forge_def cur [unfolded zw_def])
  ultimately show ?thesis by (simp add: archive_def aux_def)
qed

lemma finalize_world_too_big:
  "tsize < current_size (wr_zip_writer wr) + central_directory_size (wr_zip_writer wr) + 4 \<Longrightarrow>
    \<exists>msg. finalize_world desc tsize crc wr = Inl (Anyhow msg)"
  by (simp add: finalize_world_def Let_def)

section \<open>The files of a world\<close>

lemma decode_encode_factorio_file:
  assumes "miniz_ok inflate mz" "decode_factorio_file mz n b = Inr f"
  shows "decode_factorio_file mz n (encode_factorio_file mz f) = Inr f"
  using assms by (auto simp: decode_factorio_file_def encode_factorio_file_def miniz_ok_def and_then_Inr_iff split: if_splits)

definition described :: "nat \<Rightarrow> (chunk_key \<times> bytes) set \<Rightarrow> factorio_file_description \<Rightarrow> bytes \<times> factorio_file \<Rightarrow> bool" where
  "described n S fd f \<longleftrightarrow> fd_file_name fd = fst f \<and> fd_file_type fd = ff_file_type (snd f) \<and>
     fd_content_size fd = of_nat (length (ff_data (snd f))) \<and>
     (\<exists>h < n. tree h S (fd_chunk_list fd) (chunks_of (ff_data (snd f))))"

definition describes :: "(chunk_key \<times> bytes) set \<Rightarrow> factorio_file_description \<Rightarrow> bytes \<times> factorio_file \<Rightarrow> bool" where
  "describes S fd f \<longleftrightarrow> (\<exists>n. described n S fd f)"

lemma described_le: "described k S fd f \<Longrightarrow> k \<le> n \<Longrightarrow> described n S fd f"
  unfolding described_def by (meson less_le_trans)

lemma described_within: "list_all2 (describes S) fds fs \<Longrightarrow> \<exists>h. \<forall>n \<ge> h. list_all2 (described n S) fds fs"
proof (induction rule: list_all2_induct)
  case (Cons fd fds f fs)
  then obtain h k where "described k S fd f" "\<forall>n \<ge> h. list_all2 (described n S) fds fs"
    by (auto simp: describes_def)
  then show ?case
    by (intro exI [of _ "max h k"]) (auto intro: described_le)
qed simp

lemma describes_mono: "describes S fd f \<Longrightarrow> S \<subseteq> T \<Longrightarrow> describes T fd f"
  unfolding describes_def described_def by (blast intro: tree_mono)

lemma chunk_file_correct:
  assumes "hash32 H"
  shows "\<exists>fd m'. chunk_file H n f m = Inr (fd, m') \<and> describes (set m') fd (n, f) \<and> extends H m m' \<and>
    length (cl_chunks (fd_chunk_list fd)) < 64"
proof -
  obtain cl k m1 where 1: "chunk_data H (ff_data f) m = Inr (cl, m1)" "node_ok 512 cl"
    "tree k (set m1) cl (chunks_of (ff_data f))" "extends H m m1"
    using chunk_data_correct [OF assms, of "ff_data f" m] by blast
  obtain cl' k' m2 where "minimize_chunk_list H cl m1 = Inr (cl', m2)" "length (cl_chunks cl') < 64"
    "tree k' (set m2) cl' (chunks_of (ff_data f))" "extends H m1 m2"
    using minimize_chunk_list_correct [OF assms 1(2,3)] by blast
  with 1 extends_trans [OF 1(4)] show ?thesis
    by (auto simp: chunk_file_def describes_def described_def)
qed

text \<open>The entries of an archive that was opened and read, with the decoded file of each.\<close>

definition reads :: "miniz \<Rightarrow> (bytes \<times> bytes res) res \<Rightarrow> bytes \<times> factorio_file \<Rightarrow> bool" where
  "reads mz entry f \<longleftrightarrow> (\<exists>b. entry = Inr (fst f, Inr b) \<and> decode_factorio_file mz (fst f) b = Inr (snd f))"

lemma deconstruct_files_correct:
  assumes "hash32 H" "deconstruct_files H mz entries m = Inr (fds, m')"
  shows "extends H m m' \<and> (\<exists>fs. list_all2 (reads mz) entries fs \<and> list_all2 (describes (set m')) fds fs)"
  using assms(2)
proof (induction entries arbitrary: m fds)
  case (Cons entry entries)
  then obtain n b f fd m1 fds1 where 1: "entry = Inr (n, Inr b)" "decode_factorio_file mz n b = Inr f"
    "chunk_file H n f m = Inr (fd, m1)" "deconstruct_files H mz entries m1 = Inr (fds1, m')" "fds = fd # fds1"
    by (auto simp: and_then_Inr_iff)
  from chunk_file_correct [OF assms(1), of n f m] 1(3) have 2: "describes (set m1) fd (n, f)" "extends H m m1"
    by auto
  from Cons.IH [OF 1(4)] obtain fs where 3: "extends H m1 m'" "list_all2 (reads mz) entries fs"
    "list_all2 (describes (set m')) fds1 fs" by blast
  have "describes (set m') fd (n, f)"
    by (rule describes_mono [OF 2(1) extends_subset [OF 3(1)]])
  moreover have "reads mz entry (n, f)" using 1 by (simp add: reads_def)
  ultimately show ?case
    using 1(5) 3 extends_trans [OF 2(2) 3(1)] by (intro conjI exI [of _ "(n, f) # fs"]) auto
qed auto

lemma deconstruct_files_total:
  assumes "hash32 H" "list_all2 (reads mz) entries fs"
  shows "\<exists>fds m'. deconstruct_files H mz entries m = Inr (fds, m')"
  using assms(2)
proof (induction entries arbitrary: m fs)
  case (Cons entry entries)
  then obtain f fs1 where f: "fs = f # fs1" "reads mz entry f" "list_all2 (reads mz) entries fs1"
    by (auto simp: list_all2_Cons1)
  obtain fd m1 where "chunk_file H (fst f) (snd f) m = Inr (fd, m1)"
    using chunk_file_correct [OF assms(1), of "fst f" "snd f" m] by blast
  with Cons.IH [OF f(3), of m1] f(2) show ?case by (auto simp: reads_def)
qed simp

section \<open>Reading the files back\<close>

definition written :: "miniz \<Rightarrow> bytes \<times> factorio_file \<Rightarrow> bytes \<times> bytes" where
  "written mz f = (fst f, encode_factorio_file mz (snd f))"

definition fits_zip :: "miniz \<Rightarrow> bytes \<times> factorio_file \<Rightarrow> bool" where
  "fits_zip mz f \<longleftrightarrow> file_fits (compress_to_vec mz) (fst f) (encode_factorio_file mz (snd f)) (deflate_level_of (ff_file_type (snd f)))"

lemma wr_ok_encode_file:
  assumes "wr_ok inflate body wr fs" "miniz_ok inflate mz"
    "encode_file (compress_to_vec mz) n d l (wr_zip_writer wr) = Inr (out, zw)"
  shows "wr_ok inflate (body @ out) (wr_hash out (wr\<lparr> wr_zip_writer := zw \<rparr>)) (fs @ [(n, d)])"
  using zw_ok_encode_file [OF _ assms(3)] assms(1,2)
  by (simp add: wr_ok_def miniz_ok_def crc_update_simps [OF FACTORIO_CRC_ok])

context chunk_source
begin

lemma reconstruct_world_file_ok:
  assumes "described fuel stored fd f" "fits_zip mz f" "wr_ok inflate body wr fs" "miniz_ok inflate mz" "ready s P"
  shows "\<exists>out wr' s' P'. reconstruct_world_file fuel mz prov fd wr s = Some (Inr out, wr', s') \<and>
    wr_ok inflate (body @ out) wr' (fs @ [written mz f]) \<and> ready s' P' \<and> P \<subseteq> P'"
proof -
  from assms(1) obtain h where fd: "fd_file_name fd = fst f" "fd_file_type fd = ff_file_type (snd f)"
    and t: "tree h stored (fd_chunk_list fd) (chunks_of (ff_data (snd f)))" "h < fuel"
    by (auto simp: described_def)
  obtain out zw where e: "encode_file (compress_to_vec mz) (fst f) (encode_factorio_file mz (snd f))
      (deflate_level_of (ff_file_type (snd f))) (wr_zip_writer wr) = Inr (out, zw)"
    using encode_file_fits assms(2) unfolding fits_zip_def by blast
  have "\<exists>s' P'. reconstruct_world_file fuel mz prov fd wr s = Some (Inr out, wr_hash out (wr\<lparr> wr_zip_writer := zw \<rparr>), s') \<and>
      ready s' P' \<and> P \<subseteq> P'"
    using reconstruct_tree [OF t(1) assms(5) t(2)] e fd concat_chunks_of [of "ff_data (snd f)"]
    by (cases "snd f") (auto simp: reconstruct_world_file_def)
  with wr_ok_encode_file [OF assms(3,4) e] show ?thesis
    by (auto simp: written_def)
qed

lemma reconstruct_files_ok:
  assumes "list_all2 (described fuel stored) fds fs" "list_all (fits_zip mz) fs" "wr_ok inflate (concat sent) wr gs"
    "miniz_ok inflate mz" "ready s P"
  shows "\<exists>sent' wr' s' P'. reconstruct_files fuel mz prov (\<lambda>_. True) fds sent wr s = Some (sent', Inr (), wr', s') \<and>
    wr_ok inflate (concat sent') wr' (gs @ map (written mz) fs) \<and> ready s' P' \<and> P \<subseteq> P'"
  using assms
proof (induction fds fs arbitrary: sent wr gs s P rule: list_all2_induct)
  case Nil
  then show ?case by auto
next
  case (Cons fd fds f fs)
  from Cons.prems have f: "fits_zip mz f" "list_all (fits_zip mz) fs" by simp_all
  obtain data wr1 s1 P1 where 1: "reconstruct_world_file fuel mz prov fd wr s = Some (Inr data, wr1, s1)"
    "wr_ok inflate (concat (sent @ [data])) wr1 (gs @ [written mz f])" "ready s1 P1" "P \<subseteq> P1"
    using reconstruct_world_file_ok [OF Cons.hyps(1) f(1) Cons.prems(2-4)] by auto
  from Cons.IH [OF f(2) 1(2) Cons.prems(3) 1(3)] obtain sent' wr2 s2 P2 where
    "reconstruct_files fuel mz prov (\<lambda>_. True) fds (sent @ [data]) wr1 s1 = Some (sent', Inr (), wr2, s2)"
    "wr_ok inflate (concat sent') wr2 ((gs @ [written mz f]) @ map (written mz) fs)" "ready s2 P2" "P1 \<subseteq> P2"
    by blast
  with 1 show ?case by auto
qed

end

section \<open>Properties\<close>

text \<open>
  C7. \<^verbatim>\<open>finalize_world\<close> delivers exactly what was announced: for every announced size that the blocks can count and
  every announced checksum it either refuses, exactly when the archive with its four forged bytes is bigger than announced, or
  returns bytes such that the whole is an archive of exactly the announced size that still contains all the files,
  padded to a block, then the auxiliary data, padded to a block; and the checksum over archive and auxiliary data is
  the announced one. None of its assertions fails.
\<close>

theorem finalize_world_exact:
  assumes "wr_ok inflate body wr fs" "length fs < 2 ^ 16" "tsize + 502 < 2 ^ 32" "length (wd_aux_data desc) + 502 < 2 ^ 32"
  shows "if tsize < length body + central_directory_size (wr_zip_writer wr) + 4
    then \<exists>msg. finalize_world desc tsize crc wr = Inl (Anyhow msg)
    else \<exists>out. finalize_world desc tsize crc wr = Inr out \<and> world_layout inflate fs (wd_aux_data desc) tsize crc (body @ out)"
  using finalize_world_fits [OF assms(1,2) _ assms(3,4)] finalize_world_too_big assms(1)
  by (simp add: wr_ok_def zw_ok_def current_size_def)

text \<open>A world with no files and three bytes of auxiliary data.\<close>

definition empty_world :: factorio_world_description where
  "empty_world = \<lparr> wd_files = [], wd_aux_data = [7, 8, 9], wd_total_chunks = 0 \<rparr>"

theorem finalize_world_exact_witness:
  "(\<exists>out. finalize_world empty_world 30 0xDEADBEEF wr_new = Inr out \<and> world_layout Inr [] [7, 8, 9] 30 0xDEADBEEF out) \<and>
   (\<exists>msg. finalize_world empty_world 25 0xDEADBEEF wr_new = Inl (Anyhow msg))"
proof -
  have "central_directory_size (wr_zip_writer wr_new) = 22"
    by (simp add: central_directory_size_def wr_new_def zw_new_def END_OF_CENTRAL_DIRECTORY_SIZE_def)
  with finalize_world_exact [of Inr "[]" wr_new "[]" 30 empty_world "0xDEADBEEF"]
    finalize_world_exact [of Inr "[]" wr_new "[]" 25 empty_world "0xDEADBEEF"] show ?thesis
    by (simp add: empty_world_def)
qed

text \<open>
  C5. A world survives the trip: take a world apart and put it together again from the description and the chunks. Every
  entry of the original archive was read and decoded; the rebuilt archive has the announced size and checksum, and holds
  the same names in the same order, each with a content that decodes to the same file.
\<close>

theorem world_roundtrip:
  assumes "hash32 H" "miniz_ok inflate mz" "deconstruct_world H mz zip_new world aux = Inr (desc, chunks)"
    "inj_on H (snd ` set chunks)"
  shows "\<exists>entries fs h. zip_new world = Inr entries \<and> list_all2 (reads mz) entries fs \<and>
    list_all (\<lambda>f. decode_factorio_file mz (fst (written mz f)) (snd (written mz f)) = Inr (snd f)) fs \<and>
    (list_all (fits_zip mz) fs \<and> length fs < 2 ^ 16 \<and> length aux + 502 < 2 ^ 32 \<longrightarrow>
      (\<forall>fuel > h. \<exists>outs wr. reconstruct_files fuel mz map_provider (\<lambda>_. True) (wd_files desc) [] wr_new chunks = Some (outs, Inr (), wr, chunks) \<and>
        (\<forall>tsize crc. length (concat outs) + central_directory_size (wr_zip_writer wr) + 4 \<le> tsize \<and> tsize + 502 < 2 ^ 32 \<longrightarrow>
          (\<exists>out. finalize_world desc tsize crc wr = Inr out \<and>
             world_layout inflate (map (written mz) fs) aux tsize crc (concat outs @ out)))))"
proof -
  from assms(3) obtain entries fds where 1: "zip_new world = Inr entries" "deconstruct_files H mz entries [] = Inr (fds, chunks)"
    "wd_files desc = fds" "wd_aux_data desc = aux"
    by (auto simp: deconstruct_world_def and_then_Inr_iff)
  from deconstruct_files_correct [OF assms(1) 1(2)] obtain fs where 2: "extends H [] chunks" "list_all2 (reads mz) entries fs"
    "list_all2 (describes (set chunks)) fds fs" by blast
  have "addressed H chunks" using 2(1) by (rule extends_addressed) (simp add: addressed_def)
  then have store: "set chunks = hm.stored chunks" unfolding hm.stored_def by (rule store_lookup [OF _ assms(4)])
  obtain h where h: "\<And>n. n \<ge> h \<Longrightarrow> list_all2 (described n (hm.stored chunks)) fds fs"
    using described_within [OF 2(3)] store by auto
  have "list_all (\<lambda>f. decode_factorio_file mz (fst (written mz f)) (snd (written mz f)) = Inr (snd f)) fs"
    using 2(2) decode_encode_factorio_file [OF assms(2)]
    by (fastforce simp: list_all2_conv_all_nth list_all_length reads_def written_def)
  moreover have "\<exists>outs wr. reconstruct_files fuel mz map_provider (\<lambda>_. True) (wd_files desc) [] wr_new chunks = Some (outs, Inr (), wr, chunks) \<and>
        (\<forall>tsize crc. length (concat outs) + central_directory_size (wr_zip_writer wr) + 4 \<le> tsize \<and> tsize + 502 < 2 ^ 32 \<longrightarrow>
          (\<exists>out. finalize_world desc tsize crc wr = Inr out \<and>
             world_layout inflate (map (written mz) fs) aux tsize crc (concat outs @ out)))"
    if pre: "list_all (fits_zip mz) fs \<and> length fs < 2 ^ 16 \<and> length aux + 502 < 2 ^ 32" "h < fuel" for fuel
  proof -
    obtain outs wr where r: "reconstruct_files fuel mz map_provider (\<lambda>_. True) fds [] wr_new chunks = Some (outs, Inr (), wr, chunks)"
      and wr: "wr_ok inflate (concat outs) wr (map (written mz) fs)"
      using hm.reconstruct_files_ok [OF h _ wr_ok_start assms(2), of fuel chunks "{}"] pre by auto
    show ?thesis
      using finalize_world_fits [OF wr, where desc = desc] r pre(1) unfolding 1(3,4) length_map by blast
  qed
  ultimately show ?thesis using 1(1) 2(2) by blast
qed

text \<open>A compressor for the examples that stores its input, and a world with one level file.\<close>

definition stored_miniz :: miniz where
  "stored_miniz = \<lparr> compress_to_vec = (\<lambda>l d. d), compress_to_vec_zlib = (\<lambda>l d. d),
     decompress_to_vec_zlib_with_limit = (\<lambda>n b. if length b \<le> n then Inr b else Inl (Anyhow ''HasMoreOutput'')) \<rparr>"

lemma stored_miniz_ok: "miniz_ok Inr stored_miniz"
  by (auto simp: miniz_ok_def stored_miniz_def split: if_splits)

definition sample_world :: factorio_world_description where
  "sample_world = \<lparr> wd_files = [\<lparr> fd_file_type = Zlib, fd_file_name = level_dat, fd_content_size = 3,
       fd_chunk_list = \<lparr> cl_is_leaf = True, cl_chunks = [pad_hash [1, 2, 3]] \<rparr> \<rparr>], wd_aux_data = [9], wd_total_chunks = 1 \<rparr>"

lemma level_dat_example: "is_level_dat level_dat" "length level_dat = 9"
  by (simp_all add: is_level_dat_def base_name_def level_dat_def)

lemma deconstruct_example:
  "deconstruct_world pad_hash stored_miniz (\<lambda>b. Inr [Inr (level_dat, Inr b)]) [1, 2, 3] [9] =
   Inr (sample_world, [(pad_hash [1, 2, 3], [1, 2, 3])])"
  by (simp add: deconstruct_world_def decode_factorio_file_def level_dat_example chunk_file_def stored_miniz_def sample_world_def
      chunk_data_example minimize_chunk_list_def MINIMIZE_THRESHOLD_def store_len_def)

lemma sample_reads:
  "list_all2 (reads stored_miniz) [Inr (level_dat, Inr [1, 2, 3])] fs \<Longrightarrow>
    fs = [(level_dat, \<lparr> ff_file_type = Zlib, ff_data = [1, 2, 3] \<rparr>)]"
  by (auto simp: list_all2_Cons1 reads_def decode_factorio_file_def level_dat_example stored_miniz_def)

theorem world_roundtrip_witness:
  "\<exists>h. \<forall>fuel > h. \<exists>outs wr. reconstruct_files fuel stored_miniz map_provider (\<lambda>_. True) (wd_files sample_world) [] wr_new
       [(pad_hash [1, 2, 3], [1, 2, 3])] = Some (outs, Inr (), wr, [(pad_hash [1, 2, 3], [1, 2, 3])]) \<and>
     (\<forall>tsize crc. length (concat outs) + central_directory_size (wr_zip_writer wr) + 4 \<le> tsize \<and> tsize + 502 < 2 ^ 32 \<longrightarrow>
       (\<exists>out. finalize_world sample_world tsize crc wr = Inr out \<and>
          world_layout Inr [(level_dat, [1, 2, 3])] [9] tsize crc (concat outs @ out)))"
proof -
  have inj: "inj_on pad_hash (snd ` set [(pad_hash [1, 2, 3], [1, 2, 3])])" by simp
  obtain entries fs h where 1: "Inr [Inr (level_dat, Inr [1, 2, 3])] = (Inr entries :: _ res)" "list_all2 (reads stored_miniz) entries fs"
    and 2: "list_all (fits_zip stored_miniz) fs \<and> length fs < 2 ^ 16 \<and> length [9 :: u8] + 502 < 2 ^ 32 \<longrightarrow>
      (\<forall>fuel > h. \<exists>outs wr. reconstruct_files fuel stored_miniz map_provider (\<lambda>_. True) (wd_files sample_world) [] wr_new
         [(pad_hash [1, 2, 3], [1, 2, 3])] = Some (outs, Inr (), wr, [(pad_hash [1, 2, 3], [1, 2, 3])]) \<and>
       (\<forall>tsize crc. length (concat outs) + central_directory_size (wr_zip_writer wr) + 4 \<le> tsize \<and> tsize + 502 < 2 ^ 32 \<longrightarrow>
         (\<exists>out. finalize_world sample_world tsize crc wr = Inr out \<and>
            world_layout Inr (map (written stored_miniz) fs) [9] tsize crc (concat outs @ out))))"
    using world_roundtrip [OF hash32_pad_hash stored_miniz_ok deconstruct_example inj] by blast
  have fs: "fs = [(level_dat, \<lparr> ff_file_type = Zlib, ff_data = [1, 2, 3] \<rparr>)]"
    using 1 by (intro sample_reads) simp
  have "map (written stored_miniz) fs = [(level_dat, [1, 2, 3])]" "list_all (fits_zip stored_miniz) fs" "length fs < 2 ^ 16"
    by (simp_all add: fs written_def encode_factorio_file_def stored_miniz_def fits_zip_def file_fits_def deflate_level_of_def level_dat_example)
  with 2 show ?thesis by (intro exI [of _ h]) simp
qed

end
