(* ===== verification/Factorio_Proxy.thy ===== *)
theory Factorio_Proxy
  imports Factorio_World Protocol_Utils
begin

text \<open>
  What the two proxies share (\<^verbatim>\<open>factorio-cacher/src/proxy/mod.rs\<close> and the messages of
  \<^verbatim>\<open>factorio-cacher/src/protocol.rs\<close>), and the ordered sets of block ids.

  \<^item> \<^verbatim>\<open>BTreeSet<u32>\<close> is the strictly increasing list of its elements, which is the order it is iterated in.
  \<^item> An instant is a number of milliseconds; a handler sees one instant.
\<close>

section \<open>Definitions\<close>

definition UDP_PEER_IDLE_TIMEOUT :: nat where "UDP_PEER_IDLE_TIMEOUT = 60000"
definition UDP_QUEUE_SIZE :: nat where "UDP_QUEUE_SIZE = 512"

datatype packet_direction = ToClient | ToServer

type_synonym packets = "(bytes \<times> packet_direction) list"

record world_ready_message =
  wrm_world :: factorio_world_description
  wrm_old_info :: factorio_world_metadata
  wrm_new_info :: factorio_world_metadata

text \<open>\<^verbatim>\<open>BTreeSet\<close>: \<^verbatim>\<open>insert\<close>, and \<^verbatim>\<open>remove\<close> with whether the element was there.\<close>

definition bt_insert :: "u32 \<Rightarrow> u32 list \<Rightarrow> u32 list" where
  "bt_insert x xs = insort_insert x xs"

definition bt_remove :: "u32 \<Rightarrow> u32 list \<Rightarrow> bool \<times> u32 list" where
  "bt_remove x xs = (x \<in> set xs, remove1 x xs)"

text \<open>
  LAN discovery (\<^verbatim>\<open>factorio-cacher/src/lan_discovery.rs\<close>): the address of the game after a packet from the
  address \<open>ip\<close>.
\<close>

definition lan_discovery_step :: "bytes \<Rightarrow> 'ip \<Rightarrow> 'ip \<times> u16 \<Rightarrow> 'ip \<times> u16" where
  "lan_discovery_step packet ip current_factorio_address =
     (if length packet = 3
      then (let lan_addr = (ip, from_le (drop 1 packet))
            in if current_factorio_address \<noteq> lan_addr then lan_addr else current_factorio_address)
      else current_factorio_address)"

text \<open>
  The task: it starts with the address in the shared cell, which only this task writes, and
  handles one packet after the other until receiving fails, which panics and ends it. The
  result is the address in the cell.
\<close>

fun lan_discovery_task :: "(bytes \<times> 'ip) res list \<Rightarrow> 'ip \<times> u16 \<Rightarrow> 'ip \<times> u16" where
  "lan_discovery_task [] factorio_address_cell = factorio_address_cell"
| "lan_discovery_task (Inl _ # _) factorio_address_cell = factorio_address_cell"
| "lan_discovery_task (Inr (packet, ip) # rest) factorio_address_cell =
     lan_discovery_task rest (lan_discovery_step packet ip factorio_address_cell)"

text \<open>The cell holds the address announced last, and the given one when none was announced.\<close>

lemma lan_discovery_last:
  "lan_discovery_task (map Inr packets) cell =
     last (cell # map (\<lambda>(p, ip). (ip, from_le (drop 1 p))) (filter (\<lambda>(p, ip). length p = 3) packets))"
  by (induction packets arbitrary: cell) (auto simp: lan_discovery_step_def Let_def)

section \<open>Ordered sets\<close>

definition bt_ok :: "u32 list \<Rightarrow> bool" where
  "bt_ok xs \<longleftrightarrow> sorted xs \<and> distinct xs"

lemma bt_ok_simps [simp]: "bt_ok []" "bt_ok (x # xs) \<longleftrightarrow> (\<forall>y \<in> set xs. x < y) \<and> bt_ok xs"
  by (auto simp: bt_ok_def order.strict_iff_order)

lemma bt_insert [simp]:
  "set (bt_insert x xs) = insert x (set xs)" "bt_ok xs \<Longrightarrow> bt_ok (bt_insert x xs)"
  by (auto simp: bt_insert_def bt_ok_def set_insort_insert sorted_insort_insert distinct_insort_insert)

lemma bt_insert_length: "x \<notin> set xs \<Longrightarrow> length (bt_insert x xs) = Suc (length xs)"
  by (simp add: bt_insert_def insort_insert_key_def)

lemma bt_remove [simp]:
  "fst (bt_remove x xs) \<longleftrightarrow> x \<in> set xs" "bt_ok xs \<Longrightarrow> set (snd (bt_remove x xs)) = set xs - {x}"
  "bt_ok xs \<Longrightarrow> bt_ok (snd (bt_remove x xs))"
  by (auto simp: bt_remove_def bt_ok_def sorted_remove1)

lemma length_bt_remove: "length (snd (bt_remove x xs)) \<le> length xs"
  by (simp add: bt_remove_def length_remove1)

lemma bt_ok_range: "bt_ok (map of_nat [0..<unat (n :: u32)])" "set (map of_nat [0..<unat (n :: u32)]) = {i. i < n}"
proof -
  have lt: "unat (of_nat i :: u32) = i" if "i < unat n" for i
    using that unsigned_less [of n, where 'a = nat] by (intro unat_of_nat_fits) simp
  have "sorted_wrt (<) (map (of_nat :: nat \<Rightarrow> u32) [0..<unat n])"
    unfolding sorted_wrt_map using lt by (auto simp: sorted_wrt_iff_nth_less word_less_nat_alt)
  then show "bt_ok (map of_nat [0..<unat n])"
    by (simp add: bt_ok_def strict_sorted_iff)
  show "set (map of_nat [0..<unat (n :: u32)]) = {i. i < n}"
  proof (intro set_eqI iffI)
    fix x assume "x \<in> {i. i < n}"
    then have "unat x < unat n" by (simp add: word_less_nat_alt)
    moreover have "of_nat (unat x) = x" by simp
    ultimately show "x \<in> set (map of_nat [0..<unat n])" by (metis atLeast0LessThan atLeast_upt image_eqI lessThan_iff list.set_map)
  qed (auto simp: word_less_nat_alt lt)
qed

end
