(* ===== verification/Client_Proxy.thy ===== *)
theory Client_Proxy
  imports Factorio_Proxy
begin

text \<open>
  The proxy next to the player (\<^verbatim>\<open>factorio-cacher/src/proxy/client_proxy.rs\<close>): the table of peers, the task of a
  peer, which answers the game's block requests from the world data as it arrives, and the
  task that receives the description of a world and rebuilds it.

  \<^item> A task is a number; the two queues of a task are addressed by it. Whether a task has ended is the parameter
    \<open>closed\<close>. \<^verbatim>\<open>try_send\<close> drops a packet when the queue is full or the task has ended; what is modelled is the
    queue a packet is offered to.
  \<^item> A peer id on the wire is \<^verbatim>\<open>quinn\<close>'s \<^verbatim>\<open>VarInt\<close>, a natural number with a codec that is a parameter.
  \<^item> One iteration of the loop of \<^verbatim>\<open>proxy_client\<close> is \<open>client_step\<close>; \<open>client_runs\<close> are its runs.
\<close>

section \<open>Definitions\<close>

subsection \<open>The table of peers\<close>

record 'a client_router =
  cr_addr_to_queue :: "'a \<Rightarrow> nat option"
  cr_id_to_queue :: "nat \<Rightarrow> nat option"
  cr_next_peer_id :: u32
  cr_spawned :: "(nat \<times> 'a) list"

datatype delivery = ClientPacket nat bytes | ServerPacket nat bytes

definition cr_new :: "'a client_router" where
  "cr_new = \<lparr> cr_addr_to_queue = Map.empty, cr_id_to_queue = Map.empty, cr_next_peer_id = 0, cr_spawned = [] \<rparr>"

definition checked_add_1 :: "u32 \<Rightarrow> u32 option" where
  "checked_add_1 n = (if n = - 1 then None else Some (n + 1))"

definition route_from_socket ::
  "(nat \<Rightarrow> bool) \<Rightarrow> 'a \<Rightarrow> bytes \<Rightarrow> 'a client_router \<Rightarrow> (delivery \<times> 'a client_router) res" where
  "route_from_socket closed peer_addr data r =
     (case (case cr_addr_to_queue r peer_addr of Some q \<Rightarrow> if closed q then None else Some q | None \<Rightarrow> None) of
        Some q \<Rightarrow> Inr (ClientPacket q data, r)
      | None \<Rightarrow>
          (let peer_id = unat (cr_next_peer_id r)
           in case checked_add_1 (cr_next_peer_id r) of
                None \<Rightarrow> Inl (Anyhow ''Ran out of peer ids'')
              | Some next \<Rightarrow>
                  (let q = length (cr_spawned r)
                   in Inr (ClientPacket q data,
                        r\<lparr> cr_next_peer_id := next, cr_spawned := cr_spawned r @ [(peer_id, peer_addr)],
                           cr_addr_to_queue := (cr_addr_to_queue r)(peer_addr \<mapsto> q),
                           cr_id_to_queue := (cr_id_to_queue r)(peer_id \<mapsto> q) \<rparr>))))"

definition route_from_connection ::
  "(bytes \<Rightarrow> (nat \<times> bytes) res) \<Rightarrow> bytes \<Rightarrow> 'a client_router \<Rightarrow> delivery option res" where
  "route_from_connection varint_decode packet r =
     and_then (dg_decode varint_decode packet) (\<lambda>datagram.
       Inr (case cr_id_to_queue r (dg_peer_id datagram) of
              Some q \<Rightarrow> Some (ServerPacket q (dg_data datagram))
            | None \<Rightarrow> None))"

subsection \<open>The task of a peer\<close>

text \<open>What the task of a peer first writes on its stream.\<close>

definition announce_peer :: "nat \<Rightarrow> bytes" where
  "announce_peer peer_id = put_u32_le (of_nat peer_id)"

definition WORLD_DATA_TIMEOUT :: nat where "WORLD_DATA_TIMEOUT = 60000"

record client_proxy_state =
  cp_world_data :: bytes
  cp_last_block_request :: nat
  cp_pending_requests :: "u32 list"
  cp_pending_requests_swap :: "u32 list"
  cp_world_data_done :: bool

definition cp_new :: "nat \<Rightarrow> client_proxy_state" where
  "cp_new now = \<lparr> cp_world_data = [], cp_last_block_request = now, cp_pending_requests = [],
     cp_pending_requests_swap = [], cp_world_data_done = False \<rparr>"

definition try_fulfill_block_request :: "client_proxy_state \<Rightarrow> u32 \<Rightarrow> transfer_block_packet option" where
  "try_fulfill_block_request self requested_block_id =
     (let offset = unat requested_block_id * unat TRANSFER_BLOCK_SIZE
      in if offset + unat TRANSFER_BLOCK_SIZE \<le> length (cp_world_data self)
         then Some \<lparr> tb_block_id = requested_block_id,
           tb_data = take (unat TRANSFER_BLOCK_SIZE) (drop offset (cp_world_data self)) \<rparr>
         else None)"

definition as_block_request :: "bytes \<Rightarrow> u32 option" where
  "as_block_request packet_data =
     (case header_decode packet_data of
        Inl _ \<Rightarrow> None
      | Inr (header, msg_data) \<Rightarrow>
          (if packet_type header = TransferBlockRequest
           then (case tbr_decode msg_data of Inl _ \<Rightarrow> None | Inr request \<Rightarrow> Some (tbr_block_id request))
           else None))"

definition on_packet_from_client :: "nat \<Rightarrow> bytes \<Rightarrow> client_proxy_state \<Rightarrow> packets \<times> client_proxy_state" where
  "on_packet_from_client now packet_data self =
     (case as_block_request packet_data of
        Some block_id \<Rightarrow>
          (case try_fulfill_block_request self block_id of
             Some response \<Rightarrow> ([(block_packet response, ToClient)], self\<lparr> cp_last_block_request := now \<rparr>)
           | None \<Rightarrow> ([], self\<lparr> cp_pending_requests := bt_insert block_id (cp_pending_requests self),
               cp_last_block_request := now \<rparr>))
      | None \<Rightarrow>
          ([(packet_data, ToServer)],
           if cp_world_data self \<noteq> [] \<and> cp_world_data_done self \<and> now - cp_last_block_request self > WORLD_DATA_TIMEOUT
           then self\<lparr> cp_world_data := [] \<rparr> else self))"

primrec fulfill_pending :: "client_proxy_state \<Rightarrow> u32 list \<Rightarrow> u32 list \<Rightarrow> packets \<times> u32 list" where
  "fulfill_pending self [] swap = ([], swap)"
| "fulfill_pending self (i # is) swap =
     (case try_fulfill_block_request self i of
        Some response \<Rightarrow> (case fulfill_pending self is swap of (out, swap) \<Rightarrow> ((block_packet response, ToClient) # out, swap))
      | None \<Rightarrow> fulfill_pending self is (bt_insert i swap))"

definition on_new_world_data :: "nat \<Rightarrow> bytes option \<Rightarrow> client_proxy_state \<Rightarrow> packets \<times> client_proxy_state" where
  "on_new_world_data now new_data self =
     (case new_data of
        None \<Rightarrow> ([], self\<lparr> cp_world_data_done := True, cp_last_block_request := now \<rparr>)
      | Some new_data \<Rightarrow>
          (let self = self\<lparr> cp_world_data := cp_world_data self @ new_data \<rparr>
           in case fulfill_pending self (cp_pending_requests self) (cp_pending_requests_swap self) of
                (out, swap) \<Rightarrow> (out, self\<lparr> cp_pending_requests := swap, cp_pending_requests_swap := [],
                  cp_last_block_request := now \<rparr>)))"

datatype client_event = FromClient bytes | FromServer bytes | WorldData "bytes option"

text \<open>The state of the loop: the proxy state and the loop's own \<^verbatim>\<open>world_data_done\<close>, which disables a branch.\<close>

definition client_step :: "nat \<Rightarrow> client_event \<Rightarrow> client_proxy_state \<times> bool \<Rightarrow> (packets \<times> client_proxy_state \<times> bool) option" where
  "client_step now ev st =
     (case st of (proxy_state, world_data_done) \<Rightarrow>
       (case ev of
          FromClient packet_data \<Rightarrow>
            (case on_packet_from_client now packet_data proxy_state of (out, s) \<Rightarrow> Some (out, s, world_data_done))
        | FromServer packet_data \<Rightarrow> Some ([(packet_data, ToClient)], proxy_state, world_data_done)
        | WorldData result \<Rightarrow>
            (if world_data_done then None
             else case on_new_world_data now result proxy_state of (out, s) \<Rightarrow> Some (out, s, result = None))))"

text \<open>Where the packets of an iteration go: to the game's socket, or as a datagram to the other proxy.\<close>

datatype sent_packet = SendTo bytes | SendDatagram bytes

definition client_emit :: "(nat \<Rightarrow> bytes) \<Rightarrow> nat \<Rightarrow> packets \<Rightarrow> sent_packet list" where
  "client_emit varint_encode peer_id out_packets =
     map (\<lambda>(packet_data, dir). case dir of
        ToClient \<Rightarrow> SendTo packet_data
      | ToServer \<Rightarrow> SendDatagram (dg_encode varint_encode (dg_new peer_id packet_data))) out_packets"

inductive client_runs :: "client_event list \<Rightarrow> packets \<Rightarrow> client_proxy_state \<times> bool \<Rightarrow> bool" where
  client_start: "client_runs [] [] (cp_new now, False)"
| client_next: "client_runs evs outs st \<Longrightarrow> client_step now ev st = Some (out, st') \<Longrightarrow>
    client_runs (evs @ [ev]) (outs @ out) st'"

subsection \<open>Receiving a world\<close>

definition client_transfer_world_data ::
  "nat \<Rightarrow> 'm linked_map \<Rightarrow> hash_fun \<Rightarrow> miniz \<Rightarrow> messages \<Rightarrow> world_ready_message serde \<Rightarrow> 'n stream_io \<Rightarrow> 'm env \<Rightarrow>
    (bytes list \<Rightarrow> bool) \<Rightarrow> 'm chunk_cache \<Rightarrow> 'n \<Rightarrow> (unit res \<times> bytes list \<times> 'm chunk_cache) option" where
  "client_transfer_world_data fuel lm H mz m rdy io env chan_open cc streams =
     (case read_message io streams of
        (Inl e, _) \<Rightarrow> Some (if e = UnexpectedEof then Inr () else Inl e, [], cc)
      | (Inr world_ready_message_data, streams) \<Rightarrow>
          (case decode_message (m_zstd m) rdy (m_transport m) world_ready_message_data of
             Inl e \<Rightarrow> Some (Inl e, [], cc)
           | Inr world_ready \<Rightarrow>
               (let world_desc = wrm_world world_ready;
                    prov = fetcher_provider lm H m io env
                in case prefetch_metadata_chunks fuel prov (map fd_chunk_list (wd_files world_desc)) (cf_new cc streams) of
                     None \<Rightarrow> None
                   | Some (Inl e, s) \<Rightarrow> Some (Inl e, [], cf_cache s)
                   | Some (Inr _, s) \<Rightarrow>
                       (case reconstruct_files fuel mz prov chan_open (wd_files world_desc) [] wr_new s of
                          None \<Rightarrow> None
                        | Some (sent, Inl e, _, s) \<Rightarrow> Some (Inl e, sent, cf_cache s)
                        | Some (sent, Inr _, wr, s) \<Rightarrow>
                            (case mark_dirty (cf_cache s) of
                               (Inl e, cc) \<Rightarrow> Some (Inl e, sent, cc)
                             | (Inr _, cc) \<Rightarrow>
                                 (case finalize_world world_desc (unat (world_size (wrm_new_info world_ready)))
                                         (world_crc (wrm_new_info world_ready)) wr of
                                    Inl e \<Rightarrow> Some (Inl e, sent, cc)
                                  | Inr last_data \<Rightarrow>
                                      (if chan_open sent then Some (Inr (), sent @ [last_data], cc)
                                       else Some (Inl (Anyhow ''channel closed''), sent, cc))))))))"

section \<open>Answers to block requests\<close>

definition available :: "bytes \<Rightarrow> u32 \<Rightarrow> bool" where
  "available data i \<longleftrightarrow> unat i * 503 + 503 \<le> length data"

definition answer :: "bytes \<Rightarrow> u32 \<Rightarrow> bytes \<times> packet_direction" where
  "answer data i = (block_packet \<lparr> tb_block_id = i, tb_data = take 503 (drop (unat i * 503) data) \<rparr>, ToClient)"

lemma try_fulfill_eq:
  "try_fulfill_block_request s i =
    (if available (cp_world_data s) i
     then Some \<lparr> tb_block_id = i, tb_data = take 503 (drop (unat i * 503) (cp_world_data s)) \<rparr> else None)"
  by (simp add: try_fulfill_block_request_def available_def TRANSFER_BLOCK_SIZE_def Let_def)

lemma available_append: "available d i \<Longrightarrow> available (d @ d') i"
  by (simp add: available_def)

lemma answer_append: "available d i \<Longrightarrow> answer (d @ d') i = answer d i"
  by (simp add: answer_def available_def)

lemma fulfill_pending_eq:
  "fulfill_pending s is swap = (map (answer (cp_world_data s)) (filter (available (cp_world_data s)) is),
     fold bt_insert (filter (\<lambda>i. \<not> available (cp_world_data s) i) is) swap)"
  by (induction "is" arbitrary: swap) (auto simp: try_fulfill_eq answer_def)

lemma set_fold_bt_insert: "set (fold bt_insert xs ys) = set xs \<union> set ys"
  by (induction xs arbitrary: ys) auto

lemma bt_ok_fold: "bt_ok ys \<Longrightarrow> bt_ok (fold bt_insert xs ys)"
  by (induction xs arbitrary: ys) auto

text \<open>The events of a run: the world data that arrived and the blocks that were asked for.\<close>

fun piece :: "client_event \<Rightarrow> bytes" where
  "piece (WorldData (Some d)) = d"
| "piece _ = []"

definition arrived :: "client_event list \<Rightarrow> bytes" where
  "arrived evs = concat (map piece evs)"

fun asks :: "client_event \<Rightarrow> u32 option" where
  "asks (FromClient p) = as_block_request p"
| "asks _ = None"

definition requested :: "client_event list \<Rightarrow> u32 set" where
  "requested evs = {i. Some i \<in> asks ` set evs}"

lemma arrived_simps [simp]: "arrived [] = []" "arrived (evs @ [ev]) = arrived evs @ piece ev"
  by (simp_all add: arrived_def)

lemma requested_simps [simp]:
  "requested [] = {}" "requested (evs @ [ev]) = (case asks ev of None \<Rightarrow> requested evs | Some i \<Rightarrow> insert i (requested evs))"
  by (auto simp: requested_def split: option.splits)

definition explained :: "client_event list \<Rightarrow> bytes \<times> packet_direction \<Rightarrow> bool" where
  "explained evs x \<longleftrightarrow>
     (\<exists>p. x = (p, ToServer) \<and> FromClient p \<in> set evs \<and> as_block_request p = None) \<or>
     (\<exists>p. x = (p, ToClient) \<and> FromServer p \<in> set evs) \<or>
     (\<exists>i \<in> requested evs. available (arrived evs) i \<and> x = answer (arrived evs) i)"

lemma requested_mono: "requested evs \<subseteq> requested (evs @ [ev])"
  by (auto split: option.split)

lemma explained_append: "explained evs x \<Longrightarrow> explained (evs @ [ev]) x"
proof -
  assume e: "explained evs x"
  have "\<exists>i \<in> requested (evs @ [ev]). available (arrived (evs @ [ev])) i \<and> x = answer (arrived (evs @ [ev])) i"
    if "i \<in> requested evs" "available (arrived evs) i" "x = answer (arrived evs) i" for i
    using that requested_mono [of evs ev] available_append [OF that(2)] answer_append [OF that(2)] by (metis arrived_simps(2) subsetD)
  with e show ?thesis
    unfolding explained_def by (simp del: requested_simps arrived_simps) blast
qed

definition client_inv :: "client_event list \<Rightarrow> packets \<Rightarrow> client_proxy_state \<times> bool \<Rightarrow> bool" where
  "client_inv evs outs st \<longleftrightarrow> (case st of (s, world_done) \<Rightarrow>
     cp_pending_requests_swap s = [] \<and> bt_ok (cp_pending_requests s) \<and> cp_world_data_done s = world_done \<and>
     (cp_world_data s = arrived evs \<or> cp_world_data s = [] \<and> world_done) \<and>
     (\<forall>i \<in> set (cp_pending_requests s). \<not> available (cp_world_data s) i \<and> i \<in> requested evs) \<and>
     (\<forall>i \<in> requested evs. i \<in> set (cp_pending_requests s) \<or> available (arrived evs) i \<and> answer (arrived evs) i \<in> set outs) \<and>
     (\<forall>x \<in> set outs. explained evs x))"

lemma client_inv_client:
  assumes "client_inv evs outs (s, d)" "on_packet_from_client now p s = (out, s')"
  shows "client_inv (evs @ [FromClient p]) (outs @ out) (s', d)"
proof -
  have old: "\<forall>x \<in> set outs. explained (evs @ [FromClient p]) x"
    using assms(1) by (simp add: client_inv_def explained_append)
  show ?thesis
  proof (cases "as_block_request p")
    case None
    then have "explained (evs @ [FromClient p]) (p, ToServer)" by (simp add: explained_def)
    with None assms old show ?thesis
      by (auto simp: client_inv_def on_packet_from_client_def available_def split: if_splits)
  next
    case (Some i)
    show ?thesis
    proof (cases "available (cp_world_data s) i")
      case True
      then have data: "cp_world_data s = arrived evs" using assms(1) by (auto simp: client_inv_def available_def)
      then have "explained (evs @ [FromClient p]) (answer (arrived evs) i)"
        using True Some by (auto simp: explained_def)
      with True Some assms old data show ?thesis
        by (auto simp: client_inv_def on_packet_from_client_def try_fulfill_eq answer_def)
    next
      case False
      with Some assms old show ?thesis
        by (auto simp: client_inv_def on_packet_from_client_def try_fulfill_eq)
    qed
  qed
qed

lemma client_inv_data:
  assumes "client_inv evs outs (s, False)" "on_new_world_data now r s = (out, s')"
  shows "client_inv (evs @ [WorldData r]) (outs @ out) (s', r = None)"
proof -
  have old: "\<forall>x \<in> set outs. explained (evs @ [WorldData r]) x"
    using assms(1) by (simp add: client_inv_def explained_append)
  show ?thesis
  proof (cases r)
    case None
    with assms old show ?thesis by (auto simp: client_inv_def on_new_world_data_def)
  next
    case (Some d)
    have inv: "cp_pending_requests_swap s = []" "bt_ok (cp_pending_requests s)" "cp_world_data s = arrived evs"
      "\<forall>i \<in> set (cp_pending_requests s). i \<in> requested evs" "\<not> cp_world_data_done s"
      "\<forall>i \<in> requested evs. i \<in> set (cp_pending_requests s) \<or> available (arrived evs) i \<and> answer (arrived evs) i \<in> set outs"
      using assms(1) by (auto simp: client_inv_def)
    let ?av = "available (arrived evs @ d)"
    have out: "out = map (answer (arrived evs @ d)) (filter ?av (cp_pending_requests s))"
      and s': "s' = s\<lparr> cp_world_data := arrived evs @ d,
        cp_pending_requests := fold bt_insert (filter (\<lambda>i. \<not> ?av i) (cp_pending_requests s)) [],
        cp_pending_requests_swap := [], cp_last_block_request := now \<rparr>"
      using assms(2) Some inv(1,3) by (simp_all add: on_new_world_data_def fulfill_pending_eq)
    have "explained (evs @ [WorldData r]) x" if "x \<in> set out" for x
      using that inv(4) Some unfolding out explained_def by auto
    moreover have "i \<in> set (cp_pending_requests s') \<or> ?av i \<and> answer (arrived evs @ d) i \<in> set (outs @ out)"
      if "i \<in> requested evs" for i
      using that inv(6) available_append [of "arrived evs" i d] answer_append [of "arrived evs" i d]
      by (auto simp: s' out set_fold_bt_insert)
    ultimately show ?thesis
      using old inv(4,5) Some by (auto simp: client_inv_def s' bt_ok_fold set_fold_bt_insert)
  qed
qed

lemma client_inv_step:
  assumes "client_inv evs outs st" "client_step now ev st = Some (out, st')"
  shows "client_inv (evs @ [ev]) (outs @ out) st'"
proof -
  obtain s d where st: "st = (s, d)" by fastforce
  show ?thesis
  proof (cases ev)
    case (FromClient p)
    with assms st show ?thesis by (auto simp: client_step_def intro: client_inv_client split: prod.splits)
  next
    case (FromServer p)
    then have "explained (evs @ [ev]) (p, ToClient)" by (simp add: explained_def)
    moreover have "\<forall>x \<in> set outs. explained (evs @ [ev]) x" using assms(1) st by (simp add: client_inv_def explained_append)
    ultimately show ?thesis using FromServer assms st by (auto simp: client_step_def client_inv_def)
  next
    case (WorldData r)
    with assms st show ?thesis by (auto simp: client_step_def intro: client_inv_data split: if_splits prod.splits)
  qed
qed

lemma client_runs_inv: "client_runs evs outs st \<Longrightarrow> client_inv evs outs st"
proof (induction rule: client_runs.induct)
  case (client_start now)
  then show ?case by (simp add: client_inv_def cp_new_def)
next
  case (client_next evs outs st now ev out st')
  then show ?case by (blast intro: client_inv_step)
qed

section \<open>The table of peers\<close>

text \<open>Task number \<open>q\<close> has peer id \<open>q\<close>, and an address points at a task that was spawned for it.\<close>

definition router_ok :: "'a client_router \<Rightarrow> bool" where
  "router_ok r \<longleftrightarrow> unat (cr_next_peer_id r) = length (cr_spawned r) \<and>
     (\<forall>q < length (cr_spawned r). fst (cr_spawned r ! q) = q) \<and>
     (\<forall>i. cr_id_to_queue r i = (if i < length (cr_spawned r) then Some i else None)) \<and>
     (\<forall>a q. cr_addr_to_queue r a = Some q \<longrightarrow> q < length (cr_spawned r) \<and> snd (cr_spawned r ! q) = a)"

lemma router_ok_new: "router_ok cr_new"
  by (simp add: router_ok_def cr_new_def)

lemma checked_add_1_simps: "checked_add_1 n = None \<longleftrightarrow> n = - 1" "checked_add_1 n = Some k \<Longrightarrow> unat k = Suc (unat n)"
proof -
  show "checked_add_1 n = None \<longleftrightarrow> n = - 1" by (simp add: checked_add_1_def)
  assume "checked_add_1 n = Some k"
  then have "n \<noteq> - 1" "k = n + 1" by (simp_all add: checked_add_1_def split: if_splits)
  moreover from this have "n + 1 \<noteq> 0" by (metis add_eq_0_iff2)
  ultimately show "unat k = Suc (unat n)" by (metis add.commute unatSuc)
qed

lemma router_ok_spawn:
  assumes "router_ok r" "checked_add_1 (cr_next_peer_id r) = Some k"
  shows "router_ok (r\<lparr> cr_next_peer_id := k, cr_spawned := cr_spawned r @ [(unat (cr_next_peer_id r), a)],
    cr_addr_to_queue := (cr_addr_to_queue r)(a \<mapsto> length (cr_spawned r)),
    cr_id_to_queue := (cr_id_to_queue r)(unat (cr_next_peer_id r) \<mapsto> length (cr_spawned r)) \<rparr>)"
  using assms(1) checked_add_1_simps(2) [OF assms(2)]
  by (auto simp: router_ok_def nth_append less_Suc_eq dest: spec)

text \<open>
  Peers do not mix: a packet from an address is offered to a task that was spawned for exactly that address and has
  not ended, the datagrams of the task's peer id are offered to the same task, and datagrams of
  unknown ids are dropped. The table stays consistent, and the only error is running out of
  peer ids, after \<open>2^32 - 1\<close> peers.
\<close>

lemma peers_isolated:
  assumes "router_ok r"
  shows "(case route_from_socket closed a data r of
      Inl e \<Rightarrow> \<not> is_panic e \<and> length (cr_spawned r) = 2 ^ 32 - 1
    | Inr (dv, r') \<Rightarrow> router_ok r' \<and> (\<exists>q. dv = ClientPacket q data \<and> q < length (cr_spawned r') \<and> snd (cr_spawned r' ! q) = a \<and>
        cr_id_to_queue r' (fst (cr_spawned r' ! q)) = Some q \<and> (q < length (cr_spawned r) \<longrightarrow> \<not> closed q \<and> r' = r))) \<and>
    (\<forall>dec p d. dg_decode dec p = Inr d \<longrightarrow> route_from_connection dec p r =
       Inr (if dg_peer_id d < length (cr_spawned r) then Some (ServerPacket (dg_peer_id d) (dg_data d)) else None))"
proof (intro conjI)
  show "\<forall>dec p d. dg_decode dec p = Inr d \<longrightarrow> route_from_connection dec p r =
       Inr (if dg_peer_id d < length (cr_spawned r) then Some (ServerPacket (dg_peer_id d) (dg_data d)) else None)"
    using assms by (simp add: route_from_connection_def router_ok_def)
  show "case route_from_socket closed a data r of
      Inl e \<Rightarrow> \<not> is_panic e \<and> length (cr_spawned r) = 2 ^ 32 - 1
    | Inr (dv, r') \<Rightarrow> router_ok r' \<and> (\<exists>q. dv = ClientPacket q data \<and> q < length (cr_spawned r') \<and> snd (cr_spawned r' ! q) = a \<and>
        cr_id_to_queue r' (fst (cr_spawned r' ! q)) = Some q \<and> (q < length (cr_spawned r) \<longrightarrow> \<not> closed q \<and> r' = r))"
  proof (cases "\<exists>q. cr_addr_to_queue r a = Some q \<and> \<not> closed q")
    case True
    with assms show ?thesis by (auto simp: route_from_socket_def router_ok_def)
  next
    case False
    then have fresh: "(case cr_addr_to_queue r a of Some q \<Rightarrow> if closed q then None else Some q | None \<Rightarrow> None) = None"
      by (auto split: option.splits)
    show ?thesis
    proof (cases "checked_add_1 (cr_next_peer_id r)")
      case None
      then have "unat (cr_next_peer_id r) = 2 ^ 32 - 1" by (simp add: checked_add_1_simps unsigned_minus_1_eq_mask mask_eq_exp_minus_1)
      with None fresh assms show ?thesis by (simp add: route_from_socket_def router_ok_def)
    next
      case (Some k)
      with fresh router_ok_spawn [OF assms Some, of a] assms show ?thesis
        by (simp add: route_from_socket_def Let_def)
    qed
  qed
qed

section \<open>Properties\<close>

text \<open>
  C13. Every block request is answered, with the right bytes: in every run of a peer's task, as long as the local copy
  of the world has not been dropped, each block the game asked for that has arrived completely
  has been sent to it, as the 503 bytes of the world at that place, whether the request came before or after the
  data. Conversely every packet sent is such an answer, a packet of the server passed on to the game, or a packet
  of the game that is no block request passed on to the server.
\<close>

theorem block_requests_answered:
  assumes "client_runs evs outs (s, world_done)" "cp_world_data s = arrived evs"
  shows "(\<forall>i \<in> requested evs. available (arrived evs) i \<longrightarrow> answer (arrived evs) i \<in> set outs) \<and> (\<forall>x \<in> set outs. explained evs x)"
  using client_runs_inv [OF assms(1)] assms(2) by (auto simp: client_inv_def)

lemma as_block_request_packet: "as_block_request (request_packet i) = Some i"
  by (simp add: as_block_request_def request_packet_simps header_new_unfragmented_def)

lemma client_example:
  "client_runs [FromClient (request_packet 0), WorldData (Some (replicate 600 7))] [answer (replicate 600 7) 0]
    (\<lparr> cp_world_data = replicate 600 7, cp_last_block_request = 2, cp_pending_requests = [], cp_pending_requests_swap = [],
       cp_world_data_done = False \<rparr>, False)"
proof -
  have 1: "client_runs ([] @ [FromClient (request_packet 0)]) ([] @ [])
      ((cp_new 0)\<lparr> cp_pending_requests := [0], cp_last_block_request := 1 \<rparr>, False)"
    by (rule client_next [OF client_start [of 0], of 1])
      (simp add: client_step_def on_packet_from_client_def as_block_request_packet try_fulfill_eq available_def cp_new_def bt_insert_def
        insort_insert_key_def)
  have "client_step 2 (WorldData (Some (replicate 600 7))) ((cp_new 0)\<lparr> cp_pending_requests := [0], cp_last_block_request := 1 \<rparr>, False) =
      Some ([answer (replicate 600 7) 0], \<lparr> cp_world_data = replicate 600 7, cp_last_block_request = 2, cp_pending_requests = [],
        cp_pending_requests_swap = [], cp_world_data_done = False \<rparr>, False)"
    by (simp add: client_step_def on_new_world_data_def fulfill_pending_eq available_def cp_new_def)
  from client_next [OF 1 this] show ?thesis by simp
qed

theorem block_requests_answered_witness:
  "answer (replicate 600 7) 0 \<in> set [answer (replicate 600 7) 0] \<and>
   explained [FromClient (request_packet 0), WorldData (Some (replicate 600 7))] (answer (replicate 600 7) 0)"
  using block_requests_answered [OF client_example] by (simp add: arrived_def)

end
