(* ===== verification/Server_Proxy.thy ===== *)
theory Server_Proxy
  imports Factorio_Proxy
begin

text \<open>
  The proxy next to the game server (\<^verbatim>\<open>factorio-cacher/src/proxy/server_proxy.rs\<close>): it recognises the announcement of
  a map, downloads the map block by block in place of the player, announces a changed size to the
  player, and hands the map over to the task that takes it apart and serves its chunks.

  \<^item> \<^verbatim>\<open>memchr\<close>'s \<^verbatim>\<open>Finder::find_iter\<close> is the parameter \<open>find_iter\<close>, a needle and a haystack to the positions found; the
    locale \<open>finder\<close> states its documentation.
  \<^item> The estimated size, a floating-point multiplication and a saturating conversion, is the parameter \<open>estimate\<close>.
  \<^item> Indexing or copying out of range is a panic. Block counts are \<^verbatim>\<open>u32\<close> and wrap.
  \<^item> The streams a proxy owns until it hands them over are the flag \<open>sp_comp_stream\<close>; the task it spawns is part of the
    result of a handler.
\<close>

section \<open>Definitions\<close>

subsection \<open>The table of peers\<close>

record server_router =
  so_outgoing_queues :: "nat \<Rightarrow> nat option"
  so_spawned :: "nat list"

definition so_new :: server_router where
  "so_new = \<lparr> so_outgoing_queues = Map.empty, so_spawned = [] \<rparr>"

definition so_datagram :: "(bytes \<Rightarrow> (nat \<times> bytes) res) \<Rightarrow> bytes \<Rightarrow> server_router \<Rightarrow> (nat \<times> bytes) option res" where
  "so_datagram varint_decode packet r =
     and_then (dg_decode varint_decode packet) (\<lambda>datagram.
       Inr (case so_outgoing_queues r (dg_peer_id datagram) of
              Some q \<Rightarrow> Some (q, dg_data datagram)
            | None \<Rightarrow> None))"

text \<open>A stream the player's proxy opened: it starts with the peer id. An error ends the loop for all peers.\<close>

definition so_accept :: "bytes \<Rightarrow> server_router \<Rightarrow> server_router res" where
  "so_accept stream r =
     and_then (try_get_u32_le stream) (\<lambda>(peer_id, _).
     Inr (r\<lparr> so_outgoing_queues := (so_outgoing_queues r)(unat peer_id \<mapsto> length (so_spawned r)),
       so_spawned := so_spawned r @ [unat peer_id] \<rparr>))"

subsection \<open>Changing packets\<close>

type_synonym find_iter = "bytes \<Rightarrow> bytes \<Rightarrow> nat list"

record filtering_packets_state =
  fp_needle :: bytes
  fp_replace_with :: bytes
  fp_last_replace :: nat

definition copy_at :: "nat \<Rightarrow> nat \<Rightarrow> bytes \<Rightarrow> bytes \<Rightarrow> bytes res" where
  "copy_at pos n src buf =
     (if length buf < pos + n then Inl (Panic ''range end index out of range for slice'')
      else if length src \<noteq> n then Inl (Panic ''source slice length does not match destination slice length'')
      else Inr (take pos buf @ src @ drop (pos + n) buf))"

primrec replace_all :: "bytes \<Rightarrow> bytes \<Rightarrow> nat list \<Rightarrow> bytes \<Rightarrow> bytes res" where
  "replace_all needle src [] buf = Inr buf"
| "replace_all needle src (pos # ps) buf =
     and_then (copy_at pos (length needle) src buf) (\<lambda>buf. replace_all needle src ps buf)"

definition filter_packet ::
  "find_iter \<Rightarrow> nat \<Rightarrow> bytes \<Rightarrow> filtering_packets_state \<Rightarrow> (bytes \<times> filtering_packets_state) res" where
  "filter_packet find_iter now packet_data st =
     (let ps = find_iter (fp_needle st) packet_data
      in and_then (replace_all (fp_needle st) (fp_replace_with st) ps packet_data) (\<lambda>new_packet_data.
         Inr (new_packet_data, if ps \<noteq> [] then st\<lparr> fp_last_replace := now \<rparr> else st)))"

subsection \<open>The states of a download\<close>

record downloading_world_state =
  dw_world_info :: factorio_world_metadata
  dw_new_world_info :: factorio_world_metadata
  dw_world_block_count :: u32
  dw_download_start_time :: nat
  dw_received_blocks :: "transfer_block_packet list"
  dw_block_request_queue :: "u32 list"
  dw_inflight_block_requests :: "u32 list"
  dw_last_block_time :: nat

datatype server_proxy_phase = WaitingForWorld | DownloadingWorld downloading_world_state | Done

record server_proxy_state =
  sp_phase :: server_proxy_phase
  sp_packet_filter :: "filtering_packets_state option"
  sp_comp_stream :: bool

definition INFLIGHT_BLOCK_REQUEST_LIMIT :: nat where "INFLIGHT_BLOCK_REQUEST_LIMIT = 16"

definition sp_new :: server_proxy_state where
  "sp_new = \<lparr> sp_phase = WaitingForWorld, sp_packet_filter = None, sp_comp_stream = True \<rparr>"

fun request_loop :: "u32 list \<Rightarrow> u32 list \<Rightarrow> packets \<times> u32 list \<times> u32 list" where
  "request_loop queue inflight =
     (if length inflight < INFLIGHT_BLOCK_REQUEST_LIMIT
      then (case queue of
              [] \<Rightarrow> ([], queue, inflight)
            | block_id # queue \<Rightarrow>
                (case request_loop queue (bt_insert block_id inflight) of
                   (out, q, i) \<Rightarrow> ((request_packet block_id, ToServer) # out, q, i)))
      else ([], queue, inflight))"

definition request_next_blocks :: "downloading_world_state \<Rightarrow> packets \<times> downloading_world_state" where
  "request_next_blocks st =
     (case request_loop (dw_block_request_queue st) (dw_inflight_block_requests st) of
        (out, queue, inflight) \<Rightarrow> (out, st\<lparr> dw_block_request_queue := queue, dw_inflight_block_requests := inflight \<rparr>))"

definition transition_to_downloading_world ::
  "(u32 \<Rightarrow> u32) \<Rightarrow> find_iter \<Rightarrow> nat \<Rightarrow> bytes \<Rightarrow> factorio_world_metadata \<Rightarrow> server_proxy_state \<Rightarrow>
    (packets \<times> server_proxy_state) res" where
  "transition_to_downloading_world estimate find_iter now in_packet_data world_info self =
     (let new_world_info = world_info\<lparr> world_size := estimate (world_size world_info) \<rparr>;
          filtering_state = \<lparr> fp_needle = wm_encode world_info, fp_replace_with = wm_encode new_world_info, fp_last_replace = now \<rparr>
      in and_then (filter_packet find_iter now in_packet_data filtering_state) (\<lambda>(in_packet_data, filtering_state).
         let world_block_count = block_count (world_size world_info);
             aux_block_count = block_count (aux_size world_info);
             total_block_count = world_block_count + aux_block_count;
             st = \<lparr> dw_world_info = world_info, dw_new_world_info = new_world_info, dw_world_block_count = world_block_count,
               dw_download_start_time = now, dw_received_blocks = [],
               dw_block_request_queue = map of_nat [0..<unat total_block_count],
               dw_inflight_block_requests = [], dw_last_block_time = now \<rparr>
         in case request_next_blocks st of
              (requests, st) \<Rightarrow> Inr ((in_packet_data, ToClient) # requests,
                self\<lparr> sp_packet_filter := Some filtering_state, sp_phase := DownloadingWorld st \<rparr>)))"

definition sp_finalize_world :: "server_proxy_state \<Rightarrow> (downloading_world_state \<times> server_proxy_state) res" where
  "sp_finalize_world self =
     (case sp_phase self of
        DownloadingWorld st \<Rightarrow>
          (if sp_comp_stream self then Inr (st, self\<lparr> sp_phase := Done, sp_comp_stream := False \<rparr>)
           else Inl (Panic ''called `Option::unwrap()` on a `None` value''))
      | _ \<Rightarrow> Inl (Panic ''internal error: entered unreachable code''))"

text \<open>A map announcement: a heartbeat that is whole, or the first fragment of one.\<close>

definition as_map_ready :: "bytes \<Rightarrow> factorio_world_metadata option" where
  "as_map_ready in_packet_data =
     (case header_decode in_packet_data of
        Inl _ \<Rightarrow> None
      | Inr (header, msg_data) \<Rightarrow>
          (if packet_type header = ServerToClientHeartbeat \<and>
              (case fragmentation header of None \<Rightarrow> True | Some frag \<Rightarrow> fragment_id frag = Some 0)
           then (case and_then (hb_decode msg_data) try_decode_map_ready of Inr (Some world_info) \<Rightarrow> Some world_info | _ \<Rightarrow> None)
           else None))"

text \<open>The end of the handler, for a packet that is passed on.\<close>

definition pass_on :: "find_iter \<Rightarrow> nat \<Rightarrow> bytes \<Rightarrow> server_proxy_state \<Rightarrow> (packets \<times> server_proxy_state) res" where
  "pass_on find_iter now in_packet_data self =
     (case sp_packet_filter self of
        None \<Rightarrow> Inr ([(in_packet_data, ToClient)], self)
      | Some filtering_state \<Rightarrow>
          and_then (filter_packet find_iter now in_packet_data filtering_state) (\<lambda>(in_packet_data, filtering_state).
          Inr ([(in_packet_data, ToClient)],
            self\<lparr> sp_packet_filter := if now - fp_last_replace filtering_state > 30000 then None else Some filtering_state \<rparr>)))"

definition take_block :: "nat \<Rightarrow> transfer_block_packet \<Rightarrow> downloading_world_state \<Rightarrow> downloading_world_state" where
  "take_block now transfer_block st =
     (case bt_remove (tb_block_id transfer_block) (dw_inflight_block_requests st) of
        (True, inflight) \<Rightarrow>
          st\<lparr> dw_inflight_block_requests := inflight, dw_received_blocks := dw_received_blocks st @ [transfer_block],
              dw_last_block_time := now \<rparr>
      | (False, _) \<Rightarrow>
          (case bt_remove (tb_block_id transfer_block) (dw_block_request_queue st) of
             (True, queue) \<Rightarrow>
               st\<lparr> dw_block_request_queue := queue, dw_received_blocks := dw_received_blocks st @ [transfer_block],
                   dw_last_block_time := now \<rparr>
           | (False, _) \<Rightarrow> st))"

definition on_block :: "nat \<Rightarrow> transfer_block_packet \<Rightarrow> downloading_world_state \<Rightarrow> server_proxy_state \<Rightarrow>
    (packets \<times> downloading_world_state option \<times> server_proxy_state) res" where
  "on_block now transfer_block st self =
     (let st = take_block now transfer_block st
      in if dw_block_request_queue st = [] \<and> dw_inflight_block_requests st = []
         then and_then (sp_finalize_world (self\<lparr> sp_phase := DownloadingWorld st \<rparr>)) (\<lambda>(st, self). Inr ([], Some st, self))
         else case request_next_blocks st of
                (out, st) \<Rightarrow> Inr (out, None, self\<lparr> sp_phase := DownloadingWorld st \<rparr>))"

definition retry_requests :: "nat \<Rightarrow> downloading_world_state \<Rightarrow> packets \<times> downloading_world_state" where
  "retry_requests now st =
     (if now - dw_last_block_time st > 100
      then (case request_next_blocks st of
              (out, st') \<Rightarrow> (map (\<lambda>block_id. (request_packet block_id, ToServer)) (dw_inflight_block_requests st) @ out,
                st'\<lparr> dw_last_block_time := now \<rparr>))
      else ([], st))"

definition on_packet_from_server ::
  "(u32 \<Rightarrow> u32) \<Rightarrow> find_iter \<Rightarrow> nat \<Rightarrow> bytes \<Rightarrow> server_proxy_state \<Rightarrow>
    (packets \<times> downloading_world_state option \<times> server_proxy_state) res" where
  "on_packet_from_server estimate find_iter now in_packet_data self =
     (case sp_phase self of
        WaitingForWorld \<Rightarrow>
          (case as_map_ready in_packet_data of
             Some world_info \<Rightarrow>
               and_then (transition_to_downloading_world estimate find_iter now in_packet_data world_info self) (\<lambda>(out, self).
               Inr (out, None, self))
           | None \<Rightarrow> and_then (pass_on find_iter now in_packet_data self) (\<lambda>(out, self). Inr (out, None, self)))
      | DownloadingWorld st \<Rightarrow>
          (case header_decode in_packet_data of
             Inr (header, msg_data) \<Rightarrow>
               (if packet_type header = TransferBlock
                then (case tb_decode msg_data of
                        Inl _ \<Rightarrow> Inr ([], None, self)
                      | Inr transfer_block \<Rightarrow> on_block now transfer_block st self)
                else (case retry_requests now st of
                        (requests, st) \<Rightarrow>
                          and_then (pass_on find_iter now in_packet_data (self\<lparr> sp_phase := DownloadingWorld st \<rparr>)) (\<lambda>(out, self).
                          Inr (requests @ out, None, self))))
           | Inl _ \<Rightarrow>
               (case retry_requests now st of
                  (requests, st) \<Rightarrow>
                    and_then (pass_on find_iter now in_packet_data (self\<lparr> sp_phase := DownloadingWorld st \<rparr>)) (\<lambda>(out, self).
                    Inr (requests @ out, None, self))))
      | Done \<Rightarrow> and_then (pass_on find_iter now in_packet_data self) (\<lambda>(out, self). Inr (out, None, self)))"

datatype 'a server_event = FromSocket 'a bytes | FromQueue bytes

definition server_step ::
  "(u32 \<Rightarrow> u32) \<Rightarrow> find_iter \<Rightarrow> 'a \<Rightarrow> nat \<Rightarrow> 'a server_event \<Rightarrow> server_proxy_state \<Rightarrow>
    (packets \<times> downloading_world_state option \<times> server_proxy_state) res" where
  "server_step estimate find_iter factorio_addr now ev self =
     (case ev of
        FromSocket remote_addr packet_data \<Rightarrow>
          (if remote_addr \<noteq> factorio_addr then Inr ([], None, self)
           else on_packet_from_server estimate find_iter now packet_data self)
      | FromQueue packet_data \<Rightarrow> Inr ([(packet_data, ToServer)], None, self))"

datatype server_sent = ServerDatagram bytes | ServerSendTo bytes

definition server_emit :: "(nat \<Rightarrow> bytes) \<Rightarrow> nat \<Rightarrow> packets \<Rightarrow> server_sent list" where
  "server_emit varint_encode peer_id out_packets =
     map (\<lambda>(packet_data, dir). case dir of
        ToClient \<Rightarrow> ServerDatagram (dg_encode varint_encode (dg_new peer_id packet_data))
      | ToServer \<Rightarrow> ServerSendTo packet_data) out_packets"

text \<open>The runs of the loop: the packets received from the game, and the download handed over, if any.\<close>

inductive server_runs ::
  "(u32 \<Rightarrow> u32) \<Rightarrow> find_iter \<Rightarrow> 'a \<Rightarrow> 'a server_event list \<Rightarrow> downloading_world_state list \<Rightarrow> server_proxy_state \<Rightarrow> bool"
  for estimate find_iter factorio_addr where
  server_start: "server_runs estimate find_iter factorio_addr [] [] sp_new"
| server_next: "server_runs estimate find_iter factorio_addr evs tasks s \<Longrightarrow>
    server_step estimate find_iter factorio_addr now ev s = Inr (out, spawned, s') \<Longrightarrow>
    server_runs estimate find_iter factorio_addr (evs @ [ev]) (tasks @ (case spawned of None \<Rightarrow> [] | Some d \<Rightarrow> [d])) s'"

subsection \<open>Handing a world over\<close>

definition slice :: "nat \<Rightarrow> nat \<Rightarrow> bytes \<Rightarrow> bytes res" where
  "slice a b bs = (if b < a \<or> length bs < b then Inl (Panic ''range out of bounds'') else Inr (take (b - a) (drop a bs)))"

definition received_data :: "downloading_world_state \<Rightarrow> bytes" where
  "received_data st = concat (map tb_data (sort_key tb_block_id (dw_received_blocks st)))"

definition split_world :: "downloading_world_state \<Rightarrow> (bytes \<times> bytes) res" where
  "split_world st =
     (let received = received_data st;
          aux_data_offset = dw_world_block_count st * TRANSFER_BLOCK_SIZE;
          aux = aux_size (dw_world_info st)
      in if length received < unat aux_data_offset + unat aux
         then Inl (Anyhow ''Received data length is smaller than expected length'')
         else and_then (slice 0 (unat (world_size (dw_world_info st))) received) (\<lambda>world_data.
              and_then (slice (unat aux_data_offset) (unat (aux_data_offset + aux)) received) (\<lambda>aux_data.
              Inr (world_data, aux_data))))"

definition server_transfer_world_data ::
  "nat \<Rightarrow> hash_fun \<Rightarrow> miniz \<Rightarrow> zip_archive \<Rightarrow> messages \<Rightarrow> world_ready_message serde \<Rightarrow> 'n stream_io \<Rightarrow>
    downloading_world_state \<Rightarrow> 'n \<Rightarrow> (nat res \<times> 'n) option" where
  "server_transfer_world_data fuel H mz zip_new m rdy io st streams =
     (case and_then (split_world st) (\<lambda>(world_data, aux_data). deconstruct_world H mz zip_new world_data aux_data) of
        Inl e \<Rightarrow> Some (Inl e, streams)
      | Inr (world_description, chunks) \<Rightarrow>
          (case encode_message (m_zstd m) rdy (m_transport m)
                  \<lparr> wrm_world = world_description, wrm_old_info = dw_world_info st, wrm_new_info = dw_new_world_info st \<rparr> of
             Inl e \<Rightarrow> Some (Inl e, streams)
           | Inr world_ready_message \<Rightarrow>
               (case write_message io world_ready_message streams of
                  (Inl e, streams) \<Rightarrow> Some (Inl e, streams)
                | (Inr _, streams) \<Rightarrow> provide_chunks_as_requested fuel io m chunks (length world_ready_message) streams)))"

section \<open>The searcher\<close>

definition occurs :: "bytes \<Rightarrow> bytes \<Rightarrow> nat \<Rightarrow> bool" where
  "occurs needle hay p \<longleftrightarrow> p + length needle \<le> length hay \<and> take (length needle) (drop p hay) = needle"

locale finder =
  fixes find_iter :: find_iter
  assumes found: "needle \<noteq> [] \<Longrightarrow> p \<in> set (find_iter needle hay) \<Longrightarrow> occurs needle hay p"
    and disjoint: "needle \<noteq> [] \<Longrightarrow> sorted_wrt (\<lambda>p q. p + length needle \<le> q) (find_iter needle hay)"
    and complete: "needle \<noteq> [] \<Longrightarrow> occurs needle hay p \<Longrightarrow> \<exists>q \<in> set (find_iter needle hay). q \<le> p \<and> p < q + length needle"
begin

lemma find_unique:
  assumes "needle \<noteq> []" "occurs needle hay q" "\<And>p. occurs needle hay p \<Longrightarrow> p = q"
  shows "find_iter needle hay = [q]"
proof -
  have sub: "p = q" if "p \<in> set (find_iter needle hay)" for p using found [OF assms(1) that] assms(3) by blast
  obtain x xs where x: "find_iter needle hay = x # xs"
    using complete [OF assms(1,2)] by (cases "find_iter needle hay") auto
  have "y \<notin> set xs" for y
    using disjoint [OF assms(1), of hay] assms(1) sub [of x] sub [of y] by (auto simp: x)
  with x sub show ?thesis by (cases xs) auto
qed

lemma replace_all_total:
  assumes "length src = length needle" "\<forall>p \<in> set ps. p + length needle \<le> length buf"
  shows "\<exists>b. replace_all needle src ps buf = Inr b \<and> length b = length buf"
  using assms(2)
proof (induction ps arbitrary: buf)
  case (Cons p ps)
  let ?b = "take p buf @ src @ drop (p + length needle) buf"
  have "length ?b = length buf" using assms(1) Cons.prems by simp
  with Cons.IH [of ?b] Cons.prems assms(1) show ?case by (auto simp: copy_at_def)
qed simp

lemma filter_packet_total:
  assumes "fp_needle st \<noteq> []" "length (fp_replace_with st) = length (fp_needle st)"
  shows "\<exists>b st'. filter_packet find_iter now packet st = Inr (b, st') \<and> length b = length packet \<and>
    fp_needle st' = fp_needle st \<and> fp_replace_with st' = fp_replace_with st"
proof -
  have "\<forall>p \<in> set (find_iter (fp_needle st) packet). p + length (fp_needle st) \<le> length packet"
    using found [OF assms(1)] by (auto simp: occurs_def)
  from replace_all_total [OF assms(2) this] show ?thesis
    by (auto simp: filter_packet_def Let_def)
qed

lemma filter_packet_unique:
  assumes "fp_needle st \<noteq> []" "length (fp_replace_with st) = length (fp_needle st)"
    "\<And>p. occurs (fp_needle st) (pre @ fp_needle st @ post) p \<Longrightarrow> p = length pre"
  shows "filter_packet find_iter now (pre @ fp_needle st @ post) st = Inr (pre @ fp_replace_with st @ post, st\<lparr> fp_last_replace := now \<rparr>)"
proof -
  have "find_iter (fp_needle st) (pre @ fp_needle st @ post) = [length pre]"
    using assms(1,3) by (intro find_unique) (auto simp: occurs_def)
  with assms(2) show ?thesis by (simp add: filter_packet_def copy_at_def)
qed

end

text \<open>A searcher that meets the contract: from the left, and on past every occurrence.\<close>

function naive_find :: "nat \<Rightarrow> find_iter" where
  "naive_find off needle hay =
     (if needle = [] \<or> length hay < length needle then []
      else if take (length needle) hay = needle then off # naive_find (off + length needle) needle (drop (length needle) hay)
      else naive_find (Suc off) needle (tl hay))"
  by pat_completeness auto
termination
  by (relation "measure (\<lambda>(off, needle, hay). length hay)") (auto simp: neq_Nil_conv)

declare naive_find.simps [simp del]

lemma occurs_shift: "needle \<noteq> [] \<Longrightarrow> occurs needle (drop n hay) p \<longleftrightarrow> occurs needle hay (p + n)"
proof -
  assume "needle \<noteq> []"
  then have "length needle \<noteq> 0" by simp
  then have "p + length needle \<le> length hay - n \<longleftrightarrow> p + n + length needle \<le> length hay" by linarith
  then show ?thesis by (simp add: occurs_def add.commute)
qed

lemma naive_find_induct [consumes 1, case_names short hit miss]:
  assumes "needle \<noteq> []"
    and "\<And>off hay. length hay < length needle \<Longrightarrow> P off hay []"
    and "\<And>off rest. P (off + length needle) rest (naive_find (off + length needle) needle rest) \<Longrightarrow>
      P off (needle @ rest) (off # naive_find (off + length needle) needle rest)"
    and "\<And>off b rest. \<not> occurs needle (b # rest) 0 \<Longrightarrow> P (Suc off) rest (naive_find (Suc off) needle rest) \<Longrightarrow>
      P off (b # rest) (naive_find (Suc off) needle rest)"
  shows "P off hay (naive_find off needle hay)"
proof (induction "length hay" arbitrary: off hay rule: less_induct)
  case less
  show ?case
  proof (cases "length hay < length needle")
    case True
    with assms(2) show ?thesis by (simp add: naive_find.simps)
  next
    case long: False
    show ?thesis
    proof (cases "take (length needle) hay = needle")
      case True
      then obtain rest where rest: "hay = needle @ rest" by (metis append_take_drop_id)
      have "P (off + length needle) rest (naive_find (off + length needle) needle rest)"
        using less [of rest] assms(1) rest by simp
      from assms(3) [OF this] show ?thesis using assms(1) by (simp add: rest naive_find.simps [of off])
    next
      case False
      obtain b rest where hay: "hay = b # rest" using long assms(1) by (cases hay) auto
      have "P (Suc off) rest (naive_find (Suc off) needle rest)" using less [of rest] hay by simp
      moreover have "\<not> occurs needle (b # rest) 0" using False hay by (simp add: occurs_def)
      ultimately have "P off (b # rest) (naive_find (Suc off) needle rest)" by (rule assms(4) [rotated])
      then show ?thesis using assms(1) False long by (simp add: hay naive_find.simps [of off])
    qed
  qed
qed

lemma occurs_Cons: "needle \<noteq> [] \<Longrightarrow> occurs needle (b # rest) (Suc p) \<longleftrightarrow> occurs needle rest p"
  by (simp add: occurs_def)

lemma occurs_append: "needle \<noteq> [] \<Longrightarrow> occurs needle (xs @ rest) (p + length xs) \<longleftrightarrow> occurs needle rest p"
  using occurs_shift [of needle "length xs" "xs @ rest" p] by simp

lemma naive_find_found:
  assumes "needle \<noteq> []"
  shows "\<forall>p \<in> set (naive_find off needle hay). \<exists>i. p = off + i \<and> occurs needle hay i"
proof (rule naive_find_induct [OF assms, where P = "\<lambda>off hay ps. \<forall>p \<in> set ps. \<exists>i. p = off + i \<and> occurs needle hay i"])
  fix off :: nat and rest :: bytes
  assume "\<forall>p \<in> set (naive_find (off + length needle) needle rest). \<exists>i. p = off + length needle + i \<and> occurs needle rest i"
  then have "\<forall>p \<in> set (naive_find (off + length needle) needle rest). \<exists>i. p = off + i \<and> occurs needle (needle @ rest) i"
    using occurs_append [OF assms, of needle rest] by (metis add.assoc add.commute)
  then show "\<forall>p \<in> set (off # naive_find (off + length needle) needle rest). \<exists>i. p = off + i \<and> occurs needle (needle @ rest) i"
    by (simp add: occurs_def)
next
  fix off :: nat and b :: u8 and rest :: bytes
  assume "\<forall>p \<in> set (naive_find (Suc off) needle rest). \<exists>i. p = Suc off + i \<and> occurs needle rest i"
  then show "\<forall>p \<in> set (naive_find (Suc off) needle rest). \<exists>i. p = off + i \<and> occurs needle (b # rest) i"
    using occurs_Cons [OF assms] by (metis add_Suc_shift)
qed simp

lemma naive_find_disjoint:
  assumes "needle \<noteq> []"
  shows "sorted_wrt (\<lambda>p q. p + length needle \<le> q) (naive_find off needle hay)"
proof (rule naive_find_induct [OF assms, where P = "\<lambda>off hay ps. sorted_wrt (\<lambda>p q. p + length needle \<le> q) ps"])
  fix off :: nat and rest :: bytes
  assume "sorted_wrt (\<lambda>p q. p + length needle \<le> q) (naive_find (off + length needle) needle rest)"
  then show "sorted_wrt (\<lambda>p q. p + length needle \<le> q) (off # naive_find (off + length needle) needle rest)"
    using naive_find_found [OF assms, of "off + length needle" rest] by auto
qed simp_all

lemma naive_find_complete:
  assumes "needle \<noteq> []"
  shows "\<forall>p. occurs needle hay p \<longrightarrow> (\<exists>q \<in> set (naive_find off needle hay). q \<le> off + p \<and> off + p < q + length needle)"
proof (rule naive_find_induct [OF assms, where P = "\<lambda>off hay ps. \<forall>p. occurs needle hay p \<longrightarrow>
    (\<exists>q \<in> set ps. q \<le> off + p \<and> off + p < q + length needle)"])
  fix off :: nat and hay :: bytes assume "length hay < length needle"
  then show "\<forall>p. occurs needle hay p \<longrightarrow> (\<exists>q \<in> set []. q \<le> off + p \<and> off + p < q + length needle)"
    by (simp add: occurs_def)
next
  fix off :: nat and rest :: bytes
  assume IH: "\<forall>p. occurs needle rest p \<longrightarrow> (\<exists>q \<in> set (naive_find (off + length needle) needle rest).
    q \<le> off + length needle + p \<and> off + length needle + p < q + length needle)"
  show "\<forall>p. occurs needle (needle @ rest) p \<longrightarrow>
    (\<exists>q \<in> set (off # naive_find (off + length needle) needle rest). q \<le> off + p \<and> off + p < q + length needle)"
  proof (intro allI impI)
    fix p assume p: "occurs needle (needle @ rest) p"
    show "\<exists>q \<in> set (off # naive_find (off + length needle) needle rest). q \<le> off + p \<and> off + p < q + length needle"
    proof (cases "p < length needle")
      case True
      then show ?thesis by auto
    next
      case False
      with p occurs_append [OF assms, of needle rest "p - length needle"] have "occurs needle rest (p - length needle)" by simp
      with IH False show ?thesis by fastforce
    qed
  qed
next
  fix off :: nat and b :: u8 and rest :: bytes
  assume IH: "\<not> occurs needle (b # rest) 0"
    "\<forall>p. occurs needle rest p \<longrightarrow> (\<exists>q \<in> set (naive_find (Suc off) needle rest). q \<le> Suc off + p \<and> Suc off + p < q + length needle)"
  show "\<forall>p. occurs needle (b # rest) p \<longrightarrow> (\<exists>q \<in> set (naive_find (Suc off) needle rest). q \<le> off + p \<and> off + p < q + length needle)"
  proof (intro allI impI)
    fix p assume p: "occurs needle (b # rest) p"
    with IH(1) obtain i where "p = Suc i" by (cases p) auto
    with p IH(2) occurs_Cons [OF assms] show "\<exists>q \<in> set (naive_find (Suc off) needle rest). q \<le> off + p \<and> off + p < q + length needle"
      by fastforce
  qed
qed

interpretation nf: finder "naive_find 0"
proof
  fix needle hay :: bytes and p assume n: "needle \<noteq> []"
  show "p \<in> set (naive_find 0 needle hay) \<Longrightarrow> occurs needle hay p"
    using naive_find_found [OF n, of 0 hay] by auto
  show "sorted_wrt (\<lambda>p q. p + length needle \<le> q) (naive_find 0 needle hay)" by (rule naive_find_disjoint [OF n])
  show "occurs needle hay p \<Longrightarrow> \<exists>q \<in> set (naive_find 0 needle hay). q \<le> p \<and> p < q + length needle"
    using naive_find_complete [OF n, of hay 0] by auto
qed

section \<open>The blocks of a download\<close>

declare request_loop.simps [simp del]

definition dw_total :: "downloading_world_state \<Rightarrow> u32" where
  "dw_total st = block_count (world_size (dw_world_info st)) + block_count (aux_size (dw_world_info st))"

definition dw_ids :: "downloading_world_state \<Rightarrow> u32 list" where
  "dw_ids st = map tb_block_id (dw_received_blocks st)"

text \<open>Every block is received, in flight or queued, and only one of these; at most sixteen are in flight.\<close>

definition dw_pre :: "(transfer_block_packet \<Rightarrow> bool) \<Rightarrow> downloading_world_state \<Rightarrow> bool" where
  "dw_pre auth st \<longleftrightarrow>
     bt_ok (dw_block_request_queue st) \<and> bt_ok (dw_inflight_block_requests st) \<and> distinct (dw_ids st) \<and>
     set (dw_block_request_queue st) \<inter> set (dw_inflight_block_requests st) = {} \<and>
     set (dw_ids st) \<inter> (set (dw_block_request_queue st) \<union> set (dw_inflight_block_requests st)) = {} \<and>
     set (dw_ids st) \<union> set (dw_block_request_queue st) \<union> set (dw_inflight_block_requests st) = {i. i < dw_total st} \<and>
     length (dw_inflight_block_requests st) \<le> 16 \<and> list_all auth (dw_received_blocks st) \<and>
     dw_world_block_count st = block_count (world_size (dw_world_info st))"

definition dw_ok :: "(transfer_block_packet \<Rightarrow> bool) \<Rightarrow> downloading_world_state \<Rightarrow> bool" where
  "dw_ok auth st \<longleftrightarrow> dw_pre auth st \<and>
     (dw_block_request_queue st \<noteq> [] \<longrightarrow> length (dw_inflight_block_requests st) = 16)"

lemma request_loop_spec:
  assumes "bt_ok q" "bt_ok i" "set q \<inter> set i = {}" "length i \<le> 16" "request_loop q i = (out, q', i')"
  shows "bt_ok q' \<and> bt_ok i' \<and> set q' \<inter> set i' = {} \<and> length i' \<le> 16 \<and> (q' \<noteq> [] \<longrightarrow> length i' = 16) \<and>
    set q' \<union> set i' = set q \<union> set i \<and> set i \<subseteq> set i' \<and> set out = (\<lambda>b. (request_packet b, ToServer)) ` (set i' - set i)"
  using assms
proof (induction q i arbitrary: out q' i' rule: request_loop.induct)
  case (1 q i)
  show ?case
  proof (cases "length i < 16")
    case False
    with "1.prems" show ?thesis by (auto simp: request_loop.simps [of q i] INFLIGHT_BLOCK_REQUEST_LIMIT_def)
  next
    case lt: True
    show ?thesis
    proof (cases q)
      case Nil
      with "1.prems" lt show ?thesis by (auto simp: request_loop.simps [of "[]" i] INFLIGHT_BLOCK_REQUEST_LIMIT_def)
    next
      case (Cons b bs)
      obtain out1 where r: "request_loop bs (bt_insert b i) = (out1, q', i')" "out = (request_packet b, ToServer) # out1"
        using "1.prems"(5) lt Cons
        by (auto simp: request_loop.simps [of "b # bs" i] INFLIGHT_BLOCK_REQUEST_LIMIT_def split: prod.splits)
      have b: "b \<notin> set i" "b \<notin> set bs" using "1.prems" Cons by auto
      have "length i < INFLIGHT_BLOCK_REQUEST_LIMIT" using lt by (simp add: INFLIGHT_BLOCK_REQUEST_LIMIT_def)
      from "1.IH" [OF this Cons _ _ _ _ r(1)] "1.prems" b lt Cons
      have IH: "bt_ok q' \<and> bt_ok i' \<and> set q' \<inter> set i' = {} \<and> length i' \<le> 16 \<and> (q' \<noteq> [] \<longrightarrow> length i' = 16) \<and>
        set q' \<union> set i' = set bs \<union> insert b (set i) \<and> insert b (set i) \<subseteq> set i' \<and>
        set out1 = (\<lambda>b. (request_packet b, ToServer)) ` (set i' - insert b (set i))"
        by (auto simp: bt_insert_length)
      then have "set i' - set i = insert b (set i' - insert b (set i))" using b by blast
      with IH r(2) Cons show ?thesis by (simp add: image_insert)
    qed
  qed
qed

lemma request_next_ok:
  assumes "dw_pre auth st" "request_next_blocks st = (out, st')"
  shows "dw_ok auth st' \<and> dw_world_info st' = dw_world_info st \<and> dw_received_blocks st' = dw_received_blocks st \<and>
    set (dw_inflight_block_requests st) \<subseteq> set (dw_inflight_block_requests st') \<and>
    set out = (\<lambda>b. (request_packet b, ToServer)) ` (set (dw_inflight_block_requests st') - set (dw_inflight_block_requests st))"
proof -
  obtain q i where r: "request_loop (dw_block_request_queue st) (dw_inflight_block_requests st) = (out, q, i)"
    and st': "st' = st\<lparr> dw_block_request_queue := q, dw_inflight_block_requests := i \<rparr>"
    using assms(2) by (auto simp: request_next_blocks_def split: prod.splits)
  have "bt_ok q \<and> bt_ok i \<and> set q \<inter> set i = {} \<and> length i \<le> 16 \<and> (q \<noteq> [] \<longrightarrow> length i = 16) \<and>
    set q \<union> set i = set (dw_block_request_queue st) \<union> set (dw_inflight_block_requests st) \<and>
    set (dw_inflight_block_requests st) \<subseteq> set i \<and> set out = (\<lambda>b. (request_packet b, ToServer)) ` (set i - set (dw_inflight_block_requests st))"
    using assms(1) by (intro request_loop_spec [OF _ _ _ _ r]) (auto simp: dw_pre_def)
  with assms(1) show ?thesis
    unfolding dw_ok_def dw_pre_def st' dw_total_def dw_ids_def by (simp add: Un_assoc Un_commute [of "set q"])
qed

lemma take_block_eq:
  "tb_block_id b \<in> set (dw_inflight_block_requests st) \<Longrightarrow> take_block now b st =
    st\<lparr> dw_inflight_block_requests := remove1 (tb_block_id b) (dw_inflight_block_requests st),
        dw_received_blocks := dw_received_blocks st @ [b], dw_last_block_time := now \<rparr>"
  "tb_block_id b \<notin> set (dw_inflight_block_requests st) \<Longrightarrow> tb_block_id b \<in> set (dw_block_request_queue st) \<Longrightarrow> take_block now b st =
    st\<lparr> dw_block_request_queue := remove1 (tb_block_id b) (dw_block_request_queue st),
        dw_received_blocks := dw_received_blocks st @ [b], dw_last_block_time := now \<rparr>"
  "tb_block_id b \<notin> set (dw_inflight_block_requests st) \<Longrightarrow> tb_block_id b \<notin> set (dw_block_request_queue st) \<Longrightarrow> take_block now b st = st"
  by (simp_all add: take_block_def bt_remove_def)

lemma take_block_pre:
  assumes "dw_pre auth st" "auth b"
  shows "dw_pre auth (take_block now b st)"
proof -
  have d: "distinct (dw_inflight_block_requests st)" "distinct (dw_block_request_queue st)"
    using assms(1) by (simp_all add: dw_pre_def bt_ok_def)
  note defs = dw_pre_def dw_ids_def dw_total_def bt_ok_def
  consider (inflight) "tb_block_id b \<in> set (dw_inflight_block_requests st)"
    | (queued) "tb_block_id b \<notin> set (dw_inflight_block_requests st)" "tb_block_id b \<in> set (dw_block_request_queue st)"
    | (neither) "tb_block_id b \<notin> set (dw_inflight_block_requests st)" "tb_block_id b \<notin> set (dw_block_request_queue st)"
    by blast
  then show ?thesis
  proof cases
    case inflight
    with assms d show ?thesis by (auto simp: take_block_eq(1) defs sorted_remove1 length_remove1)
  next
    case queued
    with assms d show ?thesis by (auto simp: take_block_eq(2) defs sorted_remove1)
  next
    case neither
    with assms(1) show ?thesis by (simp add: take_block_eq(3))
  qed
qed

lemma take_block_info [simp]:
  "dw_world_info (take_block now b st) = dw_world_info st" "dw_new_world_info (take_block now b st) = dw_new_world_info st"
  by (auto simp: take_block_def split: prod.split bool.split)

section \<open>The proxy's invariant\<close>

definition filter_ok :: "filtering_packets_state \<Rightarrow> bool" where
  "filter_ok f \<longleftrightarrow> fp_needle f \<noteq> [] \<and> length (fp_replace_with f) = length (fp_needle f)"

definition sp_inv :: "(transfer_block_packet \<Rightarrow> bool) \<Rightarrow> server_proxy_state \<Rightarrow> bool" where
  "sp_inv auth s \<longleftrightarrow>
     (case sp_phase s of
        WaitingForWorld \<Rightarrow> sp_comp_stream s \<and> sp_packet_filter s = None
      | DownloadingWorld st \<Rightarrow> sp_comp_stream s \<and> dw_ok auth st
      | Done \<Rightarrow> True) \<and>
     (case sp_packet_filter s of None \<Rightarrow> True | Some f \<Rightarrow> filter_ok f)"

text \<open>A finished download: all blocks, each once.\<close>

definition dw_done :: "(transfer_block_packet \<Rightarrow> bool) \<Rightarrow> downloading_world_state \<Rightarrow> bool" where
  "dw_done auth st \<longleftrightarrow> dw_pre auth st \<and> set (dw_ids st) = {i. i < dw_total st}"

lemma sp_inv_new: "sp_inv auth sp_new"
  by (simp add: sp_inv_def sp_new_def)

lemma filter_ok_new: "filter_ok \<lparr> fp_needle = wm_encode w, fp_replace_with = wm_encode w', fp_last_replace = now \<rparr>"
proof -
  have "wm_encode w \<noteq> []" by (metis length_wm_encode list.size(3) zero_neq_numeral)
  then show ?thesis by (simp add: filter_ok_def length_wm_encode)
qed

lemma dw_pre_start:
  "dw_pre auth \<lparr> dw_world_info = w, dw_new_world_info = w', dw_world_block_count = block_count (world_size w),
     dw_download_start_time = t, dw_received_blocks = [],
     dw_block_request_queue = map of_nat [0..<unat (block_count (world_size w) + block_count (aux_size w))],
     dw_inflight_block_requests = [], dw_last_block_time = t' \<rparr>"
  using bt_ok_range by (simp add: dw_pre_def dw_ids_def dw_total_def)

lemma retry_requests_ok:
  assumes "dw_ok auth st" "retry_requests now st = (out, st')"
  shows "dw_ok auth st' \<and> dw_world_info st' = dw_world_info st"
proof (cases "now - dw_last_block_time st > 100")
  case True
  obtain out1 st1 where r: "request_next_blocks st = (out1, st1)" by fastforce
  with True assms(2) have "st' = st1\<lparr> dw_last_block_time := now \<rparr>" by (simp add: retry_requests_def)
  moreover have "dw_ok auth st1 \<and> dw_world_info st1 = dw_world_info st"
    using request_next_ok [OF _ r] assms(1) by (auto simp: dw_ok_def)
  ultimately show ?thesis by (simp add: dw_ok_def dw_pre_def dw_ids_def dw_total_def)
next
  case False
  with assms show ?thesis by (simp add: retry_requests_def)
qed

lemma on_block_ok:
  assumes "dw_ok auth st" "sp_inv auth s" "sp_comp_stream s" "auth b"
  shows "\<exists>out spawned s'. on_block now b st s = Inr (out, spawned, s') \<and> sp_inv auth s' \<and>
    (\<forall>d. spawned = Some d \<longrightarrow> dw_done auth d \<and> dw_world_info d = dw_world_info st \<and> sp_phase s' = Done)"
proof -
  let ?st = "take_block now b st"
  have pre: "dw_pre auth ?st" using assms(1,4) by (intro take_block_pre) (simp_all add: dw_ok_def)
  have flt: "case sp_packet_filter s of None \<Rightarrow> True | Some f \<Rightarrow> filter_ok f" using assms(2) by (simp add: sp_inv_def)
  show ?thesis
  proof (cases "dw_block_request_queue ?st = [] \<and> dw_inflight_block_requests ?st = []")
    case True
    with pre have "dw_done auth ?st" by (simp add: dw_done_def dw_pre_def)
    with True assms(3) flt show ?thesis by (simp add: on_block_def sp_finalize_world_def sp_inv_def)
  next
    case False
    obtain out st1 where r: "request_next_blocks ?st = (out, st1)" by fastforce
    from request_next_ok [OF pre r] have "dw_ok auth st1" by simp
    with False assms(3) flt r show ?thesis by (auto simp: on_block_def Let_def sp_inv_def)
  qed
qed

text \<open>The blocks a packet brings.\<close>

definition brings :: "bytes \<Rightarrow> transfer_block_packet \<Rightarrow> bool" where
  "brings p b \<longleftrightarrow> (\<exists>h m. header_decode p = Inr (h, m) \<and> packet_type h = TransferBlock \<and> tb_decode m = Inr b)"

context finder
begin

lemma pass_on_ok:
  assumes "sp_inv auth s"
  shows "\<exists>out s'. pass_on find_iter now p s = Inr (out, s') \<and> sp_inv auth s' \<and> sp_phase s' = sp_phase s \<and>
    (\<exists>p'. out = [(p', ToClient)] \<and> length p' = length p)"
proof (cases "sp_packet_filter s")
  case None
  with assms show ?thesis by (simp add: pass_on_def)
next
  case (Some f)
  then have f: "fp_needle f \<noteq> []" "length (fp_replace_with f) = length (fp_needle f)" using assms by (simp_all add: sp_inv_def filter_ok_def)
  obtain b f' where b: "filter_packet find_iter now p f = Inr (b, f')" "length b = length p"
    "fp_needle f' = fp_needle f" "fp_replace_with f' = fp_replace_with f"
    using filter_packet_total [OF f] by blast
  with Some assms f show ?thesis
    by (auto simp: pass_on_def sp_inv_def filter_ok_def split: server_proxy_phase.splits)
qed

lemma transition_ok:
  assumes "sp_inv auth s" "sp_phase s = WaitingForWorld"
  shows "\<exists>out s' st. transition_to_downloading_world estimate find_iter now p w s = Inr (out, s') \<and> sp_inv auth s' \<and>
    sp_phase s' = DownloadingWorld st \<and> dw_world_info st = w"
proof -
  let ?w = "w\<lparr> world_size := estimate (world_size w) \<rparr>"
  let ?f = "\<lparr> fp_needle = wm_encode w, fp_replace_with = wm_encode ?w, fp_last_replace = now \<rparr>"
  have f: "filter_ok ?f" by (rule filter_ok_new)
  then obtain b f' where b: "filter_packet find_iter now p ?f = Inr (b, f')" "filter_ok f'"
    using filter_packet_total [of ?f now p] unfolding filter_ok_def by metis
  obtain out st where r: "request_next_blocks \<lparr> dw_world_info = w, dw_new_world_info = ?w, dw_world_block_count = block_count (world_size w),
     dw_download_start_time = now, dw_received_blocks = [],
     dw_block_request_queue = map of_nat [0..<unat (block_count (world_size w) + block_count (aux_size w))],
     dw_inflight_block_requests = [], dw_last_block_time = now \<rparr> = (out, st)" by fastforce
  from request_next_ok [OF dw_pre_start r, of auth] have st: "dw_ok auth st" "dw_world_info st = w" by simp_all
  with b r assms show ?thesis
    by (simp add: transition_to_downloading_world_def Let_def sp_inv_def)
qed

lemma downloading_pass_on:
  assumes "sp_inv auth s" "sp_phase s = DownloadingWorld st" "retry_requests now st = (requests, st')"
  shows "\<exists>out s'. and_then (pass_on find_iter now p (s\<lparr> sp_phase := DownloadingWorld st' \<rparr>)) (\<lambda>(out, self).
      Inr (requests @ out, None :: downloading_world_state option, self)) = Inr (out, None, s') \<and> sp_inv auth s'"
proof -
  have "dw_ok auth st'" using retry_requests_ok [OF _ assms(3)] assms(1,2) by (simp add: sp_inv_def)
  with assms(1,2) have "sp_inv auth (s\<lparr> sp_phase := DownloadingWorld st' \<rparr>)" by (simp add: sp_inv_def)
  from pass_on_ok [OF this, of now p] show ?thesis by auto
qed

lemma on_packet_ok:
  assumes inv: "sp_inv auth s" and auth: "\<And>b. brings p b \<Longrightarrow> auth b"
  shows "\<exists>out spawned s'. on_packet_from_server estimate find_iter now p s = Inr (out, spawned, s') \<and> sp_inv auth s' \<and>
    (\<forall>d. spawned = Some d \<longrightarrow> dw_done auth d \<and> sp_phase s' = Done)"
proof (cases "sp_phase s")
  case WaitingForWorld
  show ?thesis
  proof (cases "as_map_ready p")
    case None
    with WaitingForWorld pass_on_ok [OF inv, of now p] show ?thesis by (auto simp: on_packet_from_server_def)
  next
    case (Some w)
    with WaitingForWorld transition_ok [OF inv WaitingForWorld, of estimate now p w] show ?thesis
      by (auto simp: on_packet_from_server_def)
  qed
next
  case (DownloadingWorld st)
  then have st: "dw_ok auth st" "sp_comp_stream s" using inv by (simp_all add: sp_inv_def)
  obtain requests st' where r: "retry_requests now st = (requests, st')" by fastforce
  from downloading_pass_on [OF inv DownloadingWorld r, of p] have pass:
    "\<exists>out s'. and_then (pass_on find_iter now p (s\<lparr> sp_phase := DownloadingWorld st' \<rparr>)) (\<lambda>(out, self).
      Inr (requests @ out, None :: downloading_world_state option, self)) = Inr (out, None, s') \<and> sp_inv auth s'" .
  consider "\<And>b. \<not> brings p b" "\<And>h m. header_decode p = Inr (h, m) \<Longrightarrow> packet_type h \<noteq> TransferBlock"
    | h m e where "header_decode p = Inr (h, m)" "packet_type h = TransferBlock" "tb_decode m = Inl e"
    | h m b where "header_decode p = Inr (h, m)" "packet_type h = TransferBlock" "tb_decode m = Inr b"
    unfolding brings_def by (metis sum.exhaust)
  then show ?thesis
  proof cases
    case 1
    with DownloadingWorld r pass show ?thesis
      by (cases "header_decode p") (auto simp: on_packet_from_server_def)
  next
    case 2
    with DownloadingWorld inv show ?thesis by (simp add: on_packet_from_server_def)
  next
    case (3 h m b)
    then have "auth b" by (intro auth) (auto simp: brings_def)
    from on_block_ok [OF st(1) inv st(2) this, of now] 3 DownloadingWorld show ?thesis
      by (auto simp: on_packet_from_server_def)
  qed
next
  case Done
  with pass_on_ok [OF inv, of now p] show ?thesis by (auto simp: on_packet_from_server_def)
qed

end

section \<open>The downloaded bytes\<close>

definition game_block :: "bytes \<Rightarrow> transfer_block_packet \<Rightarrow> bool" where
  "game_block data b \<longleftrightarrow> tb_data b = take 503 (drop (unat (tb_block_id b) * 503) data)"

lemma concat_blocks: "concat (map (\<lambda>k. take b (drop (k * b) data)) [0..<n]) = take (n * b) data"
  by (induction n) (simp_all add: take_add [symmetric] add.commute)

lemma sorted_blocks:
  assumes "dw_done auth st"
  shows "map tb_block_id (sort_key tb_block_id (dw_received_blocks st)) = map of_nat [0..<unat (dw_total st)]"
proof (rule sorted_distinct_set_unique)
  let ?ys = "sort_key tb_block_id (dw_received_blocks st)"
  show "distinct (map tb_block_id ?ys)" "set (map tb_block_id ?ys) = set (map of_nat [0..<unat (dw_total st)])"
    using assms bt_ok_range(2) [of "dw_total st"] by (simp_all add: dw_done_def dw_pre_def dw_ids_def distinct_map)
  show "sorted (map of_nat [0..<unat (dw_total st)] :: u32 list)" "distinct (map of_nat [0..<unat (dw_total st)] :: u32 list)"
    using bt_ok_range(1) [of "dw_total st"] by (simp_all add: bt_ok_def)
qed simp

lemma received_exact:
  assumes "dw_done (game_block data) st" "length data = unat (dw_total st) * 503"
  shows "received_data st = data"
proof -
  let ?ys = "sort_key tb_block_id (dw_received_blocks st)" and ?n = "unat (dw_total st)"
  have "map tb_data ?ys = map (\<lambda>i. take 503 (drop (unat i * 503) data)) (map tb_block_id ?ys)"
    using assms(1) by (simp add: dw_done_def dw_pre_def list_all_iff game_block_def)
  also have "\<dots> = map (\<lambda>k. take 503 (drop (k * 503) data)) [0..<?n]"
    unfolding sorted_blocks [OF assms(1)] using unsigned_less [of "dw_total st", where 'a = nat]
    by (simp add: unat_of_nat_fits(1))
  finally show ?thesis
    using concat_blocks [of 503 data ?n] assms(2) by (simp add: received_data_def)
qed

text \<open>Every block that came from the game's address is a block of its data.\<close>

definition authentic :: "'a \<Rightarrow> 'a server_event list \<Rightarrow> bytes \<Rightarrow> bool" where
  "authentic addr evs data \<longleftrightarrow> (\<forall>p b. FromSocket addr p \<in> set evs \<longrightarrow> brings p b \<longrightarrow> game_block data b)"

text \<open>The bytes the game serves: the world and the auxiliary data, each filled up to a block.\<close>

definition game_data :: "bytes \<Rightarrow> bytes \<Rightarrow> bytes \<Rightarrow> bool" where
  "game_data world aux data \<longleftrightarrow> (\<exists>pad1 pad2. data = world @ pad1 @ aux @ pad2 \<and>
     length (world @ pad1) = blocks_length (length world) \<and> length (aux @ pad2) = blocks_length (length aux))"

lemma split_world_exact:
  assumes fin: "dw_done (game_block data) st" and data: "game_data world aux data"
    and info: "world_size (dw_world_info st) = of_nat (length world)" "aux_size (dw_world_info st) = of_nat (length aux)"
    and fits: "length world + length aux + 1004 < 2 ^ 32"
  shows "received_data st = data \<and> split_world st = Inr (world, aux)"
proof -
  obtain pad1 pad2 where d: "data = world @ pad1 @ aux @ pad2" "length (world @ pad1) = blocks_length (length world)"
    "length (aux @ pad2) = blocks_length (length aux)" using data by (auto simp: game_data_def)
  have lw: "length world + 502 < 2 ^ 32" "length aux + 502 < 2 ^ 32" using fits by simp_all
  note bw = unat_block_count [OF lw(1)] and ba = unat_block_count [OF lw(2)]
  have "unat (block_count (of_nat (length world))) + unat (block_count (of_nat (length aux))) < 2 ^ 32"
    unfolding bw ba using fits by simp
  then have total: "unat (dw_total st) = (length world + 502) div 503 + (length aux + 502) div 503"
    unfolding dw_total_def info using bw ba by (simp add: unat_add_lem [THEN iffD1])
  have rec: "received_data st = data"
    using d total by (intro received_exact [OF fin]) (simp add: blocks_length_def)
  have wbc: "dw_world_block_count st = block_count (of_nat (length world))"
    using fin info(1) by (simp add: dw_done_def dw_pre_def)
  have off: "unat (dw_world_block_count st * TRANSFER_BLOCK_SIZE) = blocks_length (length world)"
    using aligned_length_exact [OF lw(1)] by (simp add: wbc aligned_length_def)
  have ua: "unat (of_nat (length aux) :: u32) = length aux" "unat (of_nat (length world) :: u32) = length world"
    using fits by (simp_all add: unat_of_nat_fits(1))
  have "blocks_length (length world) + length aux < 2 ^ 32"
    using blocks_length_bounds(2) [of "length world"] fits by simp
  then have endo: "unat (dw_world_block_count st * TRANSFER_BLOCK_SIZE + of_nat (length aux)) = blocks_length (length world) + length aux"
    using off ua(1) by (simp add: unat_add_lem [THEN iffD1])
  have lp: "length pad1 = blocks_length (length world) - length world" "length world \<le> blocks_length (length world)"
    using d(2) by simp_all
  show ?thesis
    unfolding split_world_def Let_def rec info off endo slice_def ua by (simp add: d(1) lp)
qed

section \<open>Runs\<close>

context finder
begin

lemma server_runs_inv:
  assumes "server_runs estimate find_iter addr evs tasks s" "\<And>p b. FromSocket addr p \<in> set evs \<Longrightarrow> brings p b \<Longrightarrow> auth b"
  shows "sp_inv auth s \<and> list_all (dw_done auth) tasks \<and> (tasks \<noteq> [] \<longrightarrow> length tasks = 1 \<and> sp_phase s = Done)"
  using assms
proof (induction rule: server_runs.induct)
  case server_start
  then show ?case by (simp add: sp_inv_new)
next
  case (server_next evs tasks s now ev out spawned s')
  have "auth b" if "FromSocket addr p \<in> set evs" "brings p b" for p b using server_next.prems [of p b] that by simp
  from server_next.IH [OF this] have IH: "sp_inv auth s" "list_all (dw_done auth) tasks"
    "tasks \<noteq> [] \<longrightarrow> length tasks = 1 \<and> sp_phase s = Done" by simp_all
  show ?case
  proof (cases "\<exists>p. ev = FromSocket addr p")
    case False
    with IH server_next.hyps(2) show ?thesis by (cases ev) (auto simp: server_step_def split: if_splits)
  next
    case True
    then obtain p where p: "ev = FromSocket addr p" by blast
    then have o: "on_packet_from_server estimate find_iter now p s = Inr (out, spawned, s')"
      using server_next.hyps(2) by (simp add: server_step_def)
    have "auth b" if "brings p b" for b using server_next.prems [of p b] that p by simp
    from on_packet_ok [OF IH(1), where p = p, OF this, where estimate = estimate and now = now] o have n: "sp_inv auth s'"
      "\<forall>d. spawned = Some d \<longrightarrow> dw_done auth d \<and> sp_phase s' = Done" by auto
    moreover have "spawned = None \<and> sp_phase s' = Done" if "sp_phase s = Done"
      using o that pass_on_ok [OF IH(1), of now p] by (auto simp: on_packet_from_server_def)
    ultimately show ?thesis using IH by (auto split: option.splits)
  qed
qed

end

text \<open>A map announcement, with the place of its metadata.\<close>

lemma as_map_ready_split:
  assumes "as_map_ready p = Some w"
  shows "\<exists>pre post. p = pre @ wm_encode w @ post \<and> (\<forall>w'. as_map_ready (pre @ wm_encode w' @ post) = Some w')"
proof -
  obtain h m where h: "header_decode p = Inr (h, m)" "packet_type h = ServerToClientHeartbeat \<and>
      (case fragmentation h of None \<Rightarrow> True | Some frag \<Rightarrow> fragment_id frag = Some 0)"
    and m: "and_then (hb_decode m) try_decode_map_ready = Inr (Some w)"
    using assms unfolding as_map_ready_def by (auto split: sum.splits prod.splits if_splits option.splits)
  obtain hp where hp: "p = hp @ m" "\<forall>s. header_decode (hp @ s) = Inr (h, s)" using hdr.dec_prefix [OF h(1)] by blast
  obtain pre post where mp: "m = pre @ wm_encode w @ post"
    "\<forall>w'. and_then (hb_decode (pre @ wm_encode w' @ post)) try_decode_map_ready = Inr (Some w')"
    using map_ready_split [OF m] by blast
  have "as_map_ready ((hp @ pre) @ wm_encode w' @ post) = Some w'" for w'
    using hp(2) h(2) mp(2) by (simp add: as_map_ready_def)
  with hp(1) mp(1) show ?thesis by (intro exI [of _ "hp @ pre"] exI [of _ post]) simp
qed

section \<open>A small download\<close>

definition sample_info :: factorio_world_metadata where
  "sample_info = \<lparr> world_size = 3, no_idea1 = 0, aux_size = 1, no_idea2 = 0, world_crc = 7 \<rparr>"

definition sample_announcement :: bytes where
  "sample_announcement = packet_type_into_u8 ServerToClientHeartbeat # put_u8 0x10 @ put_u32_le 1 @ [1, 5] @ wm_encode sample_info"

definition sample_data :: bytes where
  "sample_data = [1, 2, 3] @ replicate 500 0 @ [9] @ replicate 502 0"

definition sample_block :: "u32 \<Rightarrow> transfer_block_packet" where
  "sample_block i = \<lparr> tb_block_id = i, tb_data = take 503 (drop (unat i * 503) sample_data) \<rparr>"

definition sample_events :: "string server_event list" where
  "sample_events = [FromSocket ''game'' sample_announcement, FromSocket ''game'' (block_packet (sample_block 1)),
     FromSocket ''game'' (block_packet (sample_block 0))]"

definition sample_download :: downloading_world_state where
  "sample_download = \<lparr> dw_world_info = sample_info, dw_new_world_info = sample_info\<lparr> world_size := 203 \<rparr>, dw_world_block_count = 1,
     dw_download_start_time = 0, dw_received_blocks = [], dw_block_request_queue = [],
     dw_inflight_block_requests = [0, 1], dw_last_block_time = 0 \<rparr>"

lemma sample_header:
  "header_decode sample_announcement = Inr (header_new_unfragmented ServerToClientHeartbeat, put_u8 0x10 @ put_u32_le 1 @ [1, 5] @ wm_encode sample_info)"
  unfolding sample_announcement_def by (rule header_decode_plain) simp

lemma sample_map_ready: "as_map_ready sample_announcement = Some sample_info"
proof -
  have "and_then (hb_decode (put_u8 0x10 @ put_u32_le 1 @ [1, 5] @ wm_encode sample_info)) try_decode_map_ready = Inr (Some sample_info)"
    using wmc.dec_enc [of sample_info "[]"]
    by (simp add: hb_decode_def try_decode_map_ready_def u8c.dec_enc u32c.dec_enc HasSynchronizerActions_def
        MAP_READY_FOR_DOWNLOAD_ACTION_ID_def try_get_factorio_varint32_def)
  then show ?thesis by (simp add: as_map_ready_def sample_header header_new_unfragmented_def)
qed

lemma sample_unique: "occurs (wm_encode sample_info) sample_announcement i \<Longrightarrow> i = 8"
proof -
  assume o: "occurs (wm_encode sample_info) sample_announcement i"
  have w: "wm_encode sample_info = [3, 0, 0, 0, 0, 0, 0, 0, 1, 0, 0, 0, 0, 0, 0, 0, 7, 0, 0, 0]" by code_simp
  have a: "sample_announcement = [7, 16, 1, 0, 0, 0, 1, 5] @ wm_encode sample_info" by code_simp
  from o have i: "i \<le> 8" and t: "take 20 (drop i sample_announcement) = wm_encode sample_info"
    by (simp_all add: occurs_def) (simp add: a)
  have "length sample_announcement = 28" by (simp add: a)
  with i have "sample_announcement ! i = take 20 (drop i sample_announcement) ! 0" by simp
  also have "\<dots> = wm_encode sample_info ! 0" by (simp only: t)
  also have "\<dots> = 3" by (simp only: w nth_Cons_0)
  finally have "sample_announcement ! i = 3" .
  moreover have "i = 0 \<or> i = 1 \<or> i = 2 \<or> i = 3 \<or> i = 4 \<or> i = 5 \<or> i = 6 \<or> i = 7 \<or> i = 8" using i by linarith
  ultimately show ?thesis by (auto simp: a)
qed

lemma sample_blocks_simps: "block_count (world_size sample_info) = 1" "block_count (aux_size sample_info) = 1"
  by (simp_all add: block_count_def sample_info_def TRANSFER_BLOCK_SIZE_def)

lemma sample_start:
  "\<exists>f. filter_ok f \<and> server_runs (\<lambda>n. n + 200) (naive_find 0) ''game'' [FromSocket ''game'' sample_announcement] []
    \<lparr> sp_phase = DownloadingWorld sample_download, sp_packet_filter = Some f, sp_comp_stream = True \<rparr>"
proof -
  let ?f = "\<lparr> fp_needle = wm_encode sample_info, fp_replace_with = wm_encode (sample_info\<lparr> world_size := 203 \<rparr>), fp_last_replace = 0 \<rparr>"
  have w: "world_size sample_info + 200 = 203" by (simp add: sample_info_def)
  obtain b f where b: "filter_packet (naive_find 0) 0 sample_announcement ?f = Inr (b, f)" "filter_ok f"
    using nf.filter_packet_total [of ?f 0 sample_announcement] filter_ok_new [of sample_info "sample_info\<lparr> world_size := 203 \<rparr>" 0] unfolding filter_ok_def by metis
  have u: "[0..<2] = [0, 1 :: nat]" by (simp add: upt_rec)
  have "request_loop [0, 1] [] = ([(request_packet 0, ToServer), (request_packet 1, ToServer)], [], [0, 1])"
    by (simp add: request_loop.simps INFLIGHT_BLOCK_REQUEST_LIMIT_def bt_insert_def insort_insert_key_def)
  then have "on_packet_from_server (\<lambda>n. n + 200) (naive_find 0) 0 sample_announcement sp_new = Inr ([(b, ToClient),
      (request_packet 0, ToServer), (request_packet 1, ToServer)], None,
      \<lparr> sp_phase = DownloadingWorld sample_download, sp_packet_filter = Some f, sp_comp_stream = True \<rparr>)"
    using b(1) by (simp add: on_packet_from_server_def sp_new_def sample_map_ready transition_to_downloading_world_def Let_def
        sample_blocks_simps request_next_blocks_def sample_download_def u w)
  then have "server_step (\<lambda>n. n + 200) (naive_find 0) ''game'' 0 (FromSocket ''game'' sample_announcement) sp_new = Inr ([(b, ToClient),
      (request_packet 0, ToServer), (request_packet 1, ToServer)], None,
      \<lparr> sp_phase = DownloadingWorld sample_download, sp_packet_filter = Some f, sp_comp_stream = True \<rparr>)"
    by (simp add: server_step_def)
  from server_next [OF server_start this] b(2) show ?thesis by auto
qed

lemma sample_on_block:
  assumes "tb_block_id b \<in> set (dw_inflight_block_requests st)" "dw_block_request_queue st = []"
    "sp_phase s = DownloadingWorld st" "sp_comp_stream s" "bt_ok (dw_inflight_block_requests st)" "length (dw_inflight_block_requests st) \<le> 16"
  shows "on_packet_from_server estimate find_iter now (block_packet b) s =
    (if remove1 (tb_block_id b) (dw_inflight_block_requests st) = []
     then Inr ([], Some (take_block now b st), s\<lparr> sp_phase := Done, sp_comp_stream := False \<rparr>)
     else Inr ([], None, s\<lparr> sp_phase := DownloadingWorld (take_block now b st) \<rparr>))"
  using assms
  by (simp add: on_packet_from_server_def block_packet_simps header_new_unfragmented_def on_block_def take_block_eq(1) Let_def
      sp_finalize_world_def request_next_blocks_def request_loop.simps [of "[]"] length_remove1)

lemma sample_run:
  "\<exists>d s. server_runs (\<lambda>n. n + 200) (naive_find 0) ''game'' sample_events [d] s \<and> dw_world_info d = sample_info \<and> dw_new_world_info d = sample_info\<lparr> world_size := 203 \<rparr>"
proof -
  obtain f where r1: "server_runs (\<lambda>n. n + 200) (naive_find 0) ''game'' [FromSocket ''game'' sample_announcement] []
    \<lparr> sp_phase = DownloadingWorld sample_download, sp_packet_filter = Some f, sp_comp_stream = True \<rparr>"
    using sample_start by blast
  define d1 where "d1 = take_block 1 (sample_block 1) sample_download"
  have d1_simps: "dw_inflight_block_requests d1 = [0]" "dw_block_request_queue d1 = []"
    "dw_world_info d1 = sample_info" "dw_new_world_info d1 = sample_info\<lparr> world_size := 203 \<rparr>"
    by (simp_all add: d1_def take_block_eq(1) sample_download_def sample_block_def)
  have "server_step (\<lambda>n. n + 200) (naive_find 0) ''game'' 1 (FromSocket ''game'' (block_packet (sample_block 1)))
      \<lparr> sp_phase = DownloadingWorld sample_download, sp_packet_filter = Some f, sp_comp_stream = True \<rparr> =
    Inr ([], None, \<lparr> sp_phase = DownloadingWorld d1, sp_packet_filter = Some f, sp_comp_stream = True \<rparr>)"
    by (simp add: server_step_def) (subst sample_on_block [where st = sample_download], simp_all add: d1_def, simp_all add: sample_download_def sample_block_def)
  note r2 = server_next [OF r1 this]
  have "server_step (\<lambda>n. n + 200) (naive_find 0) ''game'' 2 (FromSocket ''game'' (block_packet (sample_block 0)))
      \<lparr> sp_phase = DownloadingWorld d1, sp_packet_filter = Some f, sp_comp_stream = True \<rparr> =
    Inr ([], Some (take_block 2 (sample_block 0) d1), \<lparr> sp_phase = Done, sp_packet_filter = Some f, sp_comp_stream = False \<rparr>)"
    by (simp add: server_step_def) (subst sample_on_block [where st = d1], simp_all add: d1_simps sample_block_def)
  from server_next [OF r2 this] have "\<exists>s. server_runs (\<lambda>n. n + 200) (naive_find 0) ''game'' [FromSocket ''game'' sample_announcement,
      FromSocket ''game'' (block_packet (sample_block 1)), FromSocket ''game'' (block_packet (sample_block 0))] [take_block 2 (sample_block 0) d1] s"
    by auto
  then show ?thesis using d1_simps(3,4) unfolding sample_events_def by auto
qed

lemma sample_authentic: "authentic ''game'' sample_events sample_data"
  by (auto simp: authentic_def sample_events_def brings_def block_packet_simps sample_header game_block_def sample_block_def header_new_unfragmented_def)

lemma sample_game_data: "game_data [1, 2, 3] [9] sample_data"
  unfolding game_data_def
  by (rule exI [of _ "replicate 500 0"], rule exI [of _ "replicate 502 0"]) (simp add: sample_data_def blocks_length_def)

section \<open>Properties\<close>

text \<open>
  C10. The proxy never panics and never loses a block: in every state it can reach, whatever packets arrive and at
  whatever times, the next packet is handled without a panic; and while a world is downloaded every block id is
  received, queued or in flight, exactly one of these, at most sixteen are in flight, and
  exactly sixteen as long as any is queued.
\<close>

theorem server_proxy_safe:
  assumes "finder find_iter" "server_runs estimate find_iter addr evs tasks s"
  shows "(\<forall>now ev. \<exists>r. server_step estimate find_iter addr now ev s = Inr r) \<and>
    (\<forall>st. sp_phase s = DownloadingWorld st \<longrightarrow>
      distinct (dw_ids st @ dw_block_request_queue st @ dw_inflight_block_requests st) \<and>
      set (dw_ids st @ dw_block_request_queue st @ dw_inflight_block_requests st) = {i. i < dw_total st} \<and>
      length (dw_inflight_block_requests st) \<le> 16 \<and>
      (dw_block_request_queue st \<noteq> [] \<longrightarrow> length (dw_inflight_block_requests st) = 16))"
proof -
  have inv: "sp_inv (\<lambda>_. True) s" using finder.server_runs_inv [OF assms, of "\<lambda>_. True"] by simp
  have "\<exists>r. on_packet_from_server estimate find_iter now p s = Inr r" for now p
    using finder.on_packet_ok [OF assms(1) inv, where p = p and estimate = estimate and now = now] by blast
  then have "\<exists>r. server_step estimate find_iter addr now ev s = Inr r" for now ev
    by (cases ev) (auto simp: server_step_def)
  moreover have "dw_ok (\<lambda>_. True) st" if "sp_phase s = DownloadingWorld st" for st using inv that by (simp add: sp_inv_def)
  ultimately show ?thesis by (auto simp: dw_ok_def dw_pre_def bt_ok_def)
qed

theorem server_proxy_safe_witness:
  "\<exists>f. \<forall>now ev. \<exists>r. server_step (\<lambda>n. n + 200) (naive_find 0) ''game'' now ev
    \<lparr> sp_phase = DownloadingWorld sample_download, sp_packet_filter = Some f, sp_comp_stream = True \<rparr> = Inr r"
proof -
  obtain f where "server_runs (\<lambda>n. n + 200) (naive_find 0) ''game'' [FromSocket ''game'' sample_announcement] []
    \<lparr> sp_phase = DownloadingWorld sample_download, sp_packet_filter = Some f, sp_comp_stream = True \<rparr>"
    using sample_start by blast
  from server_proxy_safe [OF nf.finder_axioms this] show ?thesis by blast
qed

text \<open>
  C11. The world handed over is the world of the game: if the blocks the game sent are those of its data, then in every
  run at most one download is handed over, the received blocks sorted by id are exactly that
  data, and the slices taken from it are exactly the world and the auxiliary data, in whatever
  order and however often the blocks arrived.
\<close>

theorem downloaded_world_exact:
  assumes "finder find_iter" "server_runs estimate find_iter addr evs tasks s" "d \<in> set tasks"
    "authentic addr evs data" "game_data world aux data"
    "world_size (dw_world_info d) = of_nat (length world)" "aux_size (dw_world_info d) = of_nat (length aux)"
    "length world + length aux + 1004 < 2 ^ 32"
  shows "tasks = [d] \<and> received_data d = data \<and> split_world d = Inr (world, aux)"
proof -
  have inv: "list_all (dw_done (game_block data)) tasks" "tasks \<noteq> [] \<longrightarrow> length tasks = 1"
    using finder.server_runs_inv [OF assms(1,2), of "game_block data"] assms(4) by (auto simp: authentic_def)
  then have "tasks = [d]" using assms(3) by (cases tasks) auto
  moreover from this inv(1) have "dw_done (game_block data) d" by simp
  ultimately show ?thesis using split_world_exact [OF _ assms(5-8)] by simp
qed

theorem downloaded_world_exact_witness:
  "\<exists>evs d s. server_runs (\<lambda>n. n + 200) (naive_find 0) ''game'' evs [d] s \<and> split_world d = Inr ([1, 2, 3], [9])"
proof -
  obtain d s where r: "server_runs (\<lambda>n. n + 200) (naive_find 0) ''game'' sample_events [d] s" "dw_world_info d = sample_info"
    using sample_run by blast
  have "[d] = [d] \<and> received_data d = sample_data \<and> split_world d = Inr ([1, 2, 3], [9])"
    by (rule downloaded_world_exact [OF nf.finder_axioms r(1) _ sample_authentic sample_game_data]) (simp_all add: r(2) sample_info_def)
  with r(1) show ?thesis by blast
qed

text \<open>
  C25. The player is told the new size: the first announcement of a map is forwarded with the same length, and it
  decodes to the same metadata with the estimated size in place of the real one, provided
  the metadata occurs only once in the packet; and the download starts.
\<close>

theorem announcement_rewritten:
  assumes "finder find_iter" "sp_inv auth s" "sp_phase s = WaitingForWorld" "as_map_ready p = Some w"
    "\<And>i j. occurs (wm_encode w) p i \<Longrightarrow> occurs (wm_encode w) p j \<Longrightarrow> i = j"
  shows "\<exists>p' requests st s'. on_packet_from_server estimate find_iter now p s = Inr ((p', ToClient) # requests, None, s') \<and>
    length p' = length p \<and> as_map_ready p' = Some (w\<lparr> world_size := estimate (world_size w) \<rparr>) \<and>
    sp_phase s' = DownloadingWorld st \<and> dw_world_info st = w"
proof -
  let ?w = "w\<lparr> world_size := estimate (world_size w) \<rparr>"
  let ?f = "\<lparr> fp_needle = wm_encode w, fp_replace_with = wm_encode ?w, fp_last_replace = now \<rparr>"
  obtain pre post where p: "p = pre @ wm_encode w @ post" "\<forall>w'. as_map_ready (pre @ wm_encode w' @ post) = Some w'"
    using as_map_ready_split [OF assms(4)] by blast
  have "occurs (wm_encode w) p (length pre)" by (simp add: occurs_def p(1) del: length_wm_encode)
  then have "i = length pre" if "occurs (wm_encode w) p i" for i using assms(5) that by blast
  then have f: "filter_packet find_iter now p ?f = Inr (pre @ wm_encode ?w @ post, ?f)"
    using finder.filter_packet_unique [OF assms(1), of ?f pre post now] filter_ok_new [of w ?w now] by (simp add: p(1) filter_ok_def)
  obtain out s' st where t: "transition_to_downloading_world estimate find_iter now p w s = Inr (out, s')"
    "sp_phase s' = DownloadingWorld st" "dw_world_info st = w"
    using finder.transition_ok [OF assms(1-3), of estimate now p w] by blast
  moreover from t(1) f obtain requests where "out = (pre @ wm_encode ?w @ post, ToClient) # requests"
    by (auto simp: transition_to_downloading_world_def Let_def split: prod.splits)
  ultimately show ?thesis using assms(3,4) p by (auto simp: on_packet_from_server_def)
qed

theorem announcement_rewritten_witness:
  "\<exists>p' requests s'. on_packet_from_server (\<lambda>n. n + 5) (naive_find 0) 0 sample_announcement sp_new =
      Inr ((p', ToClient) # requests, None, s') \<and> as_map_ready p' = Some (sample_info\<lparr> world_size := 8 \<rparr>)"
proof -
  have "\<exists>p' requests st s'. on_packet_from_server (\<lambda>n. n + 5) (naive_find 0) 0 sample_announcement sp_new =
      Inr ((p', ToClient) # requests, None, s') \<and> length p' = length sample_announcement \<and>
      as_map_ready p' = Some (sample_info\<lparr> world_size := world_size sample_info + 5 \<rparr>) \<and>
      sp_phase s' = DownloadingWorld st \<and> dw_world_info st = sample_info"
    by (rule announcement_rewritten [OF nf.finder_axioms sp_inv_new _ sample_map_ready])
      (simp add: sp_new_def, blast dest: sample_unique)
  then show ?thesis by (auto simp: sample_info_def)
qed

definition missing :: "downloading_world_state \<Rightarrow> u32 set" where
  "missing st = set (dw_block_request_queue st) \<union> set (dw_inflight_block_requests st)"

lemma take_block_missing: "dw_pre auth st \<Longrightarrow> missing (take_block now b st) = missing st - {tb_block_id b}"
proof -
  assume "dw_pre auth st"
  then have "distinct (dw_inflight_block_requests st)" "distinct (dw_block_request_queue st)"
    "set (dw_block_request_queue st) \<inter> set (dw_inflight_block_requests st) = {}" by (simp_all add: dw_pre_def bt_ok_def)
  then show ?thesis
    by (cases "tb_block_id b \<in> set (dw_inflight_block_requests st)"; cases "tb_block_id b \<in> set (dw_block_request_queue st)")
      (auto simp: missing_def take_block_eq)
qed

lemma missing_eq: "dw_pre auth st \<Longrightarrow> missing st = {i. i < dw_total st} - set (dw_ids st)"
proof -
  assume "dw_pre auth st"
  then have "set (dw_ids st) \<inter> missing st = {}" "set (dw_ids st) \<union> missing st = {i. i < dw_total st}"
    by (simp_all add: dw_pre_def missing_def Un_assoc)
  then show ?thesis by blast
qed

lemma request_next_missing:
  assumes "dw_pre auth st" "request_next_blocks st = (out, st')"
  shows "missing st' = missing st"
proof -
  have "set (dw_ids st') = set (dw_ids st)" "dw_total st' = dw_total st" "dw_pre auth st'"
    using request_next_ok [OF assms] by (simp_all add: dw_ids_def dw_total_def dw_ok_def)
  with missing_eq [OF assms(1)] missing_eq [of auth st'] show ?thesis by simp
qed

lemma on_block_progress:
  assumes "dw_ok auth st" "sp_comp_stream s" "auth b" "on_block now b st s = Inr (out, spawned, s')" "tb_block_id b \<in> missing st"
  shows "case spawned of
      Some d \<Rightarrow> missing st = {tb_block_id b} \<and> sp_phase s' = Done
    | None \<Rightarrow> \<exists>st'. sp_phase s' = DownloadingWorld st' \<and> missing st' = missing st - {tb_block_id b} \<and>
        (\<forall>i \<in> set (dw_inflight_block_requests st') - set (dw_inflight_block_requests st). (request_packet i, ToServer) \<in> set out)"
proof -
  let ?st = "take_block now b st"
  have pre: "dw_pre auth ?st" using assms(1,3) by (intro take_block_pre) (simp_all add: dw_ok_def)
  have m: "missing ?st = missing st - {tb_block_id b}" using assms(1) by (intro take_block_missing [of auth]) (simp add: dw_ok_def)
  have sub: "set (dw_inflight_block_requests ?st) \<subseteq> set (dw_inflight_block_requests st)"
    by (auto simp: take_block_def bt_remove_def split: bool.split intro: set_remove1_subset [THEN subsetD])
  show ?thesis
  proof (cases "dw_block_request_queue ?st = [] \<and> dw_inflight_block_requests ?st = []")
    case True
    then have "missing ?st = {}" by (simp add: missing_def)
    with True m assms(2,4,5) show ?thesis by (auto simp: on_block_def sp_finalize_world_def)
  next
    case False
    obtain out1 st1 where r: "request_next_blocks ?st = (out1, st1)" by fastforce
    with False assms(4) have "out = out1" "spawned = None" "s' = s\<lparr> sp_phase := DownloadingWorld st1 \<rparr>"
      by (auto simp: on_block_def Let_def)
    moreover have "missing st1 = missing st - {tb_block_id b}" using request_next_missing [OF pre r] m by simp
    moreover have "(request_packet i, ToServer) \<in> set out1" if "i \<in> set (dw_inflight_block_requests st1) - set (dw_inflight_block_requests st)" for i
      using request_next_ok [OF pre r] sub that by blast
    ultimately show ?thesis by simp
  qed
qed

text \<open>
  C19. The download makes progress: as long as a block is missing, requests are in flight. A block that is missing and
  arrives is no longer missing, the blocks newly in flight have been requested, and when it was the last one the
  download is handed over. When a hundred milliseconds have passed since the last block, the next packet of any
  other kind makes the proxy request every block in flight again.
\<close>

theorem download_progress:
  assumes "finder find_iter" "server_runs estimate find_iter addr evs tasks s" "sp_phase s = DownloadingWorld st" "missing st \<noteq> {}"
  shows "dw_inflight_block_requests st \<noteq> [] \<and>
    (\<forall>b now. tb_block_id b \<in> missing st \<longrightarrow>
      (\<exists>out spawned s'. on_packet_from_server estimate find_iter now (block_packet b) s = Inr (out, spawned, s') \<and>
        (case spawned of
           Some d \<Rightarrow> missing st = {tb_block_id b} \<and> sp_phase s' = Done
         | None \<Rightarrow> \<exists>st'. sp_phase s' = DownloadingWorld st' \<and> missing st' = missing st - {tb_block_id b} \<and>
             (\<forall>i \<in> set (dw_inflight_block_requests st') - set (dw_inflight_block_requests st).
                (request_packet i, ToServer) \<in> set out)))) \<and>
    (\<forall>p now. (\<forall>h m. header_decode p = Inr (h, m) \<longrightarrow> packet_type h \<noteq> TransferBlock) \<and> dw_last_block_time st + 100 < now \<longrightarrow>
      (\<exists>out s'. on_packet_from_server estimate find_iter now p s = Inr (out, None, s') \<and>
        (\<forall>i \<in> set (dw_inflight_block_requests st). (request_packet i, ToServer) \<in> set out)))"
proof (intro conjI allI impI)
  have inv: "sp_inv (\<lambda>_. True) s" using finder.server_runs_inv [OF assms(1,2), of "\<lambda>_. True"] by simp
  then have st: "dw_ok (\<lambda>_. True) st" "sp_comp_stream s" using assms(3) by (simp_all add: sp_inv_def)
  show "dw_inflight_block_requests st \<noteq> []" using st(1) assms(4) by (auto simp: dw_ok_def missing_def)
  fix b :: transfer_block_packet and now assume b: "tb_block_id b \<in> missing st"
  have "on_packet_from_server estimate find_iter now (block_packet b) s = on_block now b st s"
    using assms(3) by (simp add: on_packet_from_server_def block_packet_simps header_new_unfragmented_def)
  moreover obtain out spawned s' where "on_block now b st s = Inr (out, spawned, s')"
    using on_block_ok [OF st(1) inv st(2), where b = b and now = now] by auto
  ultimately show "\<exists>out spawned s'. on_packet_from_server estimate find_iter now (block_packet b) s = Inr (out, spawned, s') \<and>
        (case spawned of
           Some d \<Rightarrow> missing st = {tb_block_id b} \<and> sp_phase s' = Done
         | None \<Rightarrow> \<exists>st'. sp_phase s' = DownloadingWorld st' \<and> missing st' = missing st - {tb_block_id b} \<and>
             (\<forall>i \<in> set (dw_inflight_block_requests st') - set (dw_inflight_block_requests st). (request_packet i, ToServer) \<in> set out))"
    using on_block_progress [OF st _ _ b] by simp
next
  have inv: "sp_inv (\<lambda>_. True) s" using finder.server_runs_inv [OF assms(1,2), of "\<lambda>_. True"] by simp
  fix p now assume p: "(\<forall>h m. header_decode p = Inr (h, m) \<longrightarrow> packet_type h \<noteq> TransferBlock) \<and> dw_last_block_time st + 100 < now"
  obtain requests st' where r: "retry_requests now st = (requests, st')" by fastforce
  have "\<forall>i \<in> set (dw_inflight_block_requests st). (request_packet i, ToServer) \<in> set requests"
    using r p by (auto simp: retry_requests_def less_diff_conv add.commute split: prod.splits)
  moreover obtain out s' where "and_then (pass_on find_iter now p (s\<lparr> sp_phase := DownloadingWorld st' \<rparr>)) (\<lambda>(out, self).
      Inr (requests @ out, None :: downloading_world_state option, self)) = Inr (out, None, s')"
    using finder.downloading_pass_on [OF assms(1) inv assms(3) r, of p] by blast
  ultimately show "\<exists>out s'. on_packet_from_server estimate find_iter now p s = Inr (out, None, s') \<and>
        (\<forall>i \<in> set (dw_inflight_block_requests st). (request_packet i, ToServer) \<in> set out)"
    using p assms(3) r by (cases "header_decode p") (auto simp: on_packet_from_server_def and_then_Inr_iff)
qed

theorem download_progress_witness:
  "\<exists>f out s'. on_packet_from_server (\<lambda>n. n + 200) (naive_find 0) 200 sample_announcement
      \<lparr> sp_phase = DownloadingWorld sample_download, sp_packet_filter = Some f, sp_comp_stream = True \<rparr> = Inr (out, None, s') \<and>
    (request_packet 0, ToServer) \<in> set out"
proof -
  obtain f where r: "server_runs (\<lambda>n. n + 200) (naive_find 0) ''game'' [FromSocket ''game'' sample_announcement] []
    \<lparr> sp_phase = DownloadingWorld sample_download, sp_packet_filter = Some f, sp_comp_stream = True \<rparr>"
    using sample_start by blast
  have h: "(\<forall>h m. header_decode sample_announcement = Inr (h, m) \<longrightarrow> packet_type h \<noteq> TransferBlock) \<and> dw_last_block_time sample_download + 100 < 200"
    by (simp add: sample_header header_new_unfragmented_def sample_download_def)
  have m: "missing sample_download \<noteq> {}" and i: "0 \<in> set (dw_inflight_block_requests sample_download)"
    by (simp_all add: missing_def sample_download_def)
  show ?thesis
    using download_progress [OF nf.finder_axioms r _ m, THEN conjunct2, THEN conjunct2, THEN spec, THEN spec, THEN mp, OF _ h] i by auto
qed

end
