(* ===== verification/World_Transfer.thy ===== *)
theory World_Transfer
  imports Client_Proxy Server_Proxy
begin

text \<open>
  The two ends of a transfer together: what the task of the server's proxy writes, and what the task of the player's proxy,
  connected to it, rebuilds.
\<close>

section \<open>The server's stream\<close>



section \<open>The player's end\<close>



section \<open>Properties\<close>






end
