(* ===== verification/Channels.thy ===== *)
theory Channels
  imports Factorio_Proxy "HOL-Library.Sublist"
begin

text \<open>
  The bounded queues between the tasks of a proxy (\<^verbatim>\<open>tokio::sync::mpsc\<close>), through which the routing loop hands packets to the task
  of a peer. The operations the code calls are a parameter \<open>ch\<close>, a record of functions; the locale \<open>mpsc\<close> states their documentation on the
  sequence of buffered packets, and \<open>list_channel\<close> implements it.

  The lemmas say what a queue does to a stream of packets: what is taken out, followed by what is still buffered, is a
  subsequence of what was offered.
\<close>

section \<open>Definitions\<close>

record 'q channel =
  ch_new :: "nat \<Rightarrow> 'q"
  ch_try_send :: "bytes \<Rightarrow> 'q \<Rightarrow> bool \<times> 'q"
  ch_recv :: "'q \<Rightarrow> (bytes \<times> 'q) option"
  ch_capacity :: "'q \<Rightarrow> nat"
  ch_buffer :: "'q \<Rightarrow> bytes list"

definition list_channel :: "(nat \<times> bytes list) channel" where
  "list_channel = \<lparr>
     ch_new = (\<lambda>n. (n, [])),
     ch_try_send = (\<lambda>d (n, ds). if length ds < n then (True, (n, ds @ [d])) else (False, (n, ds))),
     ch_recv = (\<lambda>(n, ds). case ds of [] \<Rightarrow> None | d # ds \<Rightarrow> Some (d, (n, ds))),
     ch_capacity = fst,
     ch_buffer = snd \<rparr>"

text \<open>A packet that does not fit, or whose receiver is gone, is lost: the code ignores the result of \<^verbatim>\<open>try_send\<close>.\<close>

definition offer :: "'q channel \<Rightarrow> bool \<Rightarrow> bytes \<Rightarrow> 'q \<Rightarrow> 'q" where
  "offer ch receiving data q = (if receiving then snd (ch_try_send ch data q) else q)"

text \<open>The content of a datagram for a peer id.\<close>

definition packet_for :: "(bytes \<Rightarrow> (nat \<times> bytes) res) \<Rightarrow> nat \<Rightarrow> bytes \<Rightarrow> bytes list" where
  "packet_for dec i p = (case dg_decode dec p of Inr d \<Rightarrow> if dg_peer_id d = i then [dg_data d] else [] | Inl _ \<Rightarrow> [])"

section \<open>The contract\<close>

locale mpsc =
  fixes ch :: "'q channel"
  assumes new: "ch_buffer ch (ch_new ch n) = []" "ch_capacity ch (ch_new ch n) = n"
    and try_send: "ch_try_send ch d q = (ok, q') \<Longrightarrow> ok = (length (ch_buffer ch q) < ch_capacity ch q) \<and>
      ch_buffer ch q' = ch_buffer ch q @ (if ok then [d] else []) \<and> ch_capacity ch q' = ch_capacity ch q"
    and recv: "(case ch_recv ch q of
        None \<Rightarrow> ch_buffer ch q = []
      | Some (d, q') \<Rightarrow> ch_buffer ch q = d # ch_buffer ch q' \<and> ch_capacity ch q' = ch_capacity ch q)"
begin

definition q_ok :: "nat \<Rightarrow> 'q \<Rightarrow> bool" where
  "q_ok n q \<longleftrightarrow> ch_capacity ch q = n \<and> length (ch_buffer ch q) \<le> n"

lemma q_ok_new: "q_ok n (ch_new ch n)"
  by (simp add: q_ok_def new)

lemma q_ok_offer: "q_ok n q \<Longrightarrow> q_ok n (offer ch b d q)"
  using try_send [of d q "fst (ch_try_send ch d q)" "snd (ch_try_send ch d q)"] by (auto simp: q_ok_def offer_def)

lemma recv_Some: "ch_recv ch q = Some (d, q') \<Longrightarrow> ch_buffer ch q = d # ch_buffer ch q'"
  using recv [of q] by simp

lemma q_ok_recv: "ch_recv ch q = Some (d, q') \<Longrightarrow> q_ok n q \<Longrightarrow> q_ok n q'"
  using recv [of q] by (simp add: q_ok_def)

text \<open>The order of the packets: \<open>ds\<close> are the packets offered so far, \<open>taken\<close> those received.\<close>

lemma offer_subseq:
  assumes "subseq (taken @ ch_buffer ch q) ds"
  shows "subseq (taken @ ch_buffer ch (offer ch b d q)) (ds @ [d])"
proof -
  have "\<exists>ys. ch_buffer ch (offer ch b d q) = ch_buffer ch q @ ys \<and> subseq ys [d]"
    using try_send [of d q "fst (ch_try_send ch d q)" "snd (ch_try_send ch d q)"] by (auto simp: offer_def)
  then obtain ys where "ch_buffer ch (offer ch b d q) = ch_buffer ch q @ ys" "subseq ys [d]" by blast
  with list_emb_append_mono [OF assms] show ?thesis by simp
qed

lemma recv_subseq:
  "subseq (taken @ ch_buffer ch q) ds \<Longrightarrow> ch_recv ch q = Some (d, q') \<Longrightarrow> subseq ((taken @ [d]) @ ch_buffer ch q') ds"
  by (simp add: recv_Some)

lemma taken_subseq: "subseq (taken @ ch_buffer ch q) ds \<Longrightarrow> subseq taken ds"
  by (metis prefixI prefix_imp_subseq subseq_order.trans)

end

interpretation lc: mpsc list_channel
  by unfold_locales (auto simp: list_channel_def split: if_splits list.splits prod.splits)

end
