(* ===== verification/Client_Peers.thy ===== *)
theory Client_Peers
  imports Client_Proxy Channels
begin

text \<open>
  The whole proxy next to the player (\<^verbatim>\<open>run_client_proxy\<close> and \<^verbatim>\<open>proxy_client\<close> of \<^verbatim>\<open>factorio-cacher/src/proxy/client_proxy.rs\<close>): the routing loop, the
  tasks it has spawned with their queues, and every interleaving of them as a step function on events.

  \<^item> An event of the loop is what \<^verbatim>\<open>select!\<close> returned; an event of a task is the opening of its stream, one iteration of its loop, or the
    reason for its end. An iteration names how many of its sends succeed before one fails; a failing send ends the task.
  \<^item> The world data of a task comes from the task that transfers the world (\<open>client_transfer_world_data\<close>).
  \<^item> An error of the loop ends it and drops the senders of all queues; a task ends when it finds a queue empty then.

  The properties: the queues and the tables stay well formed, and every task runs, whatever the others do, as if it were alone, on a
  subsequence of the packets of its own address and its own peer id.
\<close>

section \<open>Definitions\<close>

record ('a, 'q) peer_task =
  pt_id :: nat
  pt_addr :: 'a
  pt_client_queue :: 'q
  pt_server_queue :: 'q
  pt_state :: "(client_proxy_state \<times> bool) option"
  pt_since :: nat
  pt_running :: bool
  pt_stream :: bytes
  pt_sent :: "sent_packet list"

definition peer_new :: "'q channel \<Rightarrow> nat \<times> 'a \<Rightarrow> ('a, 'q) peer_task" where
  "peer_new ch x = \<lparr> pt_id = fst x, pt_addr = snd x, pt_client_queue = ch_new ch UDP_QUEUE_SIZE,
     pt_server_queue = ch_new ch UDP_QUEUE_SIZE, pt_state = None, pt_since = 0, pt_running = True, pt_stream = [], pt_sent = [] \<rparr>"

datatype peer_action =
    PeerOpens nat "unit res"
  | PeerTakes nat nat
  | PeerRelays nat nat
  | PeerWorld nat "bytes option" nat
  | PeerIdle nat
  | PeerClosed

text \<open>One iteration of the loop of \<^verbatim>\<open>proxy_client\<close> on an event, of whose packets \<open>sends\<close> can be sent.\<close>

definition peer_handle ::
  "(nat \<Rightarrow> bytes) \<Rightarrow> nat \<Rightarrow> client_event \<Rightarrow> nat \<Rightarrow> ('a, 'q) peer_task \<Rightarrow> ('a, 'q) peer_task option" where
  "peer_handle enc now ev sends t =
     (case pt_state t of
        None \<Rightarrow> None
      | Some st \<Rightarrow>
          (case client_step now ev st of
             None \<Rightarrow> None
           | Some (out, st') \<Rightarrow>
               (let ps = client_emit enc (pt_id t) out
                in Some (t\<lparr> pt_state := Some st', pt_since := now, pt_sent := pt_sent t @ take sends ps,
                     pt_running := (length ps \<le> sends) \<rparr>))))"

definition peer_step ::
  "'q channel \<Rightarrow> (nat \<Rightarrow> bytes) \<Rightarrow> bool \<Rightarrow> peer_action \<Rightarrow> ('a, 'q) peer_task \<Rightarrow> ('a, 'q) peer_task option" where
  "peer_step ch enc senders_dropped act t =
     (if \<not> pt_running t then None
      else case act of
        PeerOpens now opened \<Rightarrow>
          (if pt_state t \<noteq> None then None
           else case opened of
             Inl _ \<Rightarrow> Some (t\<lparr> pt_running := False \<rparr>)
           | Inr _ \<Rightarrow> Some (t\<lparr> pt_stream := announce_peer (pt_id t), pt_state := Some (cp_new now, False), pt_since := now \<rparr>))
      | PeerTakes now sends \<Rightarrow>
          (case ch_recv ch (pt_client_queue t) of
             None \<Rightarrow> None
           | Some (packet_data, q) \<Rightarrow> peer_handle enc now (FromClient packet_data) sends (t\<lparr> pt_client_queue := q \<rparr>))
      | PeerRelays now sends \<Rightarrow>
          (case ch_recv ch (pt_server_queue t) of
             None \<Rightarrow> None
           | Some (packet_data, q) \<Rightarrow> peer_handle enc now (FromServer packet_data) sends (t\<lparr> pt_server_queue := q \<rparr>))
      | PeerWorld now result sends \<Rightarrow> peer_handle enc now (WorldData result) sends t
      | PeerIdle now \<Rightarrow>
          (if pt_state t \<noteq> None \<and> UDP_PEER_IDLE_TIMEOUT \<le> now - pt_since t then Some (t\<lparr> pt_running := False \<rparr>) else None)
      | PeerClosed \<Rightarrow>
          (if pt_state t \<noteq> None \<and> senders_dropped \<and>
              (ch_recv ch (pt_client_queue t) = None \<or> ch_recv ch (pt_server_queue t) = None)
           then Some (t\<lparr> pt_running := False \<rparr>) else None))"

record ('a, 'q) client_sys =
  cs_router :: "'a client_router"
  cs_tasks :: "('a, 'q) peer_task list"
  cs_result :: "unit res option"

definition cs_new :: "('a, 'q) client_sys" where
  "cs_new = \<lparr> cs_router = cr_new, cs_tasks = [], cs_result = None \<rparr>"

datatype 'a peers_event =
    SocketPacket 'a bytes
  | SocketFailed error
  | ConnDatagram bytes
  | ConnFailed error
  | OfPeer nat peer_action

definition deliver_to :: "'q channel \<Rightarrow> delivery \<Rightarrow> ('a, 'q) peer_task list \<Rightarrow> ('a, 'q) peer_task list" where
  "deliver_to ch dv ts =
     (case dv of
        ClientPacket q data \<Rightarrow> ts[q := (ts ! q)\<lparr> pt_client_queue := offer ch (pt_running (ts ! q)) data (pt_client_queue (ts ! q)) \<rparr>]
      | ServerPacket q data \<Rightarrow> ts[q := (ts ! q)\<lparr> pt_server_queue := offer ch (pt_running (ts ! q)) data (pt_server_queue (ts ! q)) \<rparr>])"

text \<open>A step of the proxy; \<open>None\<close> when the event cannot happen.\<close>

definition cs_step ::
  "'q channel \<Rightarrow> (nat \<Rightarrow> bytes) \<Rightarrow> (bytes \<Rightarrow> (nat \<times> bytes) res) \<Rightarrow> 'a peers_event \<Rightarrow> ('a, 'q) client_sys \<Rightarrow> ('a, 'q) client_sys option" where
  "cs_step ch enc dec ev s =
     (case ev of
        OfPeer q act \<Rightarrow>
          (if q < length (cs_tasks s)
           then (case peer_step ch enc (cs_result s \<noteq> None) act (cs_tasks s ! q) of
                   None \<Rightarrow> None
                 | Some t \<Rightarrow> Some (s\<lparr> cs_tasks := (cs_tasks s)[q := t] \<rparr>))
           else None)
      | _ \<Rightarrow>
          (if cs_result s \<noteq> None then None
           else case ev of
             SocketPacket peer_addr data \<Rightarrow>
               (case route_from_socket (\<lambda>q. \<not> pt_running (cs_tasks s ! q)) peer_addr data (cs_router s) of
                  Inl e \<Rightarrow> Some (s\<lparr> cs_result := Some (Inl e) \<rparr>)
                | Inr (dv, r) \<Rightarrow>
                    (let ts = cs_tasks s @ map (peer_new ch) (drop (length (cs_tasks s)) (cr_spawned r))
                     in Some (s\<lparr> cs_router := r, cs_tasks := deliver_to ch dv ts \<rparr>)))
           | ConnDatagram packet \<Rightarrow>
               (case route_from_connection dec packet (cs_router s) of
                  Inl e \<Rightarrow> Some (s\<lparr> cs_result := Some (Inl e) \<rparr>)
                | Inr None \<Rightarrow> Some s
                | Inr (Some dv) \<Rightarrow> Some (s\<lparr> cs_tasks := deliver_to ch dv (cs_tasks s) \<rparr>))
           | SocketFailed e \<Rightarrow> Some (s\<lparr> cs_result := Some (Inl e) \<rparr>)
           | ConnFailed e \<Rightarrow> Some (s\<lparr> cs_result := Some (Inl e) \<rparr>)
           | OfPeer _ _ \<Rightarrow> None))"

inductive client_sys_runs ::
  "'q channel \<Rightarrow> (nat \<Rightarrow> bytes) \<Rightarrow> (bytes \<Rightarrow> (nat \<times> bytes) res) \<Rightarrow> 'a peers_event list \<Rightarrow> ('a, 'q) client_sys \<Rightarrow> bool"
  for ch enc dec where
  sys_start: "client_sys_runs ch enc dec [] cs_new"
| sys_next: "client_sys_runs ch enc dec evs s \<Longrightarrow> cs_step ch enc dec ev s = Some s' \<Longrightarrow> client_sys_runs ch enc dec (evs @ [ev]) s'"

section \<open>What a task is given\<close>

text \<open>The packets from an address, the datagrams of a peer id, and the packets among the events of a task.\<close>

definition from_addr :: "'a \<Rightarrow> 'a peers_event list \<Rightarrow> bytes list" where
  "from_addr a evs = concat (map (\<lambda>ev. case ev of SocketPacket a' d \<Rightarrow> if a' = a then [d] else [] | _ \<Rightarrow> []) evs)"

definition of_id :: "(bytes \<Rightarrow> (nat \<times> bytes) res) \<Rightarrow> nat \<Rightarrow> 'a peers_event list \<Rightarrow> bytes list" where
  "of_id dec i evs = concat (map (\<lambda>ev. case ev of
     ConnDatagram p \<Rightarrow> packet_for dec i p | _ \<Rightarrow> []) evs)"

definition client_packets :: "client_event list \<Rightarrow> bytes list" where
  "client_packets evs = concat (map (\<lambda>ev. case ev of FromClient p \<Rightarrow> [p] | _ \<Rightarrow> []) evs)"

definition server_packets :: "client_event list \<Rightarrow> bytes list" where
  "server_packets evs = concat (map (\<lambda>ev. case ev of FromServer p \<Rightarrow> [p] | _ \<Rightarrow> []) evs)"

lemma packets_simps [simp]:
  "client_packets [] = []" "server_packets [] = []" "from_addr a [] = []" "of_id dec i [] = []"
  "client_packets (evs @ [FromClient p]) = client_packets evs @ [p]" "client_packets (evs @ [FromServer p]) = client_packets evs"
  "client_packets (evs @ [WorldData w]) = client_packets evs" "server_packets (evs @ [WorldData w]) = server_packets evs"
  "server_packets (evs @ [FromClient p]) = server_packets evs" "server_packets (evs @ [FromServer p]) = server_packets evs @ [p]"
  "from_addr a (sevs @ [SocketPacket a p]) = from_addr a sevs @ [p]"
  "dg_decode dec p = Inr d \<Longrightarrow> dg_peer_id d = i \<Longrightarrow> of_id dec i (sevs @ [ConnDatagram p]) = of_id dec i sevs @ [dg_data d]"
  by (simp_all add: client_packets_def server_packets_def from_addr_def of_id_def packet_for_def)

lemma packets_grow: "subseq xs (from_addr a evs) \<Longrightarrow> subseq xs (from_addr a (evs @ [ev]))"
  "subseq ys (of_id dec i evs) \<Longrightarrow> subseq ys (of_id dec i (evs @ [ev]))"
  by (simp_all add: from_addr_def of_id_def subseq_rev_drop_many)

text \<open>The events a task has handled and the packets it produced, from its state.\<close>

definition peer_history :: "(client_proxy_state \<times> bool) option \<Rightarrow> client_event list \<Rightarrow> packets \<Rightarrow> bool" where
  "peer_history st cevs outs = (case st of None \<Rightarrow> cevs = [] \<and> outs = [] | Some st \<Rightarrow> client_runs cevs outs st)"

lemma peer_history_simps [simp]:
  "peer_history None cevs outs \<longleftrightarrow> cevs = [] \<and> outs = []" "peer_history (Some st) cevs outs \<longleftrightarrow> client_runs cevs outs st"
  by (simp_all add: peer_history_def)

lemma client_emit_append: "client_emit enc i (out1 @ out2) = client_emit enc i out1 @ client_emit enc i out2"
  by (simp add: client_emit_def)

lemma peer_handle_fields:
  "peer_handle enc now ev sends t = Some t' \<Longrightarrow> pt_id t' = pt_id t \<and> pt_addr t' = pt_addr t \<and> pt_client_queue t' = pt_client_queue t \<and>
     pt_server_queue t' = pt_server_queue t \<and> pt_stream t' = pt_stream t"
  by (auto simp: peer_handle_def Let_def split: option.splits)

lemma peer_step_fields:
  assumes "peer_step ch enc b act t = Some t'"
  shows "pt_id t' = pt_id t \<and> pt_addr t' = pt_addr t"
  using assms by (auto simp: peer_step_def split: if_splits peer_action.splits option.splits sum.splits dest!: peer_handle_fields)

section \<open>The invariant\<close>

context mpsc
begin

definition peer_io :: "(nat \<Rightarrow> bytes) \<Rightarrow> bytes list \<Rightarrow> bytes list \<Rightarrow> ('a, 'q) peer_task \<Rightarrow> client_event list \<Rightarrow> packets \<Rightarrow> bool" where
  "peer_io enc cs ss t cevs outs \<longleftrightarrow> peer_history (pt_state t) cevs outs \<and>
     subseq (client_packets cevs @ ch_buffer ch (pt_client_queue t)) cs \<and>
     subseq (server_packets cevs @ ch_buffer ch (pt_server_queue t)) ss \<and>
     prefix (pt_sent t) (client_emit enc (pt_id t) outs) \<and> (pt_running t \<longrightarrow> pt_sent t = client_emit enc (pt_id t) outs)"

definition peer_inv :: "(nat \<Rightarrow> bytes) \<Rightarrow> bytes list \<Rightarrow> bytes list \<Rightarrow> ('a, 'q) peer_task \<Rightarrow> bool" where
  "peer_inv enc cs ss t \<longleftrightarrow> q_ok UDP_QUEUE_SIZE (pt_client_queue t) \<and> q_ok UDP_QUEUE_SIZE (pt_server_queue t) \<and>
     pt_stream t \<in> {[], announce_peer (pt_id t)} \<and> (\<exists>cevs outs. peer_io enc cs ss t cevs outs)"

lemma peer_new_ids: "map ((\<lambda>t. (pt_id t, pt_addr t)) \<circ> peer_new ch) xs = xs"
  by (rule map_idI) (simp add: peer_new_def)

lemma peer_inv_new: "peer_inv enc cs ss (peer_new ch x)"
  by (simp add: peer_inv_def peer_io_def peer_new_def q_ok_new new client_emit_def)

lemma peer_inv_mono:
  assumes "peer_inv enc cs ss t" "subseq cs cs'" "subseq ss ss'"
  shows "peer_inv enc cs' ss' t"
proof -
  from assms(1) obtain cevs outs where "peer_io enc cs ss t cevs outs" by (auto simp: peer_inv_def)
  with assms(2,3) have "peer_io enc cs' ss' t cevs outs" unfolding peer_io_def by (blast intro: subseq_order.trans)
  with assms(1) show ?thesis by (auto simp: peer_inv_def)
qed

lemma peer_inv_stop: "peer_inv enc cs ss t \<Longrightarrow> peer_inv enc cs ss (t\<lparr> pt_running := False \<rparr>)"
  by (auto simp: peer_inv_def peer_io_def)

lemma peer_inv_client_offer:
  assumes "peer_inv enc cs ss t"
  shows "peer_inv enc (cs @ [d]) ss (t\<lparr> pt_client_queue := offer ch b d (pt_client_queue t) \<rparr>)"
proof -
  from assms obtain cevs outs where "peer_io enc cs ss t cevs outs" by (auto simp: peer_inv_def)
  then have "peer_io enc (cs @ [d]) ss (t\<lparr> pt_client_queue := offer ch b d (pt_client_queue t) \<rparr>) cevs outs"
    by (simp add: peer_io_def offer_subseq)
  with assms show ?thesis by (auto simp: peer_inv_def q_ok_offer)
qed

lemma peer_inv_server_offer:
  assumes "peer_inv enc cs ss t"
  shows "peer_inv enc cs (ss @ [d]) (t\<lparr> pt_server_queue := offer ch b d (pt_server_queue t) \<rparr>)"
proof -
  from assms obtain cevs outs where "peer_io enc cs ss t cevs outs" by (auto simp: peer_inv_def)
  then have "peer_io enc cs (ss @ [d]) (t\<lparr> pt_server_queue := offer ch b d (pt_server_queue t) \<rparr>) cevs outs"
    by (simp add: peer_io_def offer_subseq)
  with assms show ?thesis by (auto simp: peer_inv_def q_ok_offer)
qed

text \<open>An iteration continues the run of the task; the packets of a failed send are missing at the end.\<close>

lemma peer_handle_history:
  assumes "peer_handle enc now ev sends t = Some t'" "peer_history (pt_state t) cevs outs" "pt_sent t = client_emit enc (pt_id t) outs"
  obtains out where "peer_history (pt_state t') (cevs @ [ev]) (outs @ out)" "prefix (pt_sent t') (client_emit enc (pt_id t) (outs @ out))"
    "pt_running t' \<longrightarrow> pt_sent t' = client_emit enc (pt_id t) (outs @ out)"
proof -
  from assms(1) obtain st out st' where st: "pt_state t = Some st" "client_step now ev st = Some (out, st')"
    "t' = t\<lparr> pt_state := Some st', pt_since := now, pt_sent := pt_sent t @ take sends (client_emit enc (pt_id t) out),
       pt_running := (length (client_emit enc (pt_id t) out) \<le> sends) \<rparr>"
    by (auto simp: peer_handle_def Let_def split: option.splits)
  have "client_runs (cevs @ [ev]) (outs @ out) st'" using assms(2) st(1,2) by (auto intro: client_next)
  then show thesis using that [of out] assms(3) by (auto simp: st(3) client_emit_append take_is_prefix)
qed

lemma peer_handle_io:
  assumes "peer_handle enc now ev sends t = Some t'" "peer_history (pt_state t) cevs outs" "pt_sent t = client_emit enc (pt_id t) outs"
    and "subseq (client_packets (cevs @ [ev]) @ ch_buffer ch (pt_client_queue t)) cs"
    and "subseq (server_packets (cevs @ [ev]) @ ch_buffer ch (pt_server_queue t)) ss"
  shows "\<exists>out. peer_io enc cs ss t' (cevs @ [ev]) (outs @ out)"
proof -
  note f = peer_handle_fields [OF assms(1)]
  obtain out where "peer_history (pt_state t') (cevs @ [ev]) (outs @ out)" "prefix (pt_sent t') (client_emit enc (pt_id t) (outs @ out))"
    "pt_running t' \<longrightarrow> pt_sent t' = client_emit enc (pt_id t) (outs @ out)"
    by (rule peer_handle_history [OF assms(1-3)])
  with f assms(4,5) have "peer_io enc cs ss t' (cevs @ [ev]) (outs @ out)" by (simp add: peer_io_def)
  then show ?thesis ..
qed

lemma peer_step_inv:
  assumes "peer_inv enc cs ss t" "peer_step ch enc b act t = Some t'"
  shows "peer_inv enc cs ss t'"
proof -
  have run: "pt_running t" using assms(2) by (auto simp: peer_step_def split: if_splits)
  from assms(1) obtain cevs outs where io: "peer_history (pt_state t) cevs outs" "pt_sent t = client_emit enc (pt_id t) outs"
    "subseq (client_packets cevs @ ch_buffer ch (pt_client_queue t)) cs" "subseq (server_packets cevs @ ch_buffer ch (pt_server_queue t)) ss"
    and ok: "q_ok UDP_QUEUE_SIZE (pt_client_queue t)" "q_ok UDP_QUEUE_SIZE (pt_server_queue t)" "pt_stream t \<in> {[], announce_peer (pt_id t)}"
    using run by (auto simp: peer_inv_def peer_io_def)
  show ?thesis
  proof (cases act)
    case (PeerOpens now opened)
    with assms(2) run consider "t' = t\<lparr> pt_running := False \<rparr>"
      | "pt_state t = None" "t' = t\<lparr> pt_stream := announce_peer (pt_id t), pt_state := Some (cp_new now, False), pt_since := now \<rparr>"
      by (cases "pt_state t") (auto simp: peer_step_def split: if_splits sum.splits)
    then show ?thesis
    proof cases
      case 2
      with io have "peer_io enc cs ss t' [] []" by (auto simp: peer_io_def client_start)
      with ok 2(2) show ?thesis by (auto simp: peer_inv_def)
    qed (use assms(1) in \<open>simp add: peer_inv_stop\<close>)
  next
    case (PeerTakes now sends)
    with assms(2) run obtain p q where r: "ch_recv ch (pt_client_queue t) = Some (p, q)"
      "peer_handle enc now (FromClient p) sends (t\<lparr> pt_client_queue := q \<rparr>) = Some t'"
      by (auto simp: peer_step_def split: option.splits)
    have "\<exists>out. peer_io enc cs ss t' (cevs @ [FromClient p]) (outs @ out)"
      using io recv_Some [OF r(1)] by (intro peer_handle_io [OF r(2)]) simp_all
    with peer_handle_fields [OF r(2)] ok q_ok_recv [OF r(1) ok(1)] show ?thesis by (auto simp: peer_inv_def)
  next
    case (PeerRelays now sends)
    with assms(2) run obtain p q where r: "ch_recv ch (pt_server_queue t) = Some (p, q)"
      "peer_handle enc now (FromServer p) sends (t\<lparr> pt_server_queue := q \<rparr>) = Some t'"
      by (auto simp: peer_step_def split: option.splits)
    have "\<exists>out. peer_io enc cs ss t' (cevs @ [FromServer p]) (outs @ out)"
      using io recv_Some [OF r(1)] by (intro peer_handle_io [OF r(2)]) simp_all
    with peer_handle_fields [OF r(2)] ok q_ok_recv [OF r(1) ok(2)] show ?thesis by (auto simp: peer_inv_def)
  next
    case (PeerWorld now result sends)
    with assms(2) run have r: "peer_handle enc now (WorldData result) sends t = Some t'" by (simp add: peer_step_def)
    have "\<exists>out. peer_io enc cs ss t' (cevs @ [WorldData result]) (outs @ out)"
      using io by (intro peer_handle_io [OF r]) simp_all
    with peer_handle_fields [OF r] ok show ?thesis by (auto simp: peer_inv_def)
  qed (use assms run in \<open>auto simp: peer_step_def peer_inv_stop split: if_splits\<close>)
qed

subsubsection \<open>The proxy as a whole\<close>

definition sys_inv :: "(nat \<Rightarrow> bytes) \<Rightarrow> (bytes \<Rightarrow> (nat \<times> bytes) res) \<Rightarrow> 'a peers_event list \<Rightarrow> ('a, 'q) client_sys \<Rightarrow> bool" where
  "sys_inv enc dec evs s \<longleftrightarrow> router_ok (cs_router s) \<and> map (\<lambda>t. (pt_id t, pt_addr t)) (cs_tasks s) = cr_spawned (cs_router s) \<and>
     (\<forall>t \<in> set (cs_tasks s). peer_inv enc (from_addr (pt_addr t) evs) (of_id dec (pt_id t) evs) t)"

lemma sys_inv_grow: "sys_inv enc dec evs s \<Longrightarrow> sys_inv enc dec (evs @ [ev]) s"
  unfolding sys_inv_def by (blast intro: peer_inv_mono packets_grow subseq_order.refl)

lemma sys_inv_length: "sys_inv enc dec evs s \<Longrightarrow> length (cr_spawned (cs_router s)) = length (cs_tasks s)"
  unfolding sys_inv_def using length_map [of "\<lambda>t. (pt_id t, pt_addr t)" "cs_tasks s"] by argo

lemma sys_inv_task:
  "sys_inv enc dec evs s \<Longrightarrow> q < length (cs_tasks s) \<Longrightarrow>
   peer_inv enc (from_addr (pt_addr (cs_tasks s ! q)) evs) (of_id dec (pt_id (cs_tasks s ! q)) evs) (cs_tasks s ! q)"
  using nth_mem unfolding sys_inv_def by blast

lemma sys_inv_nth:
  assumes "sys_inv enc dec evs s" "q < length (cs_tasks s)"
  shows "pt_id (cs_tasks s ! q) = q" "pt_addr (cs_tasks s ! q) = snd (cr_spawned (cs_router s) ! q)" "q < length (cr_spawned (cs_router s))"
proof -
  note len = sys_inv_length [OF assms(1)]
  have "map (\<lambda>t. (pt_id t, pt_addr t)) (cs_tasks s) ! q = (pt_id (cs_tasks s ! q), pt_addr (cs_tasks s ! q))" using assms(2) by simp
  then have "cr_spawned (cs_router s) ! q = (pt_id (cs_tasks s ! q), pt_addr (cs_tasks s ! q))"
    using assms(1) by (simp add: sys_inv_def)
  moreover have "fst (cr_spawned (cs_router s) ! q) = q" using assms len by (auto simp: sys_inv_def router_ok_def)
  ultimately show "pt_id (cs_tasks s ! q) = q" "pt_addr (cs_tasks s ! q) = snd (cr_spawned (cs_router s) ! q)"
    "q < length (cr_spawned (cs_router s))" using assms(2) len by simp_all
qed

text \<open>Replacing one task, by one with the same id and address whose own invariant holds.\<close>

lemma sys_inv_update:
  assumes "sys_inv enc dec evs s" "q < length (cs_tasks s)" "pt_id t = pt_id (cs_tasks s ! q)" "pt_addr t = pt_addr (cs_tasks s ! q)"
    "peer_inv enc (from_addr (pt_addr t) evs) (of_id dec (pt_id t) evs) t"
  shows "sys_inv enc dec evs (s\<lparr> cs_tasks := (cs_tasks s)[q := t] \<rparr>)"
proof -
  have "map (\<lambda>t. (pt_id t, pt_addr t)) ((cs_tasks s)[q := t]) = map (\<lambda>t. (pt_id t, pt_addr t)) (cs_tasks s)"
    using assms(2-4) by (intro nth_equalityI) (auto simp: nth_list_update)
  moreover have "peer_inv enc (from_addr (pt_addr u) evs) (of_id dec (pt_id u) evs) u" if "u \<in> set ((cs_tasks s)[q := t])" for u
    using that assms(1,5) set_update_subset_insert [of "cs_tasks s" q t] by (auto simp: sys_inv_def)
  ultimately show ?thesis using assms(1) by (simp add: sys_inv_def)
qed

lemma sys_inv_socket:
  assumes "sys_inv enc dec evs s" "route_from_socket closed a d (cs_router s) = Inr (dv, r)"
  shows "sys_inv enc dec (evs @ [SocketPacket a d])
    (s\<lparr> cs_router := r, cs_tasks := deliver_to ch dv (cs_tasks s @ map (peer_new ch) (drop (length (cs_tasks s)) (cr_spawned r))) \<rparr>)"
proof -
  let ?ts = "cs_tasks s @ map (peer_new ch) (drop (length (cs_tasks s)) (cr_spawned r))"
  let ?s = "s\<lparr> cs_router := r, cs_tasks := ?ts \<rparr>"
  have ok: "router_ok (cs_router s)" and ids: "map (\<lambda>t. (pt_id t, pt_addr t)) (cs_tasks s) = cr_spawned (cs_router s)"
    using assms(1) by (simp_all add: sys_inv_def)
  from peers_isolated [OF ok, where closed = closed and a = a and data = d] assms(2) obtain q where q: "router_ok r" "dv = ClientPacket q d"
    "q < length (cr_spawned r)" "snd (cr_spawned r ! q) = a" by auto
  have grows: "\<exists>xs. cr_spawned r = cr_spawned (cs_router s) @ xs"
    using assms(2) by (auto simp: route_from_socket_def Let_def split: option.splits if_splits)
  note len = sys_inv_length [OF assms(1)]
  with grows have ts: "map (\<lambda>t. (pt_id t, pt_addr t)) ?ts = cr_spawned r" by (auto simp: ids peer_new_ids)
  have tasks: "peer_inv enc (from_addr (pt_addr t) evs) (of_id dec (pt_id t) evs) t" if "t \<in> set ?ts" for t
    using that assms(1) peer_inv_new by (auto simp: sys_inv_def)
  have inv: "sys_inv enc dec evs ?s" using q(1) ts tasks by (simp add: sys_inv_def)
  have lq: "q < length ?ts" using q(3) arg_cong [OF ts, of length] by simp
  define t where "t = ?ts ! q"
  have t: "t \<in> set ?ts" "pt_addr t = a" using sys_inv_nth(2) [OF inv] lq q(4) nth_mem [OF lq] by (simp_all add: t_def)
  have "peer_inv enc (from_addr a (evs @ [SocketPacket a d])) (of_id dec (pt_id t) evs)
      (t\<lparr> pt_client_queue := offer ch (pt_running t) d (pt_client_queue t) \<rparr>)"
    using peer_inv_client_offer [OF tasks [OF t(1)], of d] t(2) by simp
  with sys_inv_update [OF sys_inv_grow [OF inv, of "SocketPacket a d"], of q
      "t\<lparr> pt_client_queue := offer ch (pt_running t) d (pt_client_queue t) \<rparr>"] lq t(2) show ?thesis
    by (simp add: q(2) deliver_to_def of_id_def t_def)
qed

lemma sys_inv_connection:
  assumes "sys_inv enc dec evs s" "route_from_connection dec p (cs_router s) = Inr (Some dv)"
  shows "sys_inv enc dec (evs @ [ConnDatagram p]) (s\<lparr> cs_tasks := deliver_to ch dv (cs_tasks s) \<rparr>)"
proof -
  from assms(2) obtain d q where d: "dg_decode dec p = Inr d" "cr_id_to_queue (cs_router s) (dg_peer_id d) = Some q"
    "dv = ServerPacket q (dg_data d)"
    by (auto simp: route_from_connection_def and_then_Inr_iff split: option.splits)
  note len = sys_inv_length [OF assms(1)]
  with d(2) assms(1) have q: "q = dg_peer_id d" "q < length (cs_tasks s)" by (auto simp: sys_inv_def router_ok_def split: if_splits)
  let ?t = "cs_tasks s ! q"
  have id: "pt_id ?t = q" using sys_inv_nth(1) [OF assms(1) q(2)] .
  have "peer_inv enc (from_addr (pt_addr ?t) evs) (of_id dec q evs) ?t" using sys_inv_task [OF assms(1) q(2)] id by simp
  then have "peer_inv enc (from_addr (pt_addr ?t) evs) (of_id dec q (evs @ [ConnDatagram p]))
      (?t\<lparr> pt_server_queue := offer ch (pt_running ?t) (dg_data d) (pt_server_queue ?t) \<rparr>)"
    using d(1) q(1) by (simp add: peer_inv_server_offer)
  with sys_inv_update [OF sys_inv_grow [OF assms(1), of "ConnDatagram p"] q(2)] id show ?thesis
    by (simp add: d(3) deliver_to_def from_addr_def)
qed

lemma sys_inv_step:
  assumes "sys_inv enc dec evs s" "cs_step ch enc dec ev s = Some s'"
  shows "sys_inv enc dec (evs @ [ev]) s'"
proof (cases ev)
  case (OfPeer q act)
  with assms(2) obtain t where t: "q < length (cs_tasks s)" "peer_step ch enc (cs_result s \<noteq> None) act (cs_tasks s ! q) = Some t"
    "s' = s\<lparr> cs_tasks := (cs_tasks s)[q := t] \<rparr>"
    by (auto simp: cs_step_def split: if_splits option.splits)
  have "peer_inv enc (from_addr (pt_addr t) evs) (of_id dec (pt_id t) evs) t"
    using peer_step_inv [OF sys_inv_task [OF assms(1) t(1)] t(2)] peer_step_fields [OF t(2)] by simp
  with sys_inv_update [OF assms(1) t(1)] peer_step_fields [OF t(2)] t(3) show ?thesis by (simp add: sys_inv_grow)
next
  case (SocketPacket a d)
  with assms sys_inv_grow [OF assms(1)] show ?thesis
    by (auto simp: cs_step_def Let_def intro: sys_inv_socket split: if_splits sum.splits) (simp add: sys_inv_def)
next
  case (ConnDatagram p)
  with assms sys_inv_grow [OF assms(1)] show ?thesis
    by (auto simp: cs_step_def intro: sys_inv_connection split: if_splits sum.splits option.splits) (simp add: sys_inv_def)
qed (use assms sys_inv_grow [OF assms(1), of ev] in \<open>auto simp: cs_step_def sys_inv_def split: if_splits\<close>)

lemma client_sys_inv: "client_sys_runs ch enc dec evs s \<Longrightarrow> sys_inv enc dec evs s"
proof (induction rule: client_sys_runs.induct)
  case sys_start
  show ?case by (simp add: sys_inv_def cs_new_def router_ok_new) (simp add: cr_new_def)
next
  case (sys_next evs s ev s')
  then show ?case by (blast intro: sys_inv_step)
qed

end

section \<open>One live task per address\<close>

lemma distinct_map_filter_nth:
  assumes "\<And>i j. i < length xs \<Longrightarrow> j < length xs \<Longrightarrow> P (xs ! i) \<Longrightarrow> P (xs ! j) \<Longrightarrow> f (xs ! i) = f (xs ! j) \<Longrightarrow> i = j"
  shows "distinct (map f (filter P xs))"
  using assms
proof (induction xs)
  case (Cons x xs)
  have "distinct (map f (filter P xs))" using Cons.prems [of "Suc _" "Suc _"] by (intro Cons.IH) auto
  moreover have "f x \<noteq> f y" if "P x" "y \<in> set xs" "P y" for y
  proof -
    from that(2) obtain j where "j < length xs" "y = xs ! j" by (auto simp: in_set_conv_nth)
    with Cons.prems [of 0 "Suc j"] that show ?thesis by auto
  qed
  ultimately show ?case by auto
qed simp

definition one_per_addr :: "('a, 'q) client_sys \<Rightarrow> bool" where
  "one_per_addr s \<longleftrightarrow> (\<forall>q < length (cs_tasks s). pt_running (cs_tasks s ! q) \<longrightarrow>
     cr_addr_to_queue (cs_router s) (pt_addr (cs_tasks s ! q)) = Some q)"

lemma one_per_addr_update:
  assumes "one_per_addr s" "pt_addr t = pt_addr (cs_tasks s ! q)" "pt_running t \<longrightarrow> pt_running (cs_tasks s ! q)"
  shows "one_per_addr (s\<lparr> cs_tasks := (cs_tasks s)[q := t] \<rparr>)"
  using assms by (cases "q < length (cs_tasks s)") (auto simp: one_per_addr_def nth_list_update split: if_splits)

lemma one_per_addr_deliver:
  assumes "one_per_addr s"
  shows "one_per_addr (s\<lparr> cs_tasks := deliver_to ch dv (cs_tasks s) \<rparr>)"
  by (cases dv) (simp_all add: deliver_to_def one_per_addr_update [OF assms])

text \<open>A packet from the socket: its address has a live task in the table, or a new one takes its place.\<close>

lemma one_per_addr_socket:
  assumes "one_per_addr s" "length (cr_spawned (cs_router s)) = length (cs_tasks s)"
    "route_from_socket (\<lambda>q. \<not> pt_running (cs_tasks s ! q)) a d (cs_router s) = Inr (dv, r)"
  shows "one_per_addr (s\<lparr> cs_router := r, cs_tasks := cs_tasks s @ map (peer_new ch) (drop (length (cs_tasks s)) (cr_spawned r)) \<rparr>)"
proof (cases "\<exists>q. cr_addr_to_queue (cs_router s) a = Some q \<and> pt_running (cs_tasks s ! q)")
  case True
  with assms show ?thesis by (auto simp: route_from_socket_def one_per_addr_def)
next
  case False
  with assms(3) have r: "cr_addr_to_queue r = (cr_addr_to_queue (cs_router s))(a \<mapsto> length (cr_spawned (cs_router s)))"
    "cr_spawned r = cr_spawned (cs_router s) @ [(unat (cr_next_peer_id (cs_router s)), a)]"
    by (auto simp: route_from_socket_def Let_def split: option.splits if_splits)
  have "pt_addr (cs_tasks s ! q) \<noteq> a" if "q < length (cs_tasks s)" "pt_running (cs_tasks s ! q)" for q
    using that assms(1) False by (auto simp: one_per_addr_def)
  with assms(1,2) show ?thesis by (auto simp: one_per_addr_def r nth_append peer_new_def less_Suc_eq)
qed

lemma peer_step_running: "peer_step ch enc b act t = Some t' \<Longrightarrow> pt_running t"
  by (auto simp: peer_step_def split: if_splits)

lemma one_per_addr_step:
  assumes "one_per_addr s" "length (cr_spawned (cs_router s)) = length (cs_tasks s)" "cs_step ch enc dec ev s = Some s'"
  shows "one_per_addr s'"
proof (cases ev)
  case (OfPeer q act)
  with assms(3) obtain t where t: "peer_step ch enc (cs_result s \<noteq> None) act (cs_tasks s ! q) = Some t" "s' = s\<lparr> cs_tasks := (cs_tasks s)[q := t] \<rparr>"
    by (auto simp: cs_step_def split: if_splits option.splits)
  with one_per_addr_update [OF assms(1)] peer_step_fields [OF t(1)] peer_step_running [OF t(1)] show ?thesis by simp
next
  case (SocketPacket a d)
  show ?thesis
  proof (cases "route_from_socket (\<lambda>q. \<not> pt_running (cs_tasks s ! q)) a d (cs_router s)")
    case (Inl e)
    with SocketPacket assms(1,3) show ?thesis by (auto simp: cs_step_def one_per_addr_def split: if_splits)
  next
    case (Inr x)
    obtain dv r where x: "x = (dv, r)" by fastforce
    note new = one_per_addr_socket [OF assms(1,2) Inr [unfolded x], of ch]
    from SocketPacket Inr x assms(3) one_per_addr_deliver [OF new, of ch dv] show ?thesis
      by (auto simp: cs_step_def Let_def split: if_splits)
  qed
next
  case (ConnDatagram p)
  with assms(1,3) one_per_addr_deliver [OF assms(1), of ch] show ?thesis
    by (auto simp: cs_step_def one_per_addr_def split: if_splits sum.splits option.splits)
qed (use assms(1,3) in \<open>auto simp: cs_step_def one_per_addr_def split: if_splits\<close>)

context mpsc
begin

lemma client_sys_addr: "client_sys_runs ch enc dec evs s \<Longrightarrow> one_per_addr s"
proof (induction rule: client_sys_runs.induct)
  case sys_start
  show ?case by (simp add: one_per_addr_def cs_new_def)
next
  case (sys_next evs s ev s')
  from one_per_addr_step [OF sys_next.IH sys_inv_length [OF client_sys_inv [OF sys_next.hyps(1)]] sys_next.hyps(2)] show ?case .
qed

end

section \<open>A small run\<close>

lemma sample_peers:
  "\<exists>s. client_sys_runs list_channel enc dec [SocketPacket ''player'' [1], OfPeer 0 (PeerOpens 5 (Inr ())), OfPeer 0 (PeerTakes 6 9)] s \<and>
    length (cs_tasks s) = 1 \<and> pt_running (cs_tasks s ! 0) \<and> pt_addr (cs_tasks s ! 0) = ''player'' \<and> pt_id (cs_tasks s ! 0) = 0 \<and>
    pt_state (cs_tasks s ! 0) = Some (cp_new 5, False) \<and> pt_sent (cs_tasks s ! 0) = [SendDatagram (enc 0 @ [1])]"
proof -
  note defs = cs_step_def cs_new_def cr_new_def route_from_socket_def checked_add_1_def deliver_to_def peer_new_def offer_def list_channel_def
    UDP_QUEUE_SIZE_def peer_step_def
  obtain s1 where s1: "cs_step list_channel enc dec (SocketPacket ''player'' [1]) cs_new = Some s1" "cs_tasks s1 =
      [(peer_new list_channel (0, ''player''))\<lparr> pt_client_queue := (512, [[1]]) \<rparr>]"
    by (auto simp: defs)
  define t where "t = (cs_tasks s1 ! 0)\<lparr> pt_stream := announce_peer 0, pt_state := Some (cp_new 5, False), pt_since := 5 \<rparr>"
  have s2: "cs_step list_channel enc dec (OfPeer 0 (PeerOpens 5 (Inr ()))) s1 = Some (s1\<lparr> cs_tasks := [t] \<rparr>)"
    using s1(2) by (simp add: cs_step_def peer_step_def t_def peer_new_def)
  have "as_block_request [1] = None"
    by (simp add: as_block_request_def header_decode_def packet_type_from_u8_def Let_def)
  then have "client_step 6 (FromClient [1]) (cp_new 5, False) = Some ([([1], ToServer)], cp_new 5, False)"
    by (simp add: client_step_def on_packet_from_client_def cp_new_def)
  then have s3: "cs_step list_channel enc dec (OfPeer 0 (PeerTakes 6 9)) (s1\<lparr> cs_tasks := [t] \<rparr>) =
      Some (s1\<lparr> cs_tasks := [t\<lparr> pt_client_queue := (512, []), pt_since := 6, pt_sent := [SendDatagram (enc 0 @ [1])] \<rparr>] \<rparr>)"
    using s1(2) by (simp add: cs_step_def peer_step_def peer_handle_def t_def peer_new_def list_channel_def client_emit_def dg_encode_def dg_new_def)
  from sys_next [OF sys_next [OF sys_next [OF sys_start s1(1)] s2] s3] s1(2) show ?thesis
    by (intro exI conjI) (assumption | simp add: t_def peer_new_def)+
qed

section \<open>Properties\<close>

text \<open>
  C15. Peers are independent: in every interleaving of the proxy's loop and its tasks, each task has made a run of its own, on a
  subsequence, in order, of the packets that came from its address and of the datagrams with its peer id, whatever
  happened to the others. What it has sent is what that run produced, up to a failing send that ended the task,
  and its stream starts with its peer id.
\<close>

theorem peers_independent:
  assumes "mpsc ch" "client_sys_runs ch enc dec evs s" "t \<in> set (cs_tasks s)"
  shows "\<exists>cevs outs. (case pt_state t of None \<Rightarrow> cevs = [] \<and> outs = [] | Some st \<Rightarrow> client_runs cevs outs st) \<and>
    subseq (client_packets cevs) (from_addr (pt_addr t) evs) \<and> subseq (server_packets cevs) (of_id dec (pt_id t) evs) \<and>
    prefix (pt_sent t) (client_emit enc (pt_id t) outs) \<and> (pt_running t \<longrightarrow> pt_sent t = client_emit enc (pt_id t) outs) \<and>
    pt_stream t \<in> {[], announce_peer (pt_id t)}"
proof -
  from mpsc.client_sys_inv [OF assms(1,2)] assms(3) have "mpsc.peer_inv ch enc (from_addr (pt_addr t) evs) (of_id dec (pt_id t) evs) t"
    by (simp add: mpsc.sys_inv_def [OF assms(1)])
  then obtain cevs outs where "mpsc.peer_io ch enc (from_addr (pt_addr t) evs) (of_id dec (pt_id t) evs) t cevs outs"
    "pt_stream t \<in> {[], announce_peer (pt_id t)}"
    by (auto simp: mpsc.peer_inv_def [OF assms(1)])
  then show ?thesis unfolding mpsc.peer_io_def [OF assms(1)] peer_history_def
    by (intro exI [of _ cevs] exI [of _ outs]) (auto dest: mpsc.taken_subseq [OF assms(1)])
qed

theorem peers_independent_witness:
  "\<exists>s cevs outs. client_sys_runs list_channel (\<lambda>_. [0]) (\<lambda>_. Inl UnexpectedEof)
      [SocketPacket ''player'' [1], OfPeer 0 (PeerOpens 5 (Inr ())), OfPeer 0 (PeerTakes 6 9)] s \<and>
    client_runs cevs outs (cp_new 5, False) \<and> subseq (client_packets cevs) [[1]] \<and> client_emit (\<lambda>_. [0]) 0 outs = [SendDatagram [0, 1]]"
proof -
  obtain s where s: "client_sys_runs list_channel (\<lambda>_. [0]) (\<lambda>_. Inl UnexpectedEof)
      [SocketPacket ''player'' [1], OfPeer 0 (PeerOpens 5 (Inr ())), OfPeer 0 (PeerTakes 6 9)] s"
    "length (cs_tasks s) = 1" "pt_running (cs_tasks s ! 0)" "pt_addr (cs_tasks s ! 0) = ''player''" "pt_id (cs_tasks s ! 0) = 0"
    "pt_state (cs_tasks s ! 0) = Some (cp_new 5, False)" "pt_sent (cs_tasks s ! 0) = [SendDatagram [0, 1]]"
    using sample_peers [of "\<lambda>_. [0]" "\<lambda>_. Inl UnexpectedEof"] by auto
  have "from_addr ''player'' [SocketPacket ''player'' [1], OfPeer 0 (PeerOpens 5 (Inr ())), OfPeer 0 (PeerTakes 6 9)] = [[1]]"
    by (simp add: from_addr_def)
  with peers_independent [OF lc.mpsc_axioms s(1), of "cs_tasks s ! 0"] s(2-7) obtain cevs outs where
    "client_runs cevs outs (cp_new 5, False)" "subseq (client_packets cevs) [[1]]" "client_emit (\<lambda>_. [0]) 0 outs = [SendDatagram [0, 1]]"
    by auto
  with s(1) show ?thesis by blast
qed

text \<open>
  C28. The proxy's state stays well formed in every interleaving: the task at position \<open>q\<close> has peer id \<open>q\<close>, the table by id knows exactly the
  spawned tasks, the table by address points to a task of that address, no two live tasks share an
  address, no queue holds more than 512 packets, and the block requests a task remembers are strictly increasing.
\<close>

theorem client_state_well_formed:
  assumes "mpsc ch" "client_sys_runs ch enc dec evs s"
  shows "map pt_id (cs_tasks s) = [0..<length (cs_tasks s)] \<and>
    (\<forall>i. cr_id_to_queue (cs_router s) i = (if i < length (cs_tasks s) then Some i else None)) \<and>
    (\<forall>a q. cr_addr_to_queue (cs_router s) a = Some q \<longrightarrow> q < length (cs_tasks s) \<and> pt_addr (cs_tasks s ! q) = a) \<and>
    distinct (map pt_addr (filter pt_running (cs_tasks s))) \<and>
    (\<forall>t \<in> set (cs_tasks s). length (ch_buffer ch (pt_client_queue t)) \<le> 512 \<and> length (ch_buffer ch (pt_server_queue t)) \<le> 512 \<and>
      (\<forall>cp d. pt_state t = Some (cp, d) \<longrightarrow> sorted_wrt (<) (cp_pending_requests cp) \<and> cp_world_data_done cp = d))"
proof (intro conjI)
  note inv = mpsc.client_sys_inv [OF assms]
  note len = mpsc.sys_inv_length [OF assms(1) inv] and nth = mpsc.sys_inv_nth [OF assms(1) inv]
  have r: "router_ok (cs_router s)" using inv by (simp add: mpsc.sys_inv_def [OF assms(1)])
  show "map pt_id (cs_tasks s) = [0..<length (cs_tasks s)]" using nth(1) by (intro nth_equalityI) auto
  show "\<forall>i. cr_id_to_queue (cs_router s) i = (if i < length (cs_tasks s) then Some i else None)" using r len by (simp add: router_ok_def)
  show "\<forall>a q. cr_addr_to_queue (cs_router s) a = Some q \<longrightarrow> q < length (cs_tasks s) \<and> pt_addr (cs_tasks s ! q) = a"
    using r len nth(2) by (auto simp: router_ok_def)
  show "distinct (map pt_addr (filter pt_running (cs_tasks s)))"
    using mpsc.client_sys_addr [OF assms] by (intro distinct_map_filter_nth) (metis one_per_addr_def option.inject)
  show "\<forall>t \<in> set (cs_tasks s). length (ch_buffer ch (pt_client_queue t)) \<le> 512 \<and> length (ch_buffer ch (pt_server_queue t)) \<le> 512 \<and>
      (\<forall>cp d. pt_state t = Some (cp, d) \<longrightarrow> sorted_wrt (<) (cp_pending_requests cp) \<and> cp_world_data_done cp = d)"
  proof
    fix t assume "t \<in> set (cs_tasks s)"
    with inv have t: "mpsc.peer_inv ch enc (from_addr (pt_addr t) evs) (of_id dec (pt_id t) evs) t"
      by (simp add: mpsc.sys_inv_def [OF assms(1)])
    then obtain cevs outs where "peer_history (pt_state t) cevs outs"
      by (auto simp: mpsc.peer_inv_def [OF assms(1)] mpsc.peer_io_def [OF assms(1)])
    then have "sorted_wrt (<) (cp_pending_requests cp) \<and> cp_world_data_done cp = d" if "pt_state t = Some (cp, d)" for cp d
      using that client_runs_inv [of cevs outs "(cp, d)"] by (auto simp: client_inv_def bt_ok_def strict_sorted_iff)
    with t show "length (ch_buffer ch (pt_client_queue t)) \<le> 512 \<and> length (ch_buffer ch (pt_server_queue t)) \<le> 512 \<and>
      (\<forall>cp d. pt_state t = Some (cp, d) \<longrightarrow> sorted_wrt (<) (cp_pending_requests cp) \<and> cp_world_data_done cp = d)"
      by (simp add: mpsc.peer_inv_def [OF assms(1)] mpsc.q_ok_def [OF assms(1)] UDP_QUEUE_SIZE_def)
  qed
qed

theorem client_state_well_formed_witness:
  "\<exists>s. client_sys_runs list_channel (\<lambda>_. [0]) (\<lambda>_. Inl UnexpectedEof)
      [SocketPacket ''player'' [1], OfPeer 0 (PeerOpens 5 (Inr ())), OfPeer 0 (PeerTakes 6 9)] s \<and> map pt_id (cs_tasks s) = [0]"
proof -
  obtain s where s: "client_sys_runs list_channel (\<lambda>_. [0]) (\<lambda>_. Inl UnexpectedEof)
      [SocketPacket ''player'' [1], OfPeer 0 (PeerOpens 5 (Inr ())), OfPeer 0 (PeerTakes 6 9)] s" "length (cs_tasks s) = 1"
    using sample_peers by blast
  from client_state_well_formed [OF lc.mpsc_axioms s(1)] s show ?thesis by auto
qed

end
