(* ===== verification/Server_Peers.thy ===== *)
theory Server_Peers
  imports Server_Proxy Channels
begin

text \<open>
  The whole proxy next to the game server (\<^verbatim>\<open>run_server_proxy\<close> and \<^verbatim>\<open>proxy_server\<close> of \<^verbatim>\<open>factorio-cacher/src/proxy/server_proxy.rs\<close>): the loop that routes
  datagrams and accepts streams, the tasks it has spawned, each with a queue and a socket of its own, and every interleaving of them.

  \<^item> An event of the loop is what \<^verbatim>\<open>select!\<close> returned. An accepted stream comes with its bytes, the address of the game at that moment (the
    cell LAN discovery writes) and the outcome of binding the socket.
  \<^item> An event of a task is one iteration of its loop or the reason for its end; an iteration names how many of its sends succeed before
    one fails. A panic in a handler ends the task and is kept in \<open>sv_panic\<close>.
  \<^item> The sender of a task's queue lives in the table; it is dropped when the loop ends or another stream announces the same id.

  The property: no task ever panics, and every task runs, whatever the others do, as if it were alone.
\<close>

section \<open>Definitions\<close>

record ('a, 'q) server_task =
  sv_id :: nat
  sv_addr :: 'a
  sv_queue :: 'q
  sv_state :: server_proxy_state
  sv_since :: nat
  sv_running :: bool
  sv_panic :: "error option"
  sv_sent :: "server_sent list"
  sv_worlds :: "downloading_world_state list"

definition sv_new :: "'q channel \<Rightarrow> nat \<Rightarrow> nat \<Rightarrow> 'a \<Rightarrow> ('a, 'q) server_task" where
  "sv_new ch now peer_id factorio_addr = \<lparr> sv_id = peer_id, sv_addr = factorio_addr, sv_queue = ch_new ch UDP_QUEUE_SIZE, sv_state = sp_new,
     sv_since = now, sv_running = True, sv_panic = None, sv_sent = [], sv_worlds = [] \<rparr>"

datatype 'a server_action =
    SvReceives nat 'a bytes nat
  | SvSocketFails
  | SvTakes nat nat
  | SvIdle nat
  | SvClosed

record sv_env =
  se_estimate :: "u32 \<Rightarrow> u32"
  se_find_iter :: find_iter
  se_varint_encode :: "nat \<Rightarrow> bytes"
  se_varint_decode :: "bytes \<Rightarrow> (nat \<times> bytes) res"

text \<open>One iteration of the loop of \<^verbatim>\<open>proxy_server\<close> on an event, of whose packets \<open>sends\<close> can be sent.\<close>

definition sv_handle :: "sv_env \<Rightarrow> nat \<Rightarrow> 'a server_event \<Rightarrow> nat \<Rightarrow> ('a, 'q) server_task \<Rightarrow> ('a, 'q) server_task" where
  "sv_handle E now ev sends t =
     (case server_step (se_estimate E) (se_find_iter E) (sv_addr t) now ev (sv_state t) of
        Inl e \<Rightarrow> t\<lparr> sv_running := False, sv_panic := Some e \<rparr>
      | Inr (out, spawned, st) \<Rightarrow>
          (let ps = server_emit (se_varint_encode E) (sv_id t) out
           in t\<lparr> sv_state := st, sv_since := now, sv_sent := sv_sent t @ take sends ps, sv_running := (length ps \<le> sends),
                sv_worlds := sv_worlds t @ (case spawned of None \<Rightarrow> [] | Some d \<Rightarrow> [d]) \<rparr>))"

definition sv_step ::
  "'q channel \<Rightarrow> sv_env \<Rightarrow> bool \<Rightarrow> 'a server_action \<Rightarrow> ('a, 'q) server_task \<Rightarrow> ('a, 'q) server_task option" where
  "sv_step ch E sender_dropped act t =
     (if \<not> sv_running t then None
      else case act of
        SvReceives now remote_addr packet_data sends \<Rightarrow> Some (sv_handle E now (FromSocket remote_addr packet_data) sends t)
      | SvSocketFails \<Rightarrow> Some (t\<lparr> sv_running := False \<rparr>)
      | SvTakes now sends \<Rightarrow>
          (case ch_recv ch (sv_queue t) of
             None \<Rightarrow> None
           | Some (packet_data, q) \<Rightarrow> Some (sv_handle E now (FromQueue packet_data) sends (t\<lparr> sv_queue := q \<rparr>)))
      | SvIdle now \<Rightarrow> (if UDP_PEER_IDLE_TIMEOUT \<le> now - sv_since t then Some (t\<lparr> sv_running := False \<rparr>) else None)
      | SvClosed \<Rightarrow> (if sender_dropped \<and> ch_recv ch (sv_queue t) = None then Some (t\<lparr> sv_running := False \<rparr>) else None))"

record ('a, 'q) server_sys =
  ss_router :: server_router
  ss_tasks :: "('a, 'q) server_task list"
  ss_result :: "unit res option"

definition ss_new :: "('a, 'q) server_sys" where
  "ss_new = \<lparr> ss_router = so_new, ss_tasks = [], ss_result = None \<rparr>"

datatype 'a sys_event =
    GotDatagram bytes
  | GotStream nat bytes 'a "unit res"
  | ConnectionFailed error
  | OfTask nat "'a server_action"

text \<open>A step of the proxy; \<open>None\<close> when the event cannot happen.\<close>

definition ss_step :: "'q channel \<Rightarrow> sv_env \<Rightarrow> 'a sys_event \<Rightarrow> ('a, 'q) server_sys \<Rightarrow> ('a, 'q) server_sys option" where
  "ss_step ch E ev s =
     (case ev of
        OfTask q act \<Rightarrow>
          (if q < length (ss_tasks s)
           then (case sv_step ch E (ss_result s \<noteq> None \<or> so_outgoing_queues (ss_router s) (sv_id (ss_tasks s ! q)) \<noteq> Some q) act (ss_tasks s ! q) of
                   None \<Rightarrow> None
                 | Some t \<Rightarrow> Some (s\<lparr> ss_tasks := (ss_tasks s)[q := t] \<rparr>))
           else None)
      | _ \<Rightarrow>
          (if ss_result s \<noteq> None then None
           else case ev of
             GotDatagram packet \<Rightarrow>
               (case so_datagram (se_varint_decode E) packet (ss_router s) of
                  Inl e \<Rightarrow> Some (s\<lparr> ss_result := Some (Inl e) \<rparr>)
                | Inr None \<Rightarrow> Some s
                | Inr (Some (q, data)) \<Rightarrow>
                    (let t = ss_tasks s ! q
                     in Some (s\<lparr> ss_tasks := (ss_tasks s)[q := t\<lparr> sv_queue := offer ch (sv_running t) data (sv_queue t) \<rparr>] \<rparr>)))
           | GotStream now stream factorio_addr bound \<Rightarrow>
               (case so_accept stream (ss_router s) of
                  Inl e \<Rightarrow> Some (s\<lparr> ss_result := Some (Inl e) \<rparr>)
                | Inr r \<Rightarrow>
                    (case bound of
                       Inl e \<Rightarrow> Some (s\<lparr> ss_result := Some (Inl e) \<rparr>)
                     | Inr _ \<Rightarrow> Some (s\<lparr> ss_router := r, ss_tasks := ss_tasks s @ [sv_new ch now (List.last (so_spawned r)) factorio_addr] \<rparr>)))
           | ConnectionFailed e \<Rightarrow> Some (s\<lparr> ss_result := Some (Inl e) \<rparr>)
           | OfTask _ _ \<Rightarrow> None))"

inductive server_sys_runs :: "'q channel \<Rightarrow> sv_env \<Rightarrow> 'a sys_event list \<Rightarrow> ('a, 'q) server_sys \<Rightarrow> bool" for ch E where
  ssys_start: "server_sys_runs ch E [] ss_new"
| ssys_next: "server_sys_runs ch E evs s \<Longrightarrow> ss_step ch E ev s = Some s' \<Longrightarrow> server_sys_runs ch E (evs @ [ev]) s'"

section \<open>The run of one task\<close>

text \<open>A run with the packets it produced.\<close>

inductive server_traces ::
  "sv_env \<Rightarrow> 'a \<Rightarrow> 'a server_event list \<Rightarrow> packets \<Rightarrow> downloading_world_state list \<Rightarrow> server_proxy_state \<Rightarrow> bool" for E addr where
  trace_start: "server_traces E addr [] [] [] sp_new"
| trace_next: "server_traces E addr evs outs worlds st \<Longrightarrow>
    server_step (se_estimate E) (se_find_iter E) addr now ev st = Inr (out, spawned, st') \<Longrightarrow>
    server_traces E addr (evs @ [ev]) (outs @ out) (worlds @ (case spawned of None \<Rightarrow> [] | Some d \<Rightarrow> [d])) st'"

lemma server_traces_runs: "server_traces E addr evs outs worlds st \<Longrightarrow> server_runs (se_estimate E) (se_find_iter E) addr evs worlds st"
  by (induction rule: server_traces.induct) (auto intro: server_start server_next)

lemma server_emit_append: "server_emit enc i (out1 @ out2) = server_emit enc i out1 @ server_emit enc i out2"
  by (simp add: server_emit_def)

definition queue_packets :: "'a server_event list \<Rightarrow> bytes list" where
  "queue_packets evs = concat (map (\<lambda>ev. case ev of FromQueue p \<Rightarrow> [p] | _ \<Rightarrow> []) evs)"

definition socket_packets :: "'a server_event list \<Rightarrow> ('a \<times> bytes) list" where
  "socket_packets evs = concat (map (\<lambda>ev. case ev of FromSocket a p \<Rightarrow> [(a, p)] | _ \<Rightarrow> []) evs)"

text \<open>What the connection and the task's own socket brought.\<close>

definition datagrams_for :: "(bytes \<Rightarrow> (nat \<times> bytes) res) \<Rightarrow> nat \<Rightarrow> 'a sys_event list \<Rightarrow> bytes list" where
  "datagrams_for dec i evs = concat (map (\<lambda>ev. case ev of GotDatagram p \<Rightarrow> packet_for dec i p | _ \<Rightarrow> []) evs)"

definition socket_of :: "nat \<Rightarrow> 'a sys_event list \<Rightarrow> ('a \<times> bytes) list" where
  "socket_of q evs = concat (map (\<lambda>ev. case ev of OfTask q' (SvReceives _ a p _) \<Rightarrow> if q' = q then [(a, p)] else [] | _ \<Rightarrow> []) evs)"

lemma packet_lists [simp]:
  "queue_packets [] = []" "socket_packets [] = []" "datagrams_for dec i [] = []" "socket_of q [] = []"
  "queue_packets (cevs @ [FromQueue p]) = queue_packets cevs @ [p]" "queue_packets (cevs @ [FromSocket a p]) = queue_packets cevs"
  "socket_packets (cevs @ [FromQueue p]) = socket_packets cevs" "socket_packets (cevs @ [FromSocket a p]) = socket_packets cevs @ [(a, p)]"
  "datagrams_for dec i (evs @ [GotDatagram p]) = datagrams_for dec i evs @ packet_for dec i p"
  "datagrams_for dec i (evs @ [OfTask q act]) = datagrams_for dec i evs"
  by (simp_all add: queue_packets_def socket_packets_def datagrams_for_def socket_of_def)

lemma datagrams_grow: "subseq xs (datagrams_for dec i evs) \<Longrightarrow> subseq xs (datagrams_for dec i (evs @ [ev]))"
  by (simp add: datagrams_for_def subseq_rev_drop_many)

lemma socket_of_append: "socket_of q (evs @ [ev]) = socket_of q evs @
    (case ev of OfTask q' (SvReceives _ a p _) \<Rightarrow> if q' = q then [(a, p)] else [] | _ \<Rightarrow> [])"
  by (simp add: socket_of_def)

section \<open>The invariant\<close>

locale server_peers = mpsc ch + finder find_iter
  for ch :: "'q channel" and find_iter :: find_iter
begin

definition task_io ::
  "sv_env \<Rightarrow> bytes list \<Rightarrow> ('a \<times> bytes) list \<Rightarrow> ('a, 'q) server_task \<Rightarrow> 'a server_event list \<Rightarrow> packets \<Rightarrow> bool" where
  "task_io E ds gs t cevs outs \<longleftrightarrow> server_traces E (sv_addr t) cevs outs (sv_worlds t) (sv_state t) \<and>
     subseq (queue_packets cevs @ ch_buffer ch (sv_queue t)) ds \<and> socket_packets cevs = gs \<and>
     prefix (sv_sent t) (server_emit (se_varint_encode E) (sv_id t) outs) \<and>
     (sv_running t \<longrightarrow> sv_sent t = server_emit (se_varint_encode E) (sv_id t) outs)"

definition task_inv :: "sv_env \<Rightarrow> bytes list \<Rightarrow> ('a \<times> bytes) list \<Rightarrow> ('a, 'q) server_task \<Rightarrow> bool" where
  "task_inv E ds gs t \<longleftrightarrow> q_ok UDP_QUEUE_SIZE (sv_queue t) \<and> sv_panic t = None \<and> (\<exists>cevs outs. task_io E ds gs t cevs outs)"

lemma task_inv_new: "task_inv E ds [] (sv_new ch now i a)"
proof -
  have "task_io E ds [] (sv_new ch now i a) [] []" by (simp add: task_io_def sv_new_def trace_start new server_emit_def)
  then show ?thesis by (auto simp: task_inv_def sv_new_def q_ok_new)
qed

lemma task_inv_mono:
  assumes "task_inv E ds gs t" "subseq ds ds'"
  shows "task_inv E ds' gs t"
proof -
  from assms(1) obtain cevs outs where "task_io E ds gs t cevs outs" by (auto simp: task_inv_def)
  with assms(2) have "task_io E ds' gs t cevs outs" unfolding task_io_def by (blast intro: subseq_order.trans)
  with assms(1) show ?thesis by (auto simp: task_inv_def)
qed

lemma task_inv_stop: "task_inv E ds gs t \<Longrightarrow> task_inv E ds gs (t\<lparr> sv_running := False \<rparr>)"
  by (auto simp: task_inv_def task_io_def)

lemma task_inv_offer:
  assumes "task_inv E ds gs t"
  shows "task_inv E (ds @ [d]) gs (t\<lparr> sv_queue := offer ch b d (sv_queue t) \<rparr>)"
proof -
  from assms obtain cevs outs where "task_io E ds gs t cevs outs" by (auto simp: task_inv_def)
  then have "task_io E (ds @ [d]) gs (t\<lparr> sv_queue := offer ch b d (sv_queue t) \<rparr>) cevs outs"
    by (simp add: task_io_def offer_subseq)
  with assms show ?thesis by (auto simp: task_inv_def q_ok_offer)
qed

text \<open>An iteration does not panic, and continues the run of the task.\<close>

lemma server_step_safe:
  assumes "server_runs estimate find_iter addr evs worlds st"
  shows "\<exists>out spawned st'. server_step estimate find_iter addr now ev st = Inr (out, spawned, st')"
proof -
  have inv: "sp_inv (\<lambda>_. True) st" using server_runs_inv [OF assms, of "\<lambda>_. True"] by simp
  have "\<exists>r. on_packet_from_server estimate find_iter now p st = Inr r" for p
    using on_packet_ok [OF inv, where p = p and estimate = estimate and now = now] by blast
  then show ?thesis by (cases ev) (auto simp: server_step_def)
qed

lemma sv_handle_inv:
  assumes E: "se_find_iter E = find_iter" and tr: "server_traces E (sv_addr t) cevs outs (sv_worlds t) (sv_state t)"
    and sent: "sv_sent t = server_emit (se_varint_encode E) (sv_id t) outs"
    and ds: "subseq (queue_packets (cevs @ [ev]) @ ch_buffer ch (sv_queue t)) ds" and gs: "socket_packets (cevs @ [ev]) = gs"
    and ok: "q_ok UDP_QUEUE_SIZE (sv_queue t)" "sv_panic t = None"
  shows "task_inv E ds gs (sv_handle E now ev sends t)"
proof -
  obtain out spawned st' where st: "server_step (se_estimate E) (se_find_iter E) (sv_addr t) now ev (sv_state t) = Inr (out, spawned, st')"
    using server_step_safe server_traces_runs [OF tr] E by metis
  have "task_io E ds gs (sv_handle E now ev sends t) (cevs @ [ev]) (outs @ out)"
    using trace_next [OF tr st] sent ds gs by (simp add: task_io_def sv_handle_def st Let_def server_emit_append take_is_prefix)
  then show ?thesis using ok by (auto simp: task_inv_def sv_handle_def st Let_def)
qed

lemma sv_step_inv:
  assumes E: "se_find_iter E = find_iter" and inv: "task_inv E ds gs t" and st: "sv_step ch E b act t = Some t'"
  shows "task_inv E ds (gs @ (case act of SvReceives _ a p _ \<Rightarrow> [(a, p)] | _ \<Rightarrow> [])) t'"
proof -
  have run: "sv_running t" using st by (auto simp: sv_step_def split: if_splits)
  from inv obtain cevs outs where io: "server_traces E (sv_addr t) cevs outs (sv_worlds t) (sv_state t)"
    "sv_sent t = server_emit (se_varint_encode E) (sv_id t) outs" "subseq (queue_packets cevs @ ch_buffer ch (sv_queue t)) ds"
    "socket_packets cevs = gs" and ok: "q_ok UDP_QUEUE_SIZE (sv_queue t)" "sv_panic t = None"
    using run by (auto simp: task_inv_def task_io_def)
  show ?thesis
  proof (cases act)
    case (SvReceives now a p sends)
    with st run have "t' = sv_handle E now (FromSocket a p) sends t" by (simp add: sv_step_def)
    with sv_handle_inv [OF E io(1,2) _ _ ok, of "FromSocket a p"] io SvReceives show ?thesis by simp
  next
    case (SvTakes now sends)
    with st run obtain p q where r: "ch_recv ch (sv_queue t) = Some (p, q)" "t' = sv_handle E now (FromQueue p) sends (t\<lparr> sv_queue := q \<rparr>)"
      by (auto simp: sv_step_def split: option.splits)
    have "task_inv E ds gs (sv_handle E now (FromQueue p) sends (t\<lparr> sv_queue := q \<rparr>))"
      using io ok q_ok_recv [OF r(1) ok(1)] recv_Some [OF r(1)] by (intro sv_handle_inv [OF E, where cevs = cevs and outs = outs]) simp_all
    with r(2) SvTakes show ?thesis by simp
  qed (use st run inv in \<open>auto simp: sv_step_def task_inv_stop split: if_splits\<close>)
qed

subsubsection \<open>The proxy as a whole\<close>

definition ssys_inv :: "sv_env \<Rightarrow> 'a sys_event list \<Rightarrow> ('a, 'q) server_sys \<Rightarrow> bool" where
  "ssys_inv E evs s \<longleftrightarrow> map sv_id (ss_tasks s) = so_spawned (ss_router s) \<and>
     (\<forall>i q. so_outgoing_queues (ss_router s) i = Some q \<longrightarrow> q < length (ss_tasks s) \<and> sv_id (ss_tasks s ! q) = i) \<and>
     (\<forall>q < length (ss_tasks s). task_inv E (datagrams_for (se_varint_decode E) (sv_id (ss_tasks s ! q)) evs) (socket_of q evs) (ss_tasks s ! q)) \<and>
     (\<forall>q \<ge> length (ss_tasks s). socket_of q evs = [])"

lemma ssys_inv_update:
  assumes "ssys_inv E evs s" "q < length (ss_tasks s)" "sv_id t = sv_id (ss_tasks s ! q)"
    "task_inv E (datagrams_for (se_varint_decode E) (sv_id t) (evs @ [ev])) (socket_of q (evs @ [ev])) t"
    "\<And>q'. q' \<noteq> q \<Longrightarrow> socket_of q' (evs @ [ev]) = socket_of q' evs"
  shows "ssys_inv E (evs @ [ev]) (s\<lparr> ss_tasks := (ss_tasks s)[q := t] \<rparr>)"
proof -
  have "map sv_id ((ss_tasks s)[q := t]) = map sv_id (ss_tasks s)"
    using assms(2,3) by (intro nth_equalityI) (auto simp: nth_list_update)
  moreover have "task_inv E (datagrams_for (se_varint_decode E) (sv_id (ss_tasks s ! q')) (evs @ [ev])) (socket_of q' evs) (ss_tasks s ! q')"
    if "q' < length (ss_tasks s)" for q'
    using that assms(1) task_inv_mono datagrams_grow [OF subseq_order.refl] unfolding ssys_inv_def by blast
  ultimately show ?thesis using assms by (auto simp: ssys_inv_def nth_list_update)
qed

text \<open>An event that concerns no task, and a new task.\<close>

lemma ssys_inv_other:
  assumes "ssys_inv E evs s" "\<And>q act. ev \<noteq> OfTask q act"
  shows "ssys_inv E (evs @ [ev]) s"
proof -
  have "socket_of q (evs @ [ev]) = socket_of q evs" for q using assms(2) by (cases ev) (auto simp: socket_of_append)
  moreover have "task_inv E (datagrams_for (se_varint_decode E) (sv_id (ss_tasks s ! q')) (evs @ [ev])) (socket_of q' evs) (ss_tasks s ! q')"
    if "q' < length (ss_tasks s)" for q'
    using that assms(1) task_inv_mono datagrams_grow [OF subseq_order.refl] unfolding ssys_inv_def by blast
  ultimately show ?thesis using assms(1) by (simp add: ssys_inv_def)
qed

lemma ssys_inv_result: "ssys_inv E evs s \<Longrightarrow> ssys_inv E evs (s\<lparr> ss_result := r \<rparr>)"
  by (simp add: ssys_inv_def)

lemma ssys_inv_accept:
  assumes "ssys_inv E evs s" "so_accept stream (ss_router s) = Inr r"
  shows "ssys_inv E evs (s\<lparr> ss_router := r, ss_tasks := ss_tasks s @ [sv_new ch now (List.last (so_spawned r)) a] \<rparr>)"
proof -
  have len: "length (so_spawned (ss_router s)) = length (ss_tasks s)"
    using assms(1) length_map [of sv_id "ss_tasks s"] unfolding ssys_inv_def by argo
  from assms(2) obtain i where r: "r = (ss_router s)\<lparr> so_outgoing_queues := (so_outgoing_queues (ss_router s))(i \<mapsto> length (ss_tasks s)),
      so_spawned := so_spawned (ss_router s) @ [i] \<rparr>"
    by (auto simp: so_accept_def and_then_Inr_iff len)
  have id: "sv_id (sv_new ch now i a) = i" by (simp add: sv_new_def)
  have last: "List.last (so_spawned r) = i" by (simp add: r)
  have "task_inv E ds [] (sv_new ch now i a)" for ds by (rule task_inv_new)
  with assms(1) show ?thesis unfolding last by (auto simp: ssys_inv_def r id nth_append less_Suc_eq)
qed

lemma ssys_inv_datagram:
  assumes "ssys_inv E evs s" "so_datagram (se_varint_decode E) p (ss_router s) = Inr (Some (q, data))"
  shows "ssys_inv E (evs @ [GotDatagram p])
    (s\<lparr> ss_tasks := (ss_tasks s)[q := (ss_tasks s ! q)\<lparr> sv_queue := offer ch b data (sv_queue (ss_tasks s ! q)) \<rparr>] \<rparr>)"
proof -
  from assms(2) obtain d where d: "dg_decode (se_varint_decode E) p = Inr d" "so_outgoing_queues (ss_router s) (dg_peer_id d) = Some q" "data = dg_data d"
    by (auto simp: so_datagram_def and_then_Inr_iff split: option.splits)
  with assms(1) have q: "q < length (ss_tasks s)" "sv_id (ss_tasks s ! q) = dg_peer_id d" by (auto simp: ssys_inv_def)
  have "task_inv E (datagrams_for (se_varint_decode E) (dg_peer_id d) evs) (socket_of q evs) (ss_tasks s ! q)"
    using assms(1) q unfolding ssys_inv_def by metis
  from task_inv_offer [OF this, of data b] have
    "task_inv E (datagrams_for (se_varint_decode E) (dg_peer_id d) (evs @ [GotDatagram p])) (socket_of q (evs @ [GotDatagram p]))
      ((ss_tasks s ! q)\<lparr> sv_queue := offer ch b data (sv_queue (ss_tasks s ! q)) \<rparr>)"
    using d(1,3) by (simp add: packet_for_def socket_of_append)
  then show ?thesis using q by (intro ssys_inv_update [OF assms(1)]) (simp_all add: socket_of_append)
qed

lemma sv_step_id: "sv_step ch E b act t = Some t' \<Longrightarrow> sv_id t' = sv_id t"
  by (auto simp: sv_step_def sv_handle_def Let_def split: if_splits server_action.splits option.splits sum.splits prod.splits)

lemma ssys_inv_step:
  assumes E: "se_find_iter E = find_iter" and inv: "ssys_inv E evs s" and st: "ss_step ch E ev s = Some s'"
  shows "ssys_inv E (evs @ [ev]) s'"
proof (cases ev)
  case (OfTask q act)
  with st obtain t b where t: "q < length (ss_tasks s)" "sv_step ch E b act (ss_tasks s ! q) = Some t" "s' = s\<lparr> ss_tasks := (ss_tasks s)[q := t] \<rparr>"
    by (auto simp: ss_step_def split: if_splits option.splits)
  have "task_inv E (datagrams_for (se_varint_decode E) (sv_id (ss_tasks s ! q)) evs) (socket_of q evs) (ss_tasks s ! q)"
    using inv t(1) by (simp add: ssys_inv_def)
  from sv_step_inv [OF E this t(2)] have "task_inv E (datagrams_for (se_varint_decode E) (sv_id t) (evs @ [ev])) (socket_of q (evs @ [ev])) t"
    by (simp add: OfTask sv_step_id [OF t(2)] socket_of_append split: server_action.splits)
  with t show ?thesis
    by (auto simp: OfTask sv_step_id [OF t(2)] socket_of_append intro!: ssys_inv_update [OF inv] split: server_action.splits)
next
  case (GotDatagram p)
  note other = ssys_inv_other [OF inv, of ev]
  with GotDatagram st show ?thesis
    by (auto simp: ss_step_def Let_def ssys_inv_result intro: ssys_inv_datagram [OF inv] split: if_splits sum.splits option.splits)
next
  case (GotStream now stream a bound)
  with ssys_inv_other [OF inv, of ev] st show ?thesis
    by (auto simp: ss_step_def ssys_inv_result intro: ssys_inv_accept split: if_splits sum.splits)
next
  case (ConnectionFailed e)
  with ssys_inv_other [OF inv, of ev] st show ?thesis by (auto simp: ss_step_def ssys_inv_result split: if_splits)
qed

lemma server_sys_inv: "server_sys_runs ch E evs s \<Longrightarrow> se_find_iter E = find_iter \<Longrightarrow> ssys_inv E evs s"
proof (induction rule: server_sys_runs.induct)
  case ssys_start
  show ?case by (simp add: ssys_inv_def ss_new_def so_new_def)
next
  case (ssys_next evs s ev s')
  from ssys_inv_step [OF ssys_next.prems ssys_next.IH [OF ssys_next.prems] ssys_next.hyps(2)] show ?case .
qed

end

interpretation lp: server_peers list_channel "naive_find 0"
  by unfold_locales

section \<open>A small run\<close>

definition sample_sv_env :: sv_env where
  "sample_sv_env = \<lparr> se_estimate = (\<lambda>n. n + 200), se_find_iter = naive_find 0, se_varint_encode = (\<lambda>i. put_u32_le (of_nat i)),
     se_varint_decode = (\<lambda>b. and_then (try_get_u32_le b) (\<lambda>(x, r). Inr (unat x, r))) \<rparr>"

lemma sample_sv_env_simps [simp]: "se_find_iter sample_sv_env = naive_find 0" "se_varint_encode sample_sv_env i = put_u32_le (of_nat i)"
  by (simp_all add: sample_sv_env_def)

abbreviation sample_sys_events :: "string sys_event list" where
  "sample_sys_events \<equiv> [GotStream 4 (put_u32_le 7) ''game'' (Inr ()), GotDatagram (put_u32_le 7 @ [1]), OfTask 0 (SvTakes 6 9)]"

lemma sample_server_peers:
  "\<exists>s. server_sys_runs list_channel sample_sv_env sample_sys_events s \<and> length (ss_tasks s) = 1 \<and> sv_running (ss_tasks s ! 0) \<and>
    sv_id (ss_tasks s ! 0) = 7 \<and> sv_sent (ss_tasks s ! 0) = [ServerSendTo [1]]"
proof -
  obtain s1 where s1: "ss_step list_channel sample_sv_env (GotStream 4 (put_u32_le 7) ''game'' (Inr ())) ss_new = Some s1"
    "ss_tasks s1 = [sv_new list_channel 4 7 ''game'']" "so_outgoing_queues (ss_router s1) 7 = Some 0" "ss_result s1 = None"
    using u32c.dec_enc [of 7 "[]"] by (auto simp: ss_step_def ss_new_def so_new_def so_accept_def)
  have "dg_decode (se_varint_decode sample_sv_env) (put_u32_le 7 @ [1]) = Inr \<lparr> dg_peer_id = 7, dg_data = [1] \<rparr>"
    using u32c.dec_enc [of 7 "[1]"] by (simp add: dg_decode_def sample_sv_env_def)
  then have s2: "ss_step list_channel sample_sv_env (GotDatagram (put_u32_le 7 @ [1])) s1 =
      Some (s1\<lparr> ss_tasks := [(sv_new list_channel 4 7 ''game'')\<lparr> sv_queue := (512, [[1]]) \<rparr>] \<rparr>)"
    using s1(2-4) by (simp add: ss_step_def so_datagram_def sv_new_def offer_def list_channel_def UDP_QUEUE_SIZE_def)
  have s3: "ss_step list_channel sample_sv_env (OfTask 0 (SvTakes 6 9)) (s1\<lparr> ss_tasks := [(sv_new list_channel 4 7 ''game'')\<lparr> sv_queue := (512, [[1]]) \<rparr>] \<rparr>) =
      Some (s1\<lparr> ss_tasks := [(sv_new list_channel 4 7 ''game'')\<lparr> sv_queue := (512, []), sv_since := 6, sv_sent := [ServerSendTo [1]] \<rparr>] \<rparr>)"
    by (simp add: ss_step_def sv_step_def sv_handle_def server_step_def server_emit_def sv_new_def list_channel_def)
  from ssys_next [OF ssys_next [OF ssys_next [OF ssys_start s1(1)] s2] s3] show ?thesis
    by (intro exI conjI) (assumption | simp add: sv_new_def)+
qed

section \<open>Properties\<close>

text \<open>
  C17. The game's proxy as a whole: in every interleaving of its loop and its tasks no task ever panics, and each has made a run of its own on
  exactly what its socket received and on a subsequence, in order, of the datagrams with its peer id, whatever happened to the
  others. What it has sent is what that run produced, up to a failing send that ended it, and at most one
  download has been handed over.
\<close>

theorem server_tasks_independent:
  assumes "mpsc ch" "finder (se_find_iter E)" "server_sys_runs ch E evs s" "q < length (ss_tasks s)" "ss_tasks s ! q = t"
  shows "sv_panic t = None \<and> length (sv_worlds t) \<le> 1 \<and> length (ch_buffer ch (sv_queue t)) \<le> 512 \<and>
    (\<exists>cevs outs. server_traces E (sv_addr t) cevs outs (sv_worlds t) (sv_state t) \<and>
      socket_packets cevs = socket_of q evs \<and> subseq (queue_packets cevs) (datagrams_for (se_varint_decode E) (sv_id t) evs) \<and>
      prefix (sv_sent t) (server_emit (se_varint_encode E) (sv_id t) outs) \<and>
      (sv_running t \<longrightarrow> sv_sent t = server_emit (se_varint_encode E) (sv_id t) outs))"
proof -
  have sp: "server_peers ch (se_find_iter E)" using assms(1,2) by (simp add: server_peers_def)
  from server_peers.server_sys_inv [OF sp assms(3) refl] assms(4,5)
  have inv: "server_peers.task_inv ch E (datagrams_for (se_varint_decode E) (sv_id t) evs) (socket_of q evs) t"
    by (auto simp: server_peers.ssys_inv_def [OF sp])
  then obtain cevs outs where io: "server_peers.task_io ch E (datagrams_for (se_varint_decode E) (sv_id t) evs) (socket_of q evs) t cevs outs"
    by (auto simp: server_peers.task_inv_def [OF sp])
  then have tr: "server_traces E (sv_addr t) cevs outs (sv_worlds t) (sv_state t)" by (simp add: server_peers.task_io_def [OF sp])
  have "length (sv_worlds t) \<le> 1"
    using finder.server_runs_inv [OF assms(2) server_traces_runs [OF tr], of "\<lambda>_. True"] by (cases "sv_worlds t = []") auto
  moreover have "sv_panic t = None" "length (ch_buffer ch (sv_queue t)) \<le> 512"
    using inv by (simp_all add: server_peers.task_inv_def [OF sp] mpsc.q_ok_def [OF assms(1)] UDP_QUEUE_SIZE_def)
  ultimately show ?thesis using io unfolding server_peers.task_io_def [OF sp]
    by (intro conjI exI [of _ cevs] exI [of _ outs]) (auto dest: mpsc.taken_subseq [OF assms(1)])
qed

theorem server_tasks_independent_witness:
  "\<exists>s cevs outs. server_sys_runs list_channel sample_sv_env sample_sys_events s \<and> sv_panic (ss_tasks s ! 0) = None \<and>
    server_traces sample_sv_env (sv_addr (ss_tasks s ! 0)) cevs outs (sv_worlds (ss_tasks s ! 0)) (sv_state (ss_tasks s ! 0)) \<and>
    server_emit (se_varint_encode sample_sv_env) 7 outs = [ServerSendTo [1]]"
proof -
  obtain s where s: "server_sys_runs list_channel sample_sv_env sample_sys_events s" "length (ss_tasks s) = 1" "sv_running (ss_tasks s ! 0)"
    "sv_id (ss_tasks s ! 0) = 7" "sv_sent (ss_tasks s ! 0) = [ServerSendTo [1]]"
    using sample_server_peers by blast
  have "finder (se_find_iter sample_sv_env)" using nf.finder_axioms by simp
  from server_tasks_independent [OF lc.mpsc_axioms this s(1) _ refl, of 0] s(2-5) obtain cevs outs where "sv_panic (ss_tasks s ! 0) = None"
    "server_traces sample_sv_env (sv_addr (ss_tasks s ! 0)) cevs outs (sv_worlds (ss_tasks s ! 0)) (sv_state (ss_tasks s ! 0))"
    "server_emit (se_varint_encode sample_sv_env) 7 outs = [ServerSendTo [1]]"
    by auto
  with s(1) show ?thesis by blast
qed

end
