(* ===== verification/Lz4_Frame.thy ===== *)
theory Lz4_Frame
  imports Utils
begin

text \<open>
  The encoder of LZ4 frames without compression (\<^verbatim>\<open>dsp-nebula-cacher/src/lz4_frame_encoder.rs\<close>), and a reader of the frame
  format to judge it by.

  \<^item> \<^verbatim>\<open>twox_hash\<close>'s XXH32 is the parameter \<open>xxh32\<close>, from a seed and bytes. The streaming hasher is the bytes written to
    it: its documentation promises the hash of their concatenation.
  \<^item> \<open>lz4_decode\<close> reads a frame: magic number, descriptor and its checksum, blocks up to the end mark, and the checksum of
    the content. Compressed blocks are decoded by the parameter \<open>block\<close>.
\<close>

section \<open>Definitions\<close>

type_synonym xxh32 = "u32 \<Rightarrow> bytes \<Rightarrow> u32"

definition MAX_BLOCK_SIZE :: nat where "MAX_BLOCK_SIZE = 64000"

record lz4_encoder =
  lz_pending_data :: bytes
  lz_buffer :: bytes
  lz_content_hasher :: bytes

definition lz_header :: "xxh32 \<Rightarrow> bytes" where
  "lz_header xxh32 =
     (let buffer = put_u32_le 0x184D2204 @ put_u8 0b01100100 @ put_u8 0b01000000;
          header_checksum = xxh32 0 (drop 4 buffer)
      in buffer @ put_u8 (ucast (drop_bit 8 header_checksum AND 0xFF)))"

definition lz_new :: "xxh32 \<Rightarrow> lz4_encoder" where
  "lz_new xxh32 = \<lparr> lz_pending_data = [], lz_buffer = lz_header xxh32, lz_content_hasher = [] \<rparr>"

definition build_block :: "lz4_encoder \<Rightarrow> lz4_encoder" where
  "build_block self =
     (let block_size = min MAX_BLOCK_SIZE (length (lz_pending_data self));
          block_contents = take block_size (lz_pending_data self)
      in self\<lparr> lz_pending_data := drop block_size (lz_pending_data self),
               lz_content_hasher := lz_content_hasher self @ block_contents,
               lz_buffer := lz_buffer self @ put_u32_le (0x80000000 OR of_nat block_size) @ block_contents \<rparr>)"

function build_blocks :: "lz4_encoder \<Rightarrow> lz4_encoder" where
  "build_blocks self = (if MAX_BLOCK_SIZE \<le> length (lz_pending_data self) then build_blocks (build_block self) else self)"
  by pat_completeness auto
termination
  by (relation "measure (\<lambda>self. length (lz_pending_data self))") (auto simp: build_block_def Let_def MAX_BLOCK_SIZE_def)

declare build_blocks.simps [simp del]

definition add_data :: "bytes \<Rightarrow> lz4_encoder \<Rightarrow> bytes option \<times> lz4_encoder" where
  "add_data data self =
     (let self = self\<lparr> lz_pending_data := lz_pending_data self @ data \<rparr>
      in if MAX_BLOCK_SIZE \<le> length (lz_pending_data self)
         then (let self = build_blocks self in (Some (lz_buffer self), self\<lparr> lz_buffer := [] \<rparr>))
         else (None, self))"

definition finish :: "xxh32 \<Rightarrow> lz4_encoder \<Rightarrow> bytes" where
  "finish xxh32 self =
     (let self = (if lz_pending_data self \<noteq> [] then build_block self else self)
      in lz_buffer self @ put_u32_le 0 @ put_u32_le (xxh32 0 (lz_content_hasher self)))"

definition framed_size :: "u64 \<Rightarrow> u64" where
  "framed_size original_len =
     (let total_blocks = (original_len + of_nat MAX_BLOCK_SIZE - 1) div of_nat MAX_BLOCK_SIZE
      in 4 + 3 + total_blocks * 4 + original_len + 4 + 4)"

section \<open>The frame format\<close>

definition expect_that :: "bool \<Rightarrow> bytes \<Rightarrow> (unit \<times> bytes) res" where
  "expect_that ok b = (if ok then Inr ((), b) else Inl (Anyhow ''invalid frame''))"

fun lz4_blocks :: "(bytes \<Rightarrow> bytes res) \<Rightarrow> nat \<Rightarrow> bytes \<Rightarrow> (bytes \<times> bytes) res" where
  "lz4_blocks block 0 b = Inl UnexpectedEof"
| "lz4_blocks block (Suc fuel) b =
     and_then (try_get_u32_le b) (\<lambda>(x, b).
       if x = 0 then Inr ([], b)
       else if 65536 < unat (x AND 0x7FFFFFFF) then Inl (Anyhow ''block too big'')
       else and_then (try_take (unat (x AND 0x7FFFFFFF)) b) (\<lambda>(raw, b).
            and_then (if bit x 31 then Inr raw else block raw) (\<lambda>c.
            and_then (lz4_blocks block fuel b) (\<lambda>(cs, b). Inr (c @ cs, b)))))"

definition lz4_decode :: "xxh32 \<Rightarrow> (bytes \<Rightarrow> bytes res) \<Rightarrow> bytes \<Rightarrow> (bytes \<times> bytes) res" where
  "lz4_decode xxh32 block b =
     and_then (try_get_u32_le b) (\<lambda>(magic, b). and_then (expect_that (magic = 0x184D2204) b) (\<lambda>(_, b).
     and_then (try_get_u8 b) (\<lambda>(flg, b). and_then (try_get_u8 b) (\<lambda>(bd, b).
     and_then (expect_that (flg = 0b01100100 \<and> bd = 0b01000000) b) (\<lambda>(_, b).
     and_then (try_get_u8 b) (\<lambda>(hc, b). and_then (expect_that (hc = ucast (drop_bit 8 (xxh32 0 [flg, bd]))) b) (\<lambda>(_, b).
     and_then (lz4_blocks block (length b) b) (\<lambda>(content, b).
     and_then (try_get_u32_le b) (\<lambda>(c, b). and_then (expect_that (c = xxh32 0 content) b) (\<lambda>(_, b).
     Inr (content, b)))))))))))"

text \<open>The frame of some bytes.\<close>

definition lz_block :: "bytes \<Rightarrow> bytes" where
  "lz_block b = put_u32_le (0x80000000 OR of_nat (length b)) @ b"

function lz_blocks :: "bytes \<Rightarrow> bytes" where
  "lz_blocks b = (if b = [] then [] else lz_block (take 64000 b) @ lz_blocks (drop 64000 b))"
  by pat_completeness auto
termination
  by (relation "measure length") auto

declare lz_blocks.simps [simp del]

definition lz_frame :: "xxh32 \<Rightarrow> bytes \<Rightarrow> bytes" where
  "lz_frame xxh32 b = lz_header xxh32 @ lz_blocks b @ put_u32_le 0 @ put_u32_le (xxh32 0 b)"

lemma lz_blocks_Nil [simp]: "lz_blocks [] = []"
  by (simp add: lz_blocks.simps)

lemma lz_blocks_small: "b \<noteq> [] \<Longrightarrow> length b \<le> 64000 \<Longrightarrow> lz_blocks b = lz_block b"
  by (simp add: lz_blocks.simps [of b])

lemma lz_blocks_append: "64000 dvd length h \<Longrightarrow> lz_blocks (h @ r) = lz_blocks h @ lz_blocks r"
proof (induction "length h" arbitrary: h rule: less_induct)
  case less
  show ?case
  proof (cases "h = []")
    case False
    with less.prems have len: "64000 \<le> length h" by (simp add: dvd_imp_le)
    have "64000 dvd length (drop 64000 h)" using less.prems len by (simp add: dvd_minus_self)
    with less.hyps [of "drop 64000 h"] len False show ?thesis
      by (simp add: lz_blocks.simps [of h] lz_blocks.simps [of "h @ r"])
  qed simp
qed

section \<open>The encoder writes the frame\<close>

definition enc_ok :: "xxh32 \<Rightarrow> bytes \<Rightarrow> bytes \<Rightarrow> lz4_encoder \<Rightarrow> bool" where
  "enc_ok xxh32 emitted data e \<longleftrightarrow> emitted @ lz_buffer e = lz_header xxh32 @ lz_blocks (lz_content_hasher e) \<and>
     64000 dvd length (lz_content_hasher e) \<and> lz_content_hasher e @ lz_pending_data e = data"

lemma build_block_full:
  assumes "enc_ok xxh32 emitted data e" "64000 \<le> length (lz_pending_data e)"
  shows "enc_ok xxh32 emitted data (build_block e)"
proof -
  let ?b = "take 64000 (lz_pending_data e)"
  have "lz_pending_data e \<noteq> []" using assms(2) by auto
  then have "lz_blocks (lz_content_hasher e @ ?b) = lz_blocks (lz_content_hasher e) @ lz_block ?b"
    using assms lz_blocks_append [of "lz_content_hasher e" ?b] lz_blocks_small [of ?b] by (auto simp: enc_ok_def)
  moreover have "64000 dvd length (lz_content_hasher e @ ?b)" using assms by (simp add: enc_ok_def min_absorb2)
  ultimately show ?thesis
    using assms by (simp add: enc_ok_def build_block_def Let_def MAX_BLOCK_SIZE_def min_absorb1 lz_block_def)
qed

lemma build_blocks_ok:
  assumes "enc_ok xxh32 emitted data e"
  shows "enc_ok xxh32 emitted data (build_blocks e) \<and> length (lz_pending_data (build_blocks e)) < 64000"
  using assms
proof (induction e rule: build_blocks.induct)
  case (1 self)
  then show ?case
    using build_block_full [of xxh32 emitted data self]
    by (cases "MAX_BLOCK_SIZE \<le> length (lz_pending_data self)")
      (simp_all add: build_blocks.simps [of self] MAX_BLOCK_SIZE_def)
qed

lemma add_data_ok:
  assumes "enc_ok xxh32 emitted data e" "add_data d e = (out, e')"
  shows "enc_ok xxh32 (emitted @ (case out of None \<Rightarrow> [] | Some o1 \<Rightarrow> o1)) (data @ d) e' \<and> length (lz_pending_data e') < 64000"
proof -
  let ?e = "e\<lparr> lz_pending_data := lz_pending_data e @ d \<rparr>"
  have ok: "enc_ok xxh32 emitted (data @ d) ?e" using assms(1) by (auto simp: enc_ok_def)
  show ?thesis
    using assms(2) ok build_blocks_ok [OF ok]
    by (auto simp: add_data_def Let_def MAX_BLOCK_SIZE_def enc_ok_def split: if_splits)
qed

lemma finish_ok:
  assumes "enc_ok xxh32 emitted data e" "length (lz_pending_data e) < 64000"
  shows "emitted @ finish xxh32 e = lz_frame xxh32 data"
proof (cases "lz_pending_data e = []")
  case True
  with assms(1) have "lz_content_hasher e = data" "emitted @ lz_buffer e = lz_header xxh32 @ lz_blocks data"
    by (auto simp: enc_ok_def)
  with True show ?thesis by (simp add: finish_def lz_frame_def)
next
  case False
  let ?p = "lz_pending_data e"
  have "lz_blocks data = lz_blocks (lz_content_hasher e) @ lz_block ?p"
    using assms False lz_blocks_append [of "lz_content_hasher e" ?p] lz_blocks_small [of ?p] by (auto simp: enc_ok_def)
  with assms False show ?thesis
    by (simp add: finish_def lz_frame_def build_block_def Let_def MAX_BLOCK_SIZE_def min_absorb2 enc_ok_def lz_block_def)
qed

text \<open>A client of the encoder: the pieces in, the fragments out.\<close>

primrec encode_pieces :: "xxh32 \<Rightarrow> bytes list \<Rightarrow> lz4_encoder \<Rightarrow> bytes list" where
  "encode_pieces xxh32 [] e = [finish xxh32 e]"
| "encode_pieces xxh32 (d # ds) e =
     (case add_data d e of
        (None, e') \<Rightarrow> encode_pieces xxh32 ds e'
      | (Some out, e') \<Rightarrow> out # encode_pieces xxh32 ds e')"

lemma encode_pieces_ok:
  assumes "enc_ok xxh32 emitted data e" "length (lz_pending_data e) < 64000"
  shows "emitted @ concat (encode_pieces xxh32 ds e) = lz_frame xxh32 (data @ concat ds)"
  using assms
proof (induction ds arbitrary: emitted data e)
  case Nil
  then show ?case using finish_ok by simp
next
  case (Cons d ds)
  obtain out e' where a: "add_data d e = (out, e')" by fastforce
  from add_data_ok [OF Cons.prems(1) a] Cons.IH a show ?case
    by (cases out) fastforce+
qed

lemma enc_ok_new: "enc_ok xxh32 [] [] (lz_new xxh32)" "length (lz_pending_data (lz_new xxh32)) < 64000"
  by (simp_all add: enc_ok_def lz_new_def)

lemma encode_pieces_frame: "concat (encode_pieces xxh32 ds (lz_new xxh32)) = lz_frame xxh32 (concat ds)"
  using encode_pieces_ok [OF enc_ok_new, where ds = ds] by simp

section \<open>The frame reads back\<close>

lemma size_word:
  fixes w :: u32
  assumes "unat w < 2 ^ 31"
  shows "(0x80000000 OR w) AND 0x7FFFFFFF = w" "bit (0x80000000 OR w) 31" "0x80000000 OR w \<noteq> 0"
proof -
  have "take_bit 31 w = w"
    using assms by (intro word_unat_eq_iff [THEN iffD2]) (simp add: unsigned_take_bit_eq take_bit_nat_eq_self)
  then have lt: "m < 31" if "bit w m" for m using that by (metis bit_take_bit_iff)
  have hi: "bit (0x80000000 :: u32) m \<longleftrightarrow> m = 31" for m
    using bit_exp_iff [where 'a = "32 word", of 31 m] by (auto simp: possible_bit_word)
  have lo: "bit (0x7FFFFFFF :: u32) m \<longleftrightarrow> m < 31" for m
    using bit_mask_iff [where 'a = "32 word", of 31 m] by (auto simp: mask_eq_exp_minus_1)
  show "(0x80000000 OR w) AND 0x7FFFFFFF = w"
    by (rule bit_word_eqI) (auto simp: bit_or_iff bit_and_iff hi lo dest: lt simp del: bit_numeral_word_iff)
  show "bit (0x80000000 OR w) 31" by (simp add: bit_or_iff hi del: bit_numeral_word_iff)
  then show "0x80000000 OR w \<noteq> 0" by (metis bit_0_eq bot_apply bot_bool_def)
qed

lemma lz4_blocks_frame:
  assumes "length b < fuel"
  shows "lz4_blocks block fuel (lz_blocks b @ put_u32_le 0 @ r) = Inr (b, r)"
  using assms
proof (induction fuel arbitrary: b)
  case (Suc fuel)
  show ?case
  proof (cases "b = []")
    case True
    then show ?thesis by (simp add: u32c.dec_enc)
  next
    case False
    let ?n = "length (take 64000 b)"
    have n: "unat (of_nat ?n :: u32) = ?n" by (simp add: unat_of_nat)
    have small: "\<not> 65536 < ?n" by simp
    from n have sz: "unat (of_nat ?n :: u32) < 2 ^ 31" by simp
    have len: "length (drop 64000 b) < fuel" using Suc.prems False by (cases b) auto
    show ?thesis
      using False n small size_word [OF sz] Suc.IH [OF len]
      by (simp add: lz_blocks.simps [of b] lz_block_def u32c.dec_enc del: length_take)
  qed
qed simp

lemma lz_blocks_longer: "length b \<le> length (lz_blocks b)"
proof (induction b rule: lz_blocks.induct)
  case (1 b)
  then show ?case by (cases "b = []") (simp_all add: lz_blocks.simps [of b] lz_block_def)
qed

lemma lz4_decode_frame: "lz4_decode xxh32 block (lz_frame xxh32 b @ r) = Inr (b, r)"
proof -
  have m: "ucast (drop_bit 8 x AND 0xFF) = (ucast (drop_bit 8 x) :: u8)" for x :: u32
  proof -
    have "bit (0xFF :: u32) m \<longleftrightarrow> m < 8" for m
      using bit_mask_iff [where 'a = "32 word", of 8 m] by (auto simp: mask_eq_exp_minus_1)
    then show ?thesis by (intro bit_word_eqI) (simp add: bit_simps del: bit_numeral_word_iff)
  qed
  have d: "drop 4 (put_u32_le x @ y) = y" for x y by simp
  have "length b < length (lz_blocks b) + (8 + length r)" using lz_blocks_longer [of b] by simp
  note bl = lz4_blocks_frame [OF this]
  show ?thesis
    unfolding lz4_decode_def lz_frame_def lz_header_def Let_def d append_assoc
    by (simp add: u32c.dec_enc u8c.dec_enc expect_that_def m bl put_u8_def)
qed

lemma length_lz_blocks: "length (lz_blocks b) = length b + 4 * ((length b + 63999) div 64000)"
proof (induction b rule: lz_blocks.induct)
  case (1 b)
  show ?case
  proof (cases "length b \<le> 64000")
    case True
    show ?thesis
    proof (cases "b = []")
      case False
      with True have "(length b + 63999) div 64000 = 1"
        by (intro div_nat_eqI) (simp_all add: Suc_le_eq)
      with True False show ?thesis by (simp add: lz_blocks_small lz_block_def)
    qed simp
  next
    case False
    then have "b \<noteq> []" by auto
    have "length b + 63999 = (length b - 64000 + 63999) + 64000" using False by simp
    then have "(length b + 63999) div 64000 = (length b - 64000 + 63999) div 64000 + 1" by (metis div_add_self2 zero_neq_numeral)
    with 1 [OF \<open>b \<noteq> []\<close>] \<open>b \<noteq> []\<close> False show ?thesis by (simp add: lz_blocks.simps [of b] lz_block_def)
  qed
qed

lemma length_lz_frame: "length (lz_frame xxh32 b) = length b + 4 * ((length b + 63999) div 64000) + 15"
  by (simp add: lz_frame_def lz_header_def Let_def length_lz_blocks)

lemma framed_size_fits:
  assumes "2 * n + 64000 < 2 ^ 64"
  shows "unat (framed_size (of_nat n)) = n + 4 * ((n + 63999) div 64000) + 15"
proof -
  let ?q = "(n + 63999) div 64000"
  have u: "unat (of_nat k :: u64) = k" if "k < 2 ^ 64" for k using that by (simp add: unat_of_nat take_bit_nat_eq_self)
  have a: "(of_nat n + of_nat MAX_BLOCK_SIZE - 1 :: u64) = of_nat (n + 63999)" by (simp add: MAX_BLOCK_SIZE_def)
  have b: "(of_nat (n + 63999) :: u64) div of_nat MAX_BLOCK_SIZE = of_nat ?q"
  proof (rule word_unat_eq_iff [THEN iffD2])
    have "unat (of_nat (n + 63999) :: u64) = n + 63999" "unat (of_nat ?q :: u64) = ?q" using assms by (intro u; simp)+
    then show "unat ((of_nat (n + 63999) :: u64) div of_nat MAX_BLOCK_SIZE) = unat (of_nat ?q :: u64)"
      by (simp add: unat_div MAX_BLOCK_SIZE_def del: of_nat_add)
  qed
  have "framed_size (of_nat n) = of_nat (4 + 3 + ?q * 4 + n + 4 + 4)"
    unfolding framed_size_def Let_def a b by simp
  moreover have "4 + 3 + ?q * 4 + n + 4 + 4 < 2 ^ 64" using assms by simp
  ultimately show ?thesis by (simp add: u del: of_nat_add of_nat_mult)
qed

text \<open>
  C22. However the data is cut into pieces for \<open>add_data\<close>, the fragments it and \<open>finish\<close> return are together one LZ4 frame that
  depends on the data alone: a reader of the frame format accepts it whatever follows it, checks both checksums and gives
  the data back, and its length is what \<open>framed_size\<close> had announced (as long as twice the data fits in a \<open>u64\<close>).
\<close>

theorem lz4_frame_exact:
  assumes "2 * length (concat pieces) + 64000 < 2 ^ 64"
  shows "lz4_decode xxh32 block (concat (encode_pieces xxh32 pieces (lz_new xxh32)) @ rest) = Inr (concat pieces, rest) \<and>
    concat (encode_pieces xxh32 pieces (lz_new xxh32)) = concat (encode_pieces xxh32 [concat pieces] (lz_new xxh32)) \<and>
    length (concat (encode_pieces xxh32 pieces (lz_new xxh32))) = unat (framed_size (of_nat (length (concat pieces))))"
  using framed_size_fits [OF assms]
  by (simp add: encode_pieces_frame lz4_decode_frame length_lz_frame del: encode_pieces.simps)

definition sum_xxh :: xxh32 where
  "sum_xxh seed b = seed + of_nat (length b) * 0x9E3779B1 + sum_list (map ucast b)"

theorem lz4_frame_exact_witness:
  "lz4_decode sum_xxh Inr (concat (encode_pieces sum_xxh [[1, 2], [3]] (lz_new sum_xxh)) @ [7]) = Inr ([1, 2, 3], [7]) \<and>
   length (concat (encode_pieces sum_xxh [[1, 2], [3]] (lz_new sum_xxh))) = 22"
proof -
  have "unat (framed_size (of_nat (length [1, 2, 3 :: u8]))) = 22" using framed_size_fits [of 3] by simp
  moreover have "2 * length (concat [[1, 2], [3 :: u8]]) + 64000 < 2 ^ 64" by simp
  note E = lz4_frame_exact [OF this, of sum_xxh Inr "[7]"]
  ultimately show ?thesis using E [THEN conjunct1] E [THEN conjunct2, THEN conjunct2] by (simp del: encode_pieces.simps)
qed

end
