(* ===== verification/Nebula_Protocol.thy ===== *)
theory Nebula_Protocol
  imports Dedup Lz4_Frame
begin

text \<open>
  The packets of the Nebula mod that are deduplicated (\<^verbatim>\<open>dsp-nebula-cacher/src/nebula_protocol\<close>) and the messages the two
  proxies exchange about them (\<^verbatim>\<open>dsp-nebula-cacher/src/protocol.rs\<close>).

  \<^item> \<^verbatim>\<open>lz4_flex\<close>'s frame decoder is the parameter \<open>lz4\<close>; \<open>lz4_ok\<close> states that it reads what the frame format prescribes.
  \<^item> A \<^verbatim>\<open>mpsc::Sender\<close> is the list of what was sent; \<open>chan_open\<close> tells from it whether the receiver still exists.
  \<^item> The loop over the stream of chunks is \<open>each_chunk\<close>: the traversal of \<^const>\<open>reconstruct_data\<close>, with a consumer that may
    stop it.
\<close>

section \<open>Definitions\<close>

type_synonym lz4_decoder = "bytes \<Rightarrow> bytes res"

definition fnv1_hash :: "bytes \<Rightarrow> u64" where
  "fnv1_hash data = foldl (\<lambda>hash b. (hash XOR ucast b) * 1099511628211) 14695981039346656037 data"

definition GAME_DATA_PACKET_ID :: u64 where
  "GAME_DATA_PACKET_ID = fnv1_hash (map of_char ''NebulaModel.Packets.Session.GlobalGameDataResponse'')"
definition FACTORY_DATA_PACKET_ID :: u64 where
  "FACTORY_DATA_PACKET_ID = fnv1_hash (map of_char ''NebulaModel.Packets.Planet.FactoryData'')"
definition DYSON_SPHERE_DATA_PACKET_ID :: u64 where
  "DYSON_SPHERE_DATA_PACKET_ID = fnv1_hash (map of_char ''NebulaModel.Packets.Universe.DysonSphereData'')"

subsection \<open>Headers\<close>

record global_game_data_header =
  gh_data_type :: u8
  gh_data_length :: u32

record factory_data_header =
  fh_planet_id :: u32
  fh_data_length :: u32

record dyson_sphere_data_header =
  dh_star_index :: u32
  dh_data_length :: u32

datatype nebula_packet_header =
    GlobalGameDataHeader global_game_data_header
  | FactoryDataHeader factory_data_header
  | DysonSphereDataHeader dyson_sphere_data_header

definition gh_decode :: "bytes \<Rightarrow> (global_game_data_header \<times> bytes) res" where
  "gh_decode buf = and_then (try_get_u8 buf) (\<lambda>(data_type, buf). and_then (try_get_u32_le buf) (\<lambda>(data_length, buf).
     Inr (\<lparr> gh_data_type = data_type, gh_data_length = data_length \<rparr>, buf)))"

definition fh_decode :: "bytes \<Rightarrow> (factory_data_header \<times> bytes) res" where
  "fh_decode buf = and_then (try_get_u32_le buf) (\<lambda>(planet_id, buf). and_then (try_get_u32_le buf) (\<lambda>(data_length, buf).
     Inr (\<lparr> fh_planet_id = planet_id, fh_data_length = data_length \<rparr>, buf)))"

definition dh_decode :: "bytes \<Rightarrow> (dyson_sphere_data_header \<times> bytes) res" where
  "dh_decode buf = and_then (try_get_u32_le buf) (\<lambda>(star_index, buf). and_then (try_get_u32_le buf) (\<lambda>(data_length, buf).
     Inr (\<lparr> dh_star_index = star_index, dh_data_length = data_length \<rparr>, buf)))"

definition gh_approx_size :: "global_game_data_header \<Rightarrow> nat" where "gh_approx_size h = unat (gh_data_length h)"
definition fh_approx_size :: "factory_data_header \<Rightarrow> nat" where "fh_approx_size h = unat (fh_data_length h)"
definition dh_approx_size :: "dyson_sphere_data_header \<Rightarrow> nat" where "dh_approx_size h = unat (dh_data_length h)"

definition nh_decode :: "bytes \<Rightarrow> (nebula_packet_header option \<times> bytes) res" where
  "nh_decode buf =
     and_then (try_get_u64_le buf) (\<lambda>(packet_type, buf).
       if packet_type = GAME_DATA_PACKET_ID then
         and_then (gh_decode buf) (\<lambda>(h, buf). Inr (Some (GlobalGameDataHeader h), buf))
       else if packet_type = FACTORY_DATA_PACKET_ID then
         and_then (fh_decode buf) (\<lambda>(h, buf). Inr (Some (FactoryDataHeader h), buf))
       else if packet_type = DYSON_SPHERE_DATA_PACKET_ID then
         and_then (dh_decode buf) (\<lambda>(h, buf). Inr (Some (DysonSphereDataHeader h), buf))
       else Inr (None, buf))"

definition nh_approx_size :: "nebula_packet_header \<Rightarrow> nat" where
  "nh_approx_size h = (case h of
     GlobalGameDataHeader h \<Rightarrow> gh_approx_size h
   | FactoryDataHeader h \<Rightarrow> fh_approx_size h
   | DysonSphereDataHeader h \<Rightarrow> dh_approx_size h)"

subsection \<open>Taking a packet apart\<close>

record global_game_data_packet =
  gp_data_type :: u8
  gp_data_uncompressed_length :: u64
  gp_data_chunk_list :: chunk_list

record factory_data_packet =
  fp_planet_id :: u32
  fp_data_uncompressed_length :: u64
  fp_data_chunk_list :: chunk_list
  fp_terrain_data_length :: u32
  fp_terrain_data_chunk_list :: chunk_list

record dyson_sphere_data_packet =
  dp_star_index :: u32
  dp_data_uncompressed_length :: u64
  dp_data_chunk_list :: chunk_list
  dp_event_type :: u32

datatype nebula_packet =
    GlobalGameData global_game_data_packet
  | FactoryData factory_data_packet
  | DysonSphereData dyson_sphere_data_packet

definition try_split_to :: "nat \<Rightarrow> bytes \<Rightarrow> (bytes \<times> bytes) res" where
  "try_split_to data_length packet_data =
     (if length packet_data < data_length then Inl (Anyhow ''Packet data is too short'')
      else Inr (take data_length packet_data, drop data_length packet_data))"

definition deconstruct_lz4_data ::
  "hash_fun \<Rightarrow> lz4_decoder \<Rightarrow> bytes \<Rightarrow> nat \<Rightarrow> chunk_store \<Rightarrow> ((chunk_list \<times> u64) \<times> bytes \<times> chunk_store) res" where
  "deconstruct_lz4_data H lz4 packet_data data_length all_chunks =
     and_then (try_split_to data_length packet_data) (\<lambda>(compressed_data, packet_data).
     and_then (lz4 compressed_data) (\<lambda>decompressed_data.
     and_then (chunk_data H decompressed_data all_chunks) (\<lambda>(chunk_list, all_chunks).
     Inr ((chunk_list, of_nat (length decompressed_data)), packet_data, all_chunks))))"

definition gp_deconstruct ::
  "hash_fun \<Rightarrow> lz4_decoder \<Rightarrow> global_game_data_header \<Rightarrow> bytes \<Rightarrow> chunk_store \<Rightarrow> (global_game_data_packet \<times> chunk_store) res" where
  "gp_deconstruct H lz4 h packet_data all_chunks =
     and_then (deconstruct_lz4_data H lz4 packet_data (unat (gh_data_length h)) all_chunks) (\<lambda>((cl, n), packet_data, all_chunks).
     Inr (\<lparr> gp_data_type = gh_data_type h, gp_data_uncompressed_length = n, gp_data_chunk_list = cl \<rparr>, all_chunks))"

definition fp_deconstruct ::
  "hash_fun \<Rightarrow> lz4_decoder \<Rightarrow> factory_data_header \<Rightarrow> bytes \<Rightarrow> chunk_store \<Rightarrow> (factory_data_packet \<times> chunk_store) res" where
  "fp_deconstruct H lz4 h packet_data all_chunks =
     and_then (deconstruct_lz4_data H lz4 packet_data (unat (fh_data_length h)) all_chunks) (\<lambda>((cl, n), packet_data, all_chunks).
     and_then (try_get_u32_le packet_data) (\<lambda>(terrain_data_length, packet_data).
     and_then (try_split_to (unat terrain_data_length) packet_data) (\<lambda>(terrain_data, packet_data).
     and_then (chunk_data H terrain_data all_chunks) (\<lambda>(tcl, all_chunks).
     Inr (\<lparr> fp_planet_id = fh_planet_id h, fp_data_uncompressed_length = n, fp_data_chunk_list = cl,
            fp_terrain_data_length = terrain_data_length, fp_terrain_data_chunk_list = tcl \<rparr>, all_chunks)))))"

definition dp_deconstruct ::
  "hash_fun \<Rightarrow> lz4_decoder \<Rightarrow> dyson_sphere_data_header \<Rightarrow> bytes \<Rightarrow> chunk_store \<Rightarrow> (dyson_sphere_data_packet \<times> chunk_store) res" where
  "dp_deconstruct H lz4 h packet_data all_chunks =
     and_then (deconstruct_lz4_data H lz4 packet_data (unat (dh_data_length h)) all_chunks) (\<lambda>((cl, n), packet_data, all_chunks).
     and_then (try_get_u32_le packet_data) (\<lambda>(event_type, packet_data).
     Inr (\<lparr> dp_star_index = dh_star_index h, dp_data_uncompressed_length = n, dp_data_chunk_list = cl,
            dp_event_type = event_type \<rparr>, all_chunks)))"

definition nh_deconstruct ::
  "hash_fun \<Rightarrow> lz4_decoder \<Rightarrow> nebula_packet_header \<Rightarrow> bytes \<Rightarrow> chunk_store \<Rightarrow> (nebula_packet \<times> chunk_store) res" where
  "nh_deconstruct H lz4 header packet_data all_chunks = (case header of
     GlobalGameDataHeader h \<Rightarrow> and_then (gp_deconstruct H lz4 h packet_data all_chunks) (\<lambda>(p, m). Inr (GlobalGameData p, m))
   | FactoryDataHeader h \<Rightarrow> and_then (fp_deconstruct H lz4 h packet_data all_chunks) (\<lambda>(p, m). Inr (FactoryData p, m))
   | DysonSphereDataHeader h \<Rightarrow> and_then (dp_deconstruct H lz4 h packet_data all_chunks) (\<lambda>(p, m). Inr (DysonSphereData p, m)))"

subsection \<open>Putting it together\<close>

text \<open>A consumer of the chunks: it changes its state, and may fail.\<close>

type_synonym 'a consumer = "bytes \<Rightarrow> 'a \<Rightarrow> unit res \<times> 'a"

primrec each_key ::
  "(chunk_list \<Rightarrow> 'a \<Rightarrow> 's \<Rightarrow> (unit res \<times> 'a \<times> 's) option) \<Rightarrow> 's chunk_provider \<Rightarrow> 'a consumer \<Rightarrow> bool \<Rightarrow> chunk_key list \<Rightarrow>
    'a \<Rightarrow> 's \<Rightarrow> (unit res \<times> 'a \<times> 's) option" where
  "each_key rec prov f is_leaf [] a s = Some (Inr (), a, s)"
| "each_key rec prov f is_leaf (k # ks) a s =
     (case get_chunk prov k s of
        (Inl e, s) \<Rightarrow> Some (Inl e, a, s)
      | (Inr chunk, s) \<Rightarrow>
          (if is_leaf then
             (case f chunk a of
                (Inl e, a) \<Rightarrow> Some (Inl e, a, s)
              | (Inr _, a) \<Rightarrow> each_key rec prov f is_leaf ks a s)
           else
             (case cl_decode chunk of
                Inl e \<Rightarrow> Some (Inl e, a, s)
              | Inr child \<Rightarrow>
                  (case rec child a s of
                     None \<Rightarrow> None
                   | Some (Inl e, a, s) \<Rightarrow> Some (Inl e, a, s)
                   | Some (Inr _, a, s) \<Rightarrow> each_key rec prov f is_leaf ks a s))))"

primrec each_chunk ::
  "nat \<Rightarrow> 's chunk_provider \<Rightarrow> 'a consumer \<Rightarrow> chunk_list \<Rightarrow> 'a \<Rightarrow> 's \<Rightarrow> (unit res \<times> 'a \<times> 's) option" where
  "each_chunk 0 prov f chunk_list a s = None"
| "each_chunk (Suc fuel) prov f chunk_list a s =
     each_key (each_chunk fuel prov f) prov f (cl_is_leaf chunk_list) (cl_chunks chunk_list) a
       (prefetch prov (cl_chunks chunk_list) s)"

text \<open>Steps that may not end, may fail, and change a state: the next one runs when the one before succeeded.\<close>

type_synonym 'a run = "(unit res \<times> 'a) option"

definition and_run :: "'a run \<Rightarrow> ('a \<Rightarrow> 'b run) \<Rightarrow> (error \<Rightarrow> 'a \<Rightarrow> 'b run) \<Rightarrow> 'b run" where
  "and_run r k failed = (case r of None \<Rightarrow> None | Some (Inl e, a) \<Rightarrow> failed e a | Some (Inr _, a) \<Rightarrow> k a)"

abbreviation stop :: "error \<Rightarrow> 'a \<Rightarrow> 'a run" where "stop e a \<equiv> Some (Inl e, a)"

definition send :: "(bytes list \<Rightarrow> bool) \<Rightarrow> bytes list consumer" where
  "send chan_open data sent =
     (if chan_open sent then (Inr (), sent @ [data]) else (Inl (Anyhow ''channel closed''), sent))"

definition out_send :: "(bytes list \<Rightarrow> bool) \<Rightarrow> bytes \<Rightarrow> bytes list \<times> 's \<Rightarrow> (bytes list \<times> 's) run" where
  "out_send chan_open data = (\<lambda>(sent, s). case send chan_open data sent of (r, sent) \<Rightarrow> Some (r, sent, s))"

definition send_framed :: "(bytes list \<Rightarrow> bool) \<Rightarrow> (lz4_encoder \<times> bytes list) consumer" where
  "send_framed chan_open chunk = (\<lambda>(frame_encoder, sent).
     case add_data chunk frame_encoder of
       (None, frame_encoder) \<Rightarrow> (Inr (), frame_encoder, sent)
     | (Some fragment, frame_encoder) \<Rightarrow> (case send chan_open fragment sent of (r, sent) \<Rightarrow> (r, frame_encoder, sent)))"

definition reconstruct_lz4_data ::
  "nat \<Rightarrow> xxh32 \<Rightarrow> 's chunk_provider \<Rightarrow> (bytes list \<Rightarrow> bool) \<Rightarrow> chunk_list \<Rightarrow> bytes list \<times> 's \<Rightarrow> (bytes list \<times> 's) run" where
  "reconstruct_lz4_data fuel xxh32 prov chan_open chunk_list = (\<lambda>(sent, s).
     and_run (prefetch_metadata_chunks fuel prov [chunk_list] s) (\<lambda>s.
     and_run (each_chunk fuel prov (send_framed chan_open) chunk_list (lz_new xxh32, sent) s) (\<lambda>((frame_encoder, sent), s).
     out_send chan_open (finish xxh32 frame_encoder) (sent, s))
     (\<lambda>e ((_, sent), s). stop e (sent, s))) (\<lambda>e s. stop e (sent, s)))"

definition reconstruct_raw_data ::
  "nat \<Rightarrow> 's chunk_provider \<Rightarrow> (bytes list \<Rightarrow> bool) \<Rightarrow> chunk_list \<Rightarrow> bytes list \<times> 's \<Rightarrow> (bytes list \<times> 's) run" where
  "reconstruct_raw_data fuel prov chan_open chunk_list = (\<lambda>(sent, s). each_chunk fuel prov (send chan_open) chunk_list sent s)"

definition u32_try_from :: "u64 \<Rightarrow> u32 res" where
  "u32_try_from x = (if unat x < 2 ^ 32 then Inr (ucast x) else Inl (Anyhow ''out of range integral type conversion attempted''))"

definition gp_reconstruct ::
  "nat \<Rightarrow> xxh32 \<Rightarrow> 's chunk_provider \<Rightarrow> (bytes list \<Rightarrow> bool) \<Rightarrow> global_game_data_packet \<Rightarrow> bytes list \<times> 's \<Rightarrow> (bytes list \<times> 's) run" where
  "gp_reconstruct fuel xxh32 prov chan_open p st =
     (case u32_try_from (framed_size (gp_data_uncompressed_length p)) of
        Inl e \<Rightarrow> stop e st
      | Inr n \<Rightarrow>
          and_run (out_send chan_open (put_u64_le GAME_DATA_PACKET_ID @ put_u8 (gp_data_type p) @ put_u32_le n) st)
            (reconstruct_lz4_data fuel xxh32 prov chan_open (gp_data_chunk_list p)) stop)"

definition fp_reconstruct ::
  "nat \<Rightarrow> xxh32 \<Rightarrow> 's chunk_provider \<Rightarrow> (bytes list \<Rightarrow> bool) \<Rightarrow> factory_data_packet \<Rightarrow> bytes list \<times> 's \<Rightarrow> (bytes list \<times> 's) run" where
  "fp_reconstruct fuel xxh32 prov chan_open p st =
     (case u32_try_from (framed_size (fp_data_uncompressed_length p)) of
        Inl e \<Rightarrow> stop e st
      | Inr n \<Rightarrow>
          and_run (out_send chan_open (put_u64_le FACTORY_DATA_PACKET_ID @ put_u32_le (fp_planet_id p) @ put_u32_le n) st) (\<lambda>st.
          and_run (reconstruct_lz4_data fuel xxh32 prov chan_open (fp_data_chunk_list p) st) (\<lambda>st.
          and_run (out_send chan_open (put_u32_le (fp_terrain_data_length p)) st)
            (reconstruct_raw_data fuel prov chan_open (fp_terrain_data_chunk_list p)) stop) stop) stop)"

definition dp_reconstruct ::
  "nat \<Rightarrow> xxh32 \<Rightarrow> 's chunk_provider \<Rightarrow> (bytes list \<Rightarrow> bool) \<Rightarrow> dyson_sphere_data_packet \<Rightarrow> bytes list \<times> 's \<Rightarrow> (bytes list \<times> 's) run" where
  "dp_reconstruct fuel xxh32 prov chan_open p st =
     (case u32_try_from (framed_size (dp_data_uncompressed_length p)) of
        Inl e \<Rightarrow> stop e st
      | Inr n \<Rightarrow>
          and_run (out_send chan_open (put_u64_le DYSON_SPHERE_DATA_PACKET_ID @ put_u32_le (dp_star_index p) @ put_u32_le n) st) (\<lambda>st.
          and_run (reconstruct_lz4_data fuel xxh32 prov chan_open (dp_data_chunk_list p) st)
            (out_send chan_open (put_u32_le (dp_event_type p))) stop) stop)"

definition np_reconstruct ::
  "nat \<Rightarrow> xxh32 \<Rightarrow> 's chunk_provider \<Rightarrow> (bytes list \<Rightarrow> bool) \<Rightarrow> nebula_packet \<Rightarrow> bytes list \<times> 's \<Rightarrow> (bytes list \<times> 's) run" where
  "np_reconstruct fuel xxh32 prov chan_open packet st = (case packet of
     GlobalGameData p \<Rightarrow> gp_reconstruct fuel xxh32 prov chan_open p st
   | FactoryData p \<Rightarrow> fp_reconstruct fuel xxh32 prov chan_open p st
   | DysonSphereData p \<Rightarrow> dp_reconstruct fuel xxh32 prov chan_open p st)"

subsection \<open>Messages between the proxies\<close>

record deduped_packet_description =
  pd_packet :: nebula_packet
  pd_original_packet_size :: u64

record start_dedup_indicator =
  dedup_id :: u64

definition MAGIC_NUMBER :: bytes where
  "MAGIC_NUMBER = [0x17, 0xf8, 0x4a, 0xc8, 0x97, 0xb3, 0x67, 0x69, 0x95, 0xb8, 0xf5, 0xfb, 0xc3, 0xa1, 0x0c, 0x9b,
     0xed, 0xa0, 0x2a, 0xab, 0x0e, 0x3e, 0x75, 0x2e, 0x8b, 0x46, 0xa1, 0xaf, 0x40, 0xcf, 0x86, 0x0f]"

definition sd_decode :: "bytes \<Rightarrow> start_dedup_indicator option" where
  "sd_decode buf =
     (if take (length MAGIC_NUMBER) buf \<noteq> MAGIC_NUMBER then None
      else case try_get_u64 (drop (length MAGIC_NUMBER) buf) of
             Inl _ \<Rightarrow> None
           | Inr (x, _) \<Rightarrow> Some \<lparr> dedup_id = x \<rparr>)"

definition sd_encode :: "start_dedup_indicator \<Rightarrow> bytes" where
  "sd_encode i = MAGIC_NUMBER @ put_u64 (dedup_id i)"

section \<open>What a packet says\<close>

datatype nebula_content =
    GameContent u8 bytes
  | FactoryContent u32 bytes bytes
  | SphereContent u32 bytes u32

definition header_content :: "lz4_decoder \<Rightarrow> nebula_packet_header \<Rightarrow> bytes \<Rightarrow> nebula_content res" where
  "header_content lz4 header b = (case header of
     GlobalGameDataHeader h \<Rightarrow>
       and_then (try_split_to (unat (gh_data_length h)) b) (\<lambda>(c, b). and_then (lz4 c) (\<lambda>d. Inr (GameContent (gh_data_type h) d)))
   | FactoryDataHeader h \<Rightarrow>
       and_then (try_split_to (unat (fh_data_length h)) b) (\<lambda>(c, b). and_then (lz4 c) (\<lambda>d.
       and_then (try_get_u32_le b) (\<lambda>(n, b). and_then (try_split_to (unat n) b) (\<lambda>(t, b).
       Inr (FactoryContent (fh_planet_id h) d t)))))
   | DysonSphereDataHeader h \<Rightarrow>
       and_then (try_split_to (unat (dh_data_length h)) b) (\<lambda>(c, b). and_then (lz4 c) (\<lambda>d.
       and_then (try_get_u32_le b) (\<lambda>(e, b). Inr (SphereContent (dh_star_index h) d e)))))"

definition packet_content :: "lz4_decoder \<Rightarrow> bytes \<Rightarrow> nebula_content res" where
  "packet_content lz4 b = and_then (nh_decode b) (\<lambda>(h, b).
     case h of None \<Rightarrow> Inl (Anyhow ''not a packet with compressed data'') | Some h \<Rightarrow> header_content lz4 h b)"

primrec content_data :: "nebula_content \<Rightarrow> bytes" where
  "content_data (GameContent _ d) = d"
| "content_data (FactoryContent _ d _) = d"
| "content_data (SphereContent _ d _) = d"

definition lz4_ok :: "xxh32 \<Rightarrow> (bytes \<Rightarrow> bytes res) \<Rightarrow> lz4_decoder \<Rightarrow> bool" where
  "lz4_ok xxh32 block lz4 \<longleftrightarrow> (\<forall>b d. lz4_decode xxh32 block b = Inr (d, []) \<longrightarrow> lz4 b = Inr d)"

text \<open>The bytes of the packet that is rebuilt from a content.\<close>

definition frame_len :: "xxh32 \<Rightarrow> bytes \<Rightarrow> u32" where
  "frame_len xxh32 d = of_nat (length (lz_frame xxh32 d))"

primrec packet_bytes :: "xxh32 \<Rightarrow> nebula_content \<Rightarrow> bytes" where
  "packet_bytes xxh32 (GameContent t d) =
     put_u64_le GAME_DATA_PACKET_ID @ put_u8 t @ put_u32_le (frame_len xxh32 d) @ lz_frame xxh32 d"
| "packet_bytes xxh32 (FactoryContent i d t) =
     put_u64_le FACTORY_DATA_PACKET_ID @ put_u32_le i @ put_u32_le (frame_len xxh32 d) @ lz_frame xxh32 d @
     put_u32_le (of_nat (length t)) @ t"
| "packet_bytes xxh32 (SphereContent i d e) =
     put_u64_le DYSON_SPHERE_DATA_PACKET_ID @ put_u32_le i @ put_u32_le (frame_len xxh32 d) @ lz_frame xxh32 d @ put_u32_le e"

definition content_fits :: "nebula_content \<Rightarrow> bool" where
  "content_fits c \<longleftrightarrow> length (content_data c) + 4 * ((length (content_data c) + 63999) div 64000) + 15 < 2 ^ 32 \<and>
     (case c of FactoryContent _ _ t \<Rightarrow> length t < 2 ^ 32 | _ \<Rightarrow> True)"

lemma packet_ids: "GAME_DATA_PACKET_ID \<noteq> FACTORY_DATA_PACKET_ID" "GAME_DATA_PACKET_ID \<noteq> DYSON_SPHERE_DATA_PACKET_ID"
  "FACTORY_DATA_PACKET_ID \<noteq> DYSON_SPHERE_DATA_PACKET_ID"
  by code_simp+

section \<open>Running the stream into a consumer\<close>

lemma and_run_simps [simp]:
  "and_run None k failed = None"
  "and_run (Some (Inl e, a)) k failed = failed e a"
  "and_run (Some (Inr u, a)) k failed = k a"
  by (simp_all add: and_run_def)

primrec consume :: "'a consumer \<Rightarrow> bytes list \<Rightarrow> 'a \<Rightarrow> 'a option" where
  "consume f [] a = Some a"
| "consume f (c # cs) a = (case f c a of (Inl _, _) \<Rightarrow> None | (Inr _, a) \<Rightarrow> consume f cs a)"

lemma consume_append: "consume f (xs @ ys) a = Option.bind (consume f xs a) (consume f ys)"
  by (induction xs arbitrary: a) (auto split: sum.splits prod.splits)

lemma each_key_consumes:
  assumes rec: "\<And>cl a s cs s' a'. rec cl s = Some (cs, Inr (), s') \<Longrightarrow> consume f cs a = Some a' \<Longrightarrow> rec' cl a s = Some (Inr (), a', s')"
    and "reconstruct_keys rec prov is_leaf ks s = Some (cs, Inr (), s')" "consume f cs a = Some a'"
  shows "each_key rec' prov f is_leaf ks a s = Some (Inr (), a', s')"
  using assms(2,3)
proof (induction ks arbitrary: s cs a)
  case (Cons k ks)
  obtain r s1 where g: "get_chunk prov k s = (r, s1)" by fastforce
  with Cons.prems(1) obtain chunk where r: "r = Inr chunk" by (cases r) auto
  show ?case
  proof (cases is_leaf)
    case True
    with Cons.prems(1) g r obtain cs1 where "cs = chunk # cs1" "reconstruct_keys rec prov is_leaf ks s1 = Some (cs1, Inr (), s')"
      by (auto split: option.splits prod.splits)
    with Cons.IH Cons.prems(2) True g r show ?thesis by (auto split: sum.splits prod.splits)
  next
    case False
    with Cons.prems(1) g r obtain child ys s2 zs where 1: "cl_decode chunk = Inr child" "rec child s1 = Some (ys, Inr (), s2)"
      "reconstruct_keys rec prov is_leaf ks s2 = Some (zs, Inr (), s')" "cs = ys @ zs"
      by (auto split: option.splits prod.splits sum.splits)
    with Cons.prems(2) obtain a1 where 2: "consume f ys a = Some a1" "consume f zs a1 = Some a'"
      by (auto simp: consume_append bind_eq_Some_conv)
    with rec [OF 1(2) 2(1)] Cons.IH [OF 1(3) 2(2)] 1(1) False g r show ?thesis by simp
  qed
qed simp

lemma each_chunk_consumes:
  "reconstruct_data fuel prov cl s = Some (cs, Inr (), s') \<Longrightarrow> consume f cs a = Some a' \<Longrightarrow>
    each_chunk fuel prov f cl a s = Some (Inr (), a', s')"
proof (induction fuel arbitrary: cl s cs s' a a')
  case (Suc fuel)
  then show ?case by (auto intro: each_key_consumes [where rec = "reconstruct_data fuel prov"])
qed simp

lemma consume_send: "consume (send (\<lambda>_. True)) cs sent = Some (sent @ cs)"
  by (induction cs arbitrary: sent) (simp_all add: send_def)

lemma send_framed_simps:
  "add_data c e = (None, e') \<Longrightarrow> send_framed chan_open c (e, sent) = (Inr (), e', sent)"
  "add_data c e = (Some b, e') \<Longrightarrow> send_framed (\<lambda>_. True) c (e, sent) = (Inr (), e', sent @ [b])"
  by (simp_all add: send_framed_def send_def)

lemma consume_framed:
  "\<exists>e' frags. consume (send_framed (\<lambda>_. True)) cs (e, sent) = Some (e', sent @ frags) \<and>
    concat frags @ finish xxh32 e' = concat (encode_pieces xxh32 cs e)"
proof (induction cs arbitrary: e sent)
  case (Cons c cs)
  obtain out e1 where a: "add_data c e = (out, e1)" by fastforce
  show ?case
  proof (cases out)
    case None
    with Cons.IH [of e1 sent] a show ?thesis by (simp add: send_framed_simps)
  next
    case (Some b)
    from Cons.IH [of e1 "sent @ [b]"] obtain e' frags where
      "consume (send_framed (\<lambda>_. True)) cs (e1, sent @ [b]) = Some (e', (sent @ [b]) @ frags)"
      "concat frags @ finish xxh32 e' = concat (encode_pieces xxh32 cs e1)" by blast
    with a Some show ?thesis by (intro exI [of _ e'] exI [of _ "b # frags"]) (simp add: send_framed_simps)
  qed
qed simp

context chunk_source
begin

lemma reconstruct_raw_ok:
  assumes "tree n stored cl cs" "ready s P" "n < fuel"
  shows "\<exists>s' P'. reconstruct_raw_data fuel prov (\<lambda>_. True) cl (sent, s) = Some (Inr (), sent @ cs, s') \<and> ready s' P'"
proof -
  from reconstruct_tree [OF assms] obtain s' P' where "reconstruct_data fuel prov cl s = Some (cs, Inr (), s')" "ready s' P'" by blast
  with each_chunk_consumes [OF this(1) consume_send] show ?thesis by (auto simp: reconstruct_raw_data_def)
qed

lemma reconstruct_lz4_ok:
  assumes "tree n stored cl cs" "ready s P" "n < fuel" "Suc (Suc n) < fuel"
  shows "\<exists>frags s' P'. reconstruct_lz4_data fuel xxh32 prov (\<lambda>_. True) cl (sent, s) = Some (Inr (), sent @ frags, s') \<and>
    ready s' P' \<and> concat frags = lz_frame xxh32 (concat cs)"
proof -
  have "list_all (subtree (Suc n)) [cl]" using assms(1) by (auto simp: subtree_def)
  from prefetch_metadata_ready [OF assms(2) this assms(4)] obtain s1 P1 where
    1: "prefetch_metadata_chunks fuel prov [cl] s = Some (Inr (), s1)" "ready s1 P1" by blast
  from reconstruct_tree [OF assms(1) 1(2) assms(3)] obtain s2 P2 where
    2: "reconstruct_data fuel prov cl s1 = Some (cs, Inr (), s2)" "ready s2 P2" by blast
  obtain e' frags where 3: "consume (send_framed (\<lambda>_. True)) cs (lz_new xxh32, sent) = Some (e', sent @ frags)"
    "concat frags @ finish xxh32 e' = concat (encode_pieces xxh32 cs (lz_new xxh32))"
    using consume_framed by blast
  have "reconstruct_lz4_data fuel xxh32 prov (\<lambda>_. True) cl (sent, s) = Some (Inr (), sent @ (frags @ [finish xxh32 e']), s2)"
    using 1(1) each_chunk_consumes [OF 2(1) 3(1)] by (simp add: reconstruct_lz4_data_def out_send_def send_def)
  with 2(2) 3(2) show ?thesis
    by (intro exI [of _ "frags @ [finish xxh32 e']"] exI [of _ s2] exI [of _ P2]) (simp add: encode_pieces_frame)
qed

end

subsection \<open>More fuel changes nothing\<close>

lemma and_run_mono:
  assumes "and_run r k failed = Some y" "\<And>x. r = Some x \<Longrightarrow> r' = Some x" "\<And>a y. k a = Some y \<Longrightarrow> k' a = Some y"
  shows "and_run r' k' failed = Some y"
  using assms by (auto simp: and_run_def split: option.splits prod.splits sum.splits)

lemma prefetch_metadata_mono:
  "prefetch_metadata_chunks fuel prov level s = Some x \<Longrightarrow> fuel \<le> fuel' \<Longrightarrow> prefetch_metadata_chunks fuel' prov level s = Some x"
proof (induction fuel arbitrary: level s fuel')
  case (Suc fuel)
  then obtain f where "fuel' = Suc f" "fuel \<le> f" by (cases fuel') auto
  with Suc show ?case by (auto simp: Let_def split: if_splits sum.splits prod.splits)
qed simp

lemma each_key_mono:
  assumes "\<And>cl a s x. rec cl a s = Some x \<Longrightarrow> rec' cl a s = Some x" "each_key rec prov f is_leaf ks a s = Some x"
  shows "each_key rec' prov f is_leaf ks a s = Some x"
  using assms(2)
proof (induction ks arbitrary: a s)
  case (Cons k ks)
  then show ?case using assms(1) by (force split: sum.splits prod.splits option.splits if_splits)
qed simp

lemma each_chunk_mono: "each_chunk fuel prov f cl a s = Some x \<Longrightarrow> fuel \<le> fuel' \<Longrightarrow> each_chunk fuel' prov f cl a s = Some x"
proof (induction fuel arbitrary: cl a s fuel' x)
  case (Suc fuel)
  then obtain k where k: "fuel' = Suc k" "fuel \<le> k" by (cases fuel') auto
  from Suc.prems(1) show ?case
    unfolding k(1) each_chunk.simps by (rule each_key_mono [rotated]) (rule Suc.IH [OF _ k(2)])
qed simp

lemma reconstruct_lz4_data_mono:
  "reconstruct_lz4_data fuel xxh32 prov chan_open cl st = Some x \<Longrightarrow> fuel \<le> fuel' \<Longrightarrow>
    reconstruct_lz4_data fuel' xxh32 prov chan_open cl st = Some x"
  unfolding reconstruct_lz4_data_def
  by (cases st) (auto elim!: and_run_mono intro: prefetch_metadata_mono each_chunk_mono)

lemma reconstruct_raw_data_mono:
  "reconstruct_raw_data fuel prov chan_open cl st = Some x \<Longrightarrow> fuel \<le> fuel' \<Longrightarrow> reconstruct_raw_data fuel' prov chan_open cl st = Some x"
  unfolding reconstruct_raw_data_def by (cases st) (auto intro: each_chunk_mono)

lemma np_reconstruct_mono:
  assumes "np_reconstruct fuel xxh32 prov chan_open p st = Some x" "fuel \<le> fuel'"
  shows "np_reconstruct fuel' xxh32 prov chan_open p st = Some x"
  using assms
  by (auto simp: np_reconstruct_def gp_reconstruct_def fp_reconstruct_def dp_reconstruct_def split: nebula_packet.splits sum.splits
      elim!: and_run_mono intro: reconstruct_lz4_data_mono reconstruct_raw_data_mono)

section \<open>The description of a packet\<close>

definition data_tree :: "nat \<Rightarrow> (chunk_key \<times> bytes) set \<Rightarrow> chunk_list \<Rightarrow> bytes \<Rightarrow> bool" where
  "data_tree n S cl d \<longleftrightarrow> (\<exists>h < n. tree h S cl (chunks_of d))"

fun describes_packet :: "nat \<Rightarrow> (chunk_key \<times> bytes) set \<Rightarrow> nebula_packet \<Rightarrow> nebula_content \<Rightarrow> bool" where
  "describes_packet n S (GlobalGameData p) (GameContent t d) \<longleftrightarrow> gp_data_type p = t \<and>
     gp_data_uncompressed_length p = of_nat (length d) \<and> data_tree n S (gp_data_chunk_list p) d"
| "describes_packet n S (FactoryData p) (FactoryContent i d t) \<longleftrightarrow> fp_planet_id p = i \<and>
     fp_data_uncompressed_length p = of_nat (length d) \<and> data_tree n S (fp_data_chunk_list p) d \<and>
     fp_terrain_data_length p = of_nat (length t) \<and> data_tree n S (fp_terrain_data_chunk_list p) t"
| "describes_packet n S (DysonSphereData p) (SphereContent i d e) \<longleftrightarrow> dp_star_index p = i \<and>
     dp_data_uncompressed_length p = of_nat (length d) \<and> data_tree n S (dp_data_chunk_list p) d \<and> dp_event_type p = e"
| "describes_packet n S _ _ \<longleftrightarrow> False"

lemma data_tree_mono: "data_tree n S cl d \<Longrightarrow> n \<le> n' \<Longrightarrow> S \<subseteq> S' \<Longrightarrow> data_tree n' S' cl d"
  unfolding data_tree_def by (meson less_le_trans tree_mono)

lemma chunk_data_tree:
  assumes "hash32 H"
  shows "\<exists>cl m' n. chunk_data H d m = Inr (cl, m') \<and> data_tree n (set m') cl d \<and> extends H m m'"
  using chunk_data_correct [OF assms, of d m] unfolding data_tree_def by blast

lemma try_split_to_Inr: "try_split_to n b = Inr (x, r) \<longleftrightarrow> b = x @ r \<and> length x = n"
  by (auto simp: try_split_to_def)

lemma header_decode_append:
  "gh_decode b = Inr (gh, r) \<Longrightarrow> gh_decode (b @ s) = Inr (gh, r @ s)"
  "fh_decode b = Inr (fh, r) \<Longrightarrow> fh_decode (b @ s) = Inr (fh, r @ s)"
  "dh_decode b = Inr (dh, r) \<Longrightarrow> dh_decode (b @ s) = Inr (dh, r @ s)"
  by (auto simp: gh_decode_def fh_decode_def dh_decode_def and_then_Inr_iff u8c.dec_enc u32c.dec_enc dest!: u8c.dec_sound u32c.dec_sound)

lemma nh_decode_append:
  assumes "nh_decode b = Inr (h, r)"
  shows "nh_decode (b @ s) = Inr (h, r @ s)"
proof -
  from assms obtain t b1 where t: "try_get_u64_le b = Inr (t, b1)" by (auto simp: nh_decode_def and_then_Inr_iff)
  then have "try_get_u64_le (b @ s) = Inr (t, b1 @ s)" using u64c.dec_sound [OF t] by (simp add: u64c.dec_enc)
  with assms t header_decode_append [of b1 _ r s] show ?thesis
    by (auto simp: nh_decode_def and_then_Inr_iff split: if_splits)
qed

lemma deconstruct_content:
  assumes "nh_deconstruct H lz4 h b m = Inr (p, m')"
  shows "\<exists>c. header_content lz4 h b = Inr c"
  using assms
  by (auto simp: nh_deconstruct_def gp_deconstruct_def fp_deconstruct_def dp_deconstruct_def deconstruct_lz4_data_def header_content_def
      and_then_Inr_iff split: nebula_packet_header.splits)

lemma header_content_terrain:
  "header_content lz4 h b = Inr c \<Longrightarrow> case c of FactoryContent _ _ t \<Rightarrow> length t < 2 ^ 32 | _ \<Rightarrow> True"
proof -
  have "unat k < 4294967296" for k :: u32 using unsigned_less [of k, where 'a = nat] by simp
  then show "header_content lz4 h b = Inr c \<Longrightarrow> ?thesis"
    by (auto simp: header_content_def and_then_Inr_iff try_split_to_Inr split: nebula_packet_header.splits)
qed

lemma deconstruct_describes:
  assumes "hash32 H" "header_content lz4 h b = Inr c"
  shows "\<exists>p m n. nh_deconstruct H lz4 h b [] = Inr (p, m) \<and> describes_packet n (set m) p c \<and> extends H [] m"
proof (cases h)
  case (GlobalGameDataHeader g)
  with assms(2) obtain x r d where 1: "try_split_to (unat (gh_data_length g)) b = Inr (x, r)" "lz4 x = Inr d" "c = GameContent (gh_data_type g) d"
    by (auto simp: header_content_def and_then_Inr_iff)
  obtain cl m n where "chunk_data H d [] = Inr (cl, m)" "data_tree n (set m) cl d" "extends H [] m"
    using chunk_data_tree [OF assms(1)] by blast
  with 1 GlobalGameDataHeader show ?thesis
    by (auto simp: nh_deconstruct_def gp_deconstruct_def deconstruct_lz4_data_def intro!: exI [of _ n])
next
  case (DysonSphereDataHeader g)
  with assms(2) obtain x r d e r' where 1: "try_split_to (unat (dh_data_length g)) b = Inr (x, r)" "lz4 x = Inr d"
    "try_get_u32_le r = Inr (e, r')" "c = SphereContent (dh_star_index g) d e"
    by (auto simp: header_content_def and_then_Inr_iff)
  obtain cl m n where "chunk_data H d [] = Inr (cl, m)" "data_tree n (set m) cl d" "extends H [] m"
    using chunk_data_tree [OF assms(1)] by blast
  with 1 DysonSphereDataHeader show ?thesis
    by (auto simp: nh_deconstruct_def dp_deconstruct_def deconstruct_lz4_data_def intro!: exI [of _ n])
next
  case (FactoryDataHeader g)
  with assms(2) obtain x r d k r' t r'' where 1: "try_split_to (unat (fh_data_length g)) b = Inr (x, r)" "lz4 x = Inr d"
    "try_get_u32_le r = Inr (k, r')" "try_split_to (unat k) r' = Inr (t, r'')" "c = FactoryContent (fh_planet_id g) d t"
    by (auto simp: header_content_def and_then_Inr_iff)
  obtain cl m n where 2: "chunk_data H d [] = Inr (cl, m)" "data_tree n (set m) cl d" "extends H [] m"
    using chunk_data_tree [OF assms(1)] by blast
  obtain cl' m' n' where 3: "chunk_data H t m = Inr (cl', m')" "data_tree n' (set m') cl' t" "extends H m m'"
    using chunk_data_tree [OF assms(1)] by blast
  have "data_tree (max n n') (set m') cl d" "data_tree (max n n') (set m') cl' t"
    using data_tree_mono [OF 2(2), of "max n n'" "set m'"] data_tree_mono [OF 3(2), of "max n n'" "set m'"] extends_subset [OF 3(3)] by auto
  moreover have "k = of_nat (length t)" using 1(4) by (simp add: try_split_to_Inr)
  ultimately show ?thesis using 1 2 3 extends_trans [OF 2(3) 3(3)] FactoryDataHeader
    by (auto simp: nh_deconstruct_def fp_deconstruct_def deconstruct_lz4_data_def intro!: exI [of _ "max n n'"])
qed

section \<open>The rebuilt packet\<close>

lemma frame_len_announced:
  assumes "length (lz_frame xxh32 d) < 2 ^ 32"
  shows "u32_try_from (framed_size (of_nat (length d))) = Inr (frame_len xxh32 d)"
proof -
  have "unat (framed_size (of_nat (length d))) = length (lz_frame xxh32 d)"
    using assms by (subst framed_size_fits) (simp_all add: length_lz_frame)
  with assms show ?thesis
    by (simp add: u32_try_from_def frame_len_def word_unat_eq_iff unsigned_ucast_eq unat_of_nat take_bit_nat_eq_self)
qed

lemma frame_len_refused:
  assumes "2 ^ 32 \<le> length (lz_frame xxh32 d)" "2 * length d + 64000 < 2 ^ 64"
  shows "\<exists>e. u32_try_from (framed_size (of_nat (length d))) = Inl (Anyhow e)"
  using assms(1) framed_size_fits [OF assms(2)] by (simp add: u32_try_from_def length_lz_frame)

lemma content_fits_frame: "content_fits c \<Longrightarrow> length (lz_frame xxh32 (content_data c)) < 2 ^ 32"
  by (simp add: content_fits_def length_lz_frame)

lemma out_send_open [simp]: "out_send (\<lambda>_. True) b (sent, s) = Some (Inr (), sent @ [b], s)"
  by (simp add: out_send_def send_def)

lemma packet_bytes_content:
  assumes "lz4_ok xxh32 block lz4" "content_fits c"
  shows "packet_content lz4 (packet_bytes xxh32 c) = Inr c"
proof -
  let ?f = "lz_frame xxh32 (content_data c)"
  have "lz4 ?f = Inr (content_data c)"
    using assms(1) lz4_decode_frame [of xxh32 block "content_data c" "[]"] by (simp add: lz4_ok_def)
  moreover have "unat (frame_len xxh32 (content_data c)) = length ?f"
    using content_fits_frame [OF assms(2)] by (simp add: frame_len_def unat_of_nat)
  ultimately show ?thesis
    using assms(2) packet_ids
    by (cases c) (simp_all add: packet_content_def nh_decode_def header_content_def gh_decode_def fh_decode_def dh_decode_def
        u64c.dec_enc u32c.dec_enc u8c.dec_enc u32c.dec_enc [of _ "[]", simplified] try_split_to_def content_fits_def unat_of_nat)
qed

context chunk_source
begin

lemma reconstruct_head_ok:
  assumes "data_tree n stored cl d" "ready s P" "Suc n < fuel"
  shows "\<exists>sent s' P'. reconstruct_lz4_data fuel xxh32 prov (\<lambda>_. True) cl ([h], s) = Some (Inr (), sent, s') \<and>
    ready s' P' \<and> concat sent = h @ lz_frame xxh32 d"
  using assms reconstruct_lz4_ok [OF _ assms(2), of _ cl "chunks_of d" fuel xxh32 "[h]"] concat_chunks_of [of d]
  by (fastforce simp: data_tree_def)

lemma reconstruct_tail_ok:
  assumes "data_tree n stored cl d" "ready s P" "Suc n < fuel"
  shows "\<exists>s' P'. reconstruct_raw_data fuel prov (\<lambda>_. True) cl (sent, s) = Some (Inr (), sent @ chunks_of d, s') \<and> ready s' P'"
  using assms reconstruct_raw_ok [of _ cl "chunks_of d" s P fuel sent] by (auto simp: data_tree_def)

lemma reconstruct_packet_ok:
  assumes p: "describes_packet n stored p c" "content_fits c" and s: "ready s P" "Suc n < fuel"
  shows "\<exists>sent s' P'. np_reconstruct fuel xxh32 prov (\<lambda>_. True) p ([], s) = Some (Inr (), sent, s') \<and>
    ready s' P' \<and> concat sent = packet_bytes xxh32 c"
proof -
  note fits = frame_len_announced [OF content_fits_frame [OF p(2), of xxh32]]
  show ?thesis
  proof (cases c)
    case (GameContent t d)
    with p(1) obtain g where g: "p = GlobalGameData g" by (cases p) auto
    let ?h = "put_u64_le GAME_DATA_PACKET_ID @ put_u8 t @ put_u32_le (frame_len xxh32 d)"
    have "data_tree n stored (gp_data_chunk_list g) d" using p(1) GameContent g by simp
    from reconstruct_head_ok [OF this s, of xxh32 ?h] fits p(1) GameContent g show ?thesis
      by (auto simp: np_reconstruct_def gp_reconstruct_def)
  next
    case (SphereContent i d e)
    with p(1) obtain g where g: "p = DysonSphereData g" by (cases p) auto
    let ?h = "put_u64_le DYSON_SPHERE_DATA_PACKET_ID @ put_u32_le i @ put_u32_le (frame_len xxh32 d)"
    have "data_tree n stored (dp_data_chunk_list g) d" using p(1) SphereContent g by simp
    from reconstruct_head_ok [OF this s, of xxh32 ?h] fits p(1) SphereContent g show ?thesis
      by (auto simp: np_reconstruct_def dp_reconstruct_def)
  next
    case (FactoryContent i d t)
    with p(1) obtain g where g: "p = FactoryData g" by (cases p) auto
    let ?h = "put_u64_le FACTORY_DATA_PACKET_ID @ put_u32_le i @ put_u32_le (frame_len xxh32 d)"
    have dt: "data_tree n stored (fp_data_chunk_list g) d" "data_tree n stored (fp_terrain_data_chunk_list g) t"
      using p(1) FactoryContent g by simp_all
    obtain sent s1 P1 where 1: "reconstruct_lz4_data fuel xxh32 prov (\<lambda>_. True) (fp_data_chunk_list g) ([?h], s) = Some (Inr (), sent, s1)"
      "ready s1 P1" "concat sent = ?h @ lz_frame xxh32 d"
      using reconstruct_head_ok [OF dt(1) s, of xxh32 ?h] by blast
    from reconstruct_tail_ok [OF dt(2) 1(2) s(2), of "sent @ [put_u32_le (of_nat (length t))]"]
      1 fits p(1) FactoryContent g concat_chunks_of [of t] show ?thesis
      by (auto simp: np_reconstruct_def fp_reconstruct_def)
  qed
qed

end

section \<open>Properties\<close>

text \<open>
  C8. A packet survives deduplication: every packet of the three kinds whose content can be read, cut or not after it, is
  taken apart, and what is rebuilt from the description and the chunks is a packet with the same content: the same kind, the same
  fields, data that decompresses to the same bytes, and a header that announces its length exactly. The packet is refused, before
  anything is sent, when its new frame would be too long for the header. The traversals end.
\<close>

theorem nebula_packet_roundtrip:
  assumes "hash32 H" "lz4_ok xxh32 block lz4" "packet_content lz4 b = Inr c" "2 * length (content_data c) + 64000 < 2 ^ 64"
  shows "\<exists>h r p m. nh_decode b = Inr (Some h, r) \<and> nh_deconstruct H lz4 h r [] = Inr (p, m) \<and>
    (inj_on H (snd ` set m) \<longrightarrow>
      (if length (lz_frame xxh32 (content_data c)) < 2 ^ 32
       then \<exists>n. \<forall>fuel > n. \<exists>sent. np_reconstruct fuel xxh32 map_provider (\<lambda>_. True) p ([], m) = Some (Inr (), sent, m) \<and>
         packet_content lz4 (concat sent) = Inr c
       else \<exists>e. \<forall>fuel. np_reconstruct fuel xxh32 map_provider (\<lambda>_. True) p ([], m) = Some (Inl (Anyhow e), [], m)))"
proof -
  from assms(3) obtain h r where 1: "nh_decode b = Inr (Some h, r)" "header_content lz4 h r = Inr c"
    by (auto simp: packet_content_def and_then_Inr_iff split: option.splits)
  from deconstruct_describes [OF assms(1) 1(2)] obtain p m n where
    2: "nh_deconstruct H lz4 h r [] = Inr (p, m)" "describes_packet n (set m) p c" "extends H [] m" by blast
  have terrain: "case c of FactoryContent _ _ t \<Rightarrow> length t < 2 ^ 32 | _ \<Rightarrow> True"
    by (rule header_content_terrain [OF 1(2)])
  have "\<exists>n. \<forall>fuel > n. \<exists>sent. np_reconstruct fuel xxh32 map_provider (\<lambda>_. True) p ([], m) = Some (Inr (), sent, m) \<and>
         packet_content lz4 (concat sent) = Inr c"
    if inj: "inj_on H (snd ` set m)" and len: "length (lz_frame xxh32 (content_data c)) < 2 ^ 32"
  proof -
    have fits: "content_fits c" using len terrain by (simp add: content_fits_def length_lz_frame)
    have "describes_packet n (hm.stored m) p c"
      using 2(2) store_lookup [OF extends_addressed [OF 2(3)] inj] by (simp add: hm.stored_def addressed_def)
    from hm.reconstruct_packet_ok [OF this fits, of m "{}"] packet_bytes_content [OF assms(2) fits] show ?thesis
      by (intro exI [of _ "Suc n"]) fastforce
  qed
  moreover have "\<exists>e. \<forall>fuel. np_reconstruct fuel xxh32 map_provider (\<lambda>_. True) p ([], m) = Some (Inl (Anyhow e), [], m)"
    if "\<not> length (lz_frame xxh32 (content_data c)) < 2 ^ 32"
    using frame_len_refused [of xxh32 "content_data c"] that assms(4) 2(2)
    by (cases p; cases c) (auto simp: np_reconstruct_def gp_reconstruct_def fp_reconstruct_def dp_reconstruct_def)
  ultimately show ?thesis using 1(1) 2(1) by auto
qed

text \<open>A decoder that reads the frame format, and a packet.\<close>

definition frame_lz4 :: "xxh32 \<Rightarrow> (bytes \<Rightarrow> bytes res) \<Rightarrow> lz4_decoder" where
  "frame_lz4 xxh32 block b = and_then (lz4_decode xxh32 block b) (\<lambda>(d, r). if r = [] then Inr d else Inl (Anyhow ''trailing data''))"

lemma frame_lz4_ok: "lz4_ok xxh32 block (frame_lz4 xxh32 block)"
  by (simp add: lz4_ok_def frame_lz4_def)

abbreviation "sample_header \<equiv> GlobalGameDataHeader \<lparr> gh_data_type = 5, gh_data_length = frame_len sum_xxh [1, 2, 3] \<rparr>"
abbreviation "sample_description \<equiv> GlobalGameData \<lparr> gp_data_type = 5, gp_data_uncompressed_length = 3,
  gp_data_chunk_list = \<lparr> cl_is_leaf = True, cl_chunks = [pad_hash [1, 2, 3]] \<rparr> \<rparr>"

lemma sample_fits: "content_fits (GameContent 5 [1, 2, 3])"
  by (simp add: content_fits_def)

lemma sample_packet:
  "nh_decode (packet_bytes sum_xxh (GameContent 5 [1, 2, 3])) = Inr (Some sample_header, lz_frame sum_xxh [1, 2, 3])"
  "nh_deconstruct pad_hash (frame_lz4 sum_xxh Inr) sample_header (lz_frame sum_xxh [1, 2, 3]) [] =
     Inr (sample_description, [(pad_hash [1, 2, 3], [1, 2, 3])])"
proof -
  show "nh_decode (packet_bytes sum_xxh (GameContent 5 [1, 2, 3])) = Inr (Some sample_header, lz_frame sum_xxh [1, 2, 3])"
    by (simp add: nh_decode_def gh_decode_def u64c.dec_enc u32c.dec_enc u8c.dec_enc)
  have "length (lz_frame sum_xxh [1, 2, 3]) = 22" by (simp add: length_lz_frame)
  then have "try_split_to (unat (frame_len sum_xxh [1, 2, 3])) (lz_frame sum_xxh [1, 2, 3]) = Inr (lz_frame sum_xxh [1, 2, 3], [])"
    by (simp add: try_split_to_def frame_len_def)
  moreover have "frame_lz4 sum_xxh Inr (lz_frame sum_xxh [1, 2, 3]) = Inr [1, 2, 3]"
    using lz4_decode_frame [of sum_xxh Inr "[1, 2, 3]" "[]"] by (simp add: frame_lz4_def)
  ultimately show "nh_deconstruct pad_hash (frame_lz4 sum_xxh Inr) sample_header (lz_frame sum_xxh [1, 2, 3]) [] =
     Inr (sample_description, [(pad_hash [1, 2, 3], [1, 2, 3])])"
    by (simp add: nh_deconstruct_def gp_deconstruct_def deconstruct_lz4_data_def chunk_data_example)
qed

theorem nebula_packet_roundtrip_witness:
  "\<exists>n. \<forall>fuel > n. \<exists>sent. np_reconstruct fuel sum_xxh map_provider (\<lambda>_. True) sample_description ([], [(pad_hash [1, 2, 3], [1, 2, 3])]) =
     Some (Inr (), sent, [(pad_hash [1, 2, 3], [1, 2, 3])]) \<and>
   packet_content (frame_lz4 sum_xxh Inr) (concat sent) = Inr (GameContent 5 [1, 2, 3])"
proof -
  have "length (lz_frame sum_xxh (content_data (GameContent 5 [1, 2, 3]))) < 2 ^ 32" by (simp add: length_lz_frame)
  moreover have "2 * length (content_data (GameContent 5 [1, 2, 3])) + 64000 < 2 ^ 64" by simp
  note nebula_packet_roundtrip [OF hash32_pad_hash frame_lz4_ok packet_bytes_content [OF frame_lz4_ok sample_fits, of sum_xxh Inr] this]
  ultimately show ?thesis by (simp add: sample_packet [unfolded packet_bytes.simps])
qed

end
