(* ===== verification/Nebula_Proxy.thy ===== *)
theory Nebula_Proxy
  imports Nebula_Protocol Protocol_Utils
begin

text \<open>
  The two proxies of the Nebula cacher (\<^verbatim>\<open>dsp-nebula-cacher/src/proxy\<close>).

  \<^item> \<^verbatim>\<open>fastwebsockets\<close> is seen through its frames: a reader is the frames \<^verbatim>\<open>read_frame\<close> returns in turn and the error it ends
    with; a writer is the list of frames written, and \<open>ws_open\<close> tells from it whether the next write succeeds.
  \<^item> Opening a QUIC stream for a deduplicated packet, which writes its id, and accepting one, which reads it, are the parameters
    \<open>open_bi\<close> and \<open>accepted\<close>: the streams behind the id.
  \<^item> What the task that rebuilds a packet sends to the copying task is the parameter \<open>pieces\<close> of the client's copying loop;
    \<open>rebuilt\<close> ties it to \<open>reconstruct_packet\<close> connected to the server's task.
  \<^item> Logging and the statistics for it are not modelled.
\<close>

section \<open>Definitions\<close>

subsection \<open>Frames\<close>

datatype op_code = Continuation | Text | Binary | Close | Ping | Pong

record ws_frame =
  fin :: bool
  opcode :: op_code
  payload :: bytes

datatype web_socket_error = ConnectionClosed | UnexpectedEOF | OtherError string

record web_socket_read =
  rd_frames :: "ws_frame list"
  rd_end :: web_socket_error

definition read_frame :: "web_socket_read \<Rightarrow> (web_socket_error + ws_frame) \<times> web_socket_read" where
  "read_frame r = (case rd_frames r of [] \<Rightarrow> (Inl (rd_end r), r) | f # fs \<Rightarrow> (Inr f, r\<lparr> rd_frames := fs \<rparr>))"

definition ws_error :: "web_socket_error \<Rightarrow> error" where
  "ws_error e = Anyhow (case e of ConnectionClosed \<Rightarrow> ''Connection is closed'' | UnexpectedEOF \<Rightarrow> ''Unexpected EOF'' | OtherError s \<Rightarrow> s)"

type_synonym ws_write = "ws_frame list"

definition write_frame :: "(ws_write \<Rightarrow> bool) \<Rightarrow> ws_frame \<Rightarrow> ws_write \<Rightarrow> unit res \<times> ws_write" where
  "write_frame ws_open fr w = (if ws_open w then (Inr (), w @ [fr]) else (Inl (ws_error ConnectionClosed), w))"

subsection \<open>Both proxies\<close>

definition read_ws_frame :: "web_socket_read \<Rightarrow> ws_frame option res \<times> web_socket_read" where
  "read_ws_frame r =
     (case read_frame r of
        (Inr fr, r) \<Rightarrow> (Inr (Some fr), r)
      | (Inl e, r) \<Rightarrow> (if e = ConnectionClosed \<or> e = UnexpectedEOF then Inr None else Inl (ws_error e), r))"

lemma read_frame_shrinks: "read_frame r = (Inr f, r') \<Longrightarrow> length (rd_frames r') < length (rd_frames r)"
  by (auto simp: read_frame_def split: list.splits)

lemma read_ws_frame_shrinks: "read_ws_frame r = (Inr (Some f), r') \<Longrightarrow> length (rd_frames r') < length (rd_frames r)"
  by (auto simp: read_ws_frame_def dest!: read_frame_shrinks split: sum.splits prod.splits if_splits)

function copy_ws_to_ws :: "(ws_write \<Rightarrow> bool) \<Rightarrow> web_socket_read \<Rightarrow> ws_write \<Rightarrow> unit res \<times> ws_write" where
  "copy_ws_to_ws ws_open r w =
     (case read_ws_frame r of
        (Inl e, _) \<Rightarrow> (Inl e, w)
      | (Inr None, _) \<Rightarrow> (Inr (), w)
      | (Inr (Some fr), r') \<Rightarrow>
          (case write_frame ws_open fr w of
             (Inl e, w) \<Rightarrow> (Inl e, w)
           | (Inr _, w) \<Rightarrow> copy_ws_to_ws ws_open r' w))"
  by pat_completeness auto
termination
  by (relation "measure (\<lambda>(ws_open, r, w). length (rd_frames r))") (auto dest: read_ws_frame_shrinks [OF sym])

declare copy_ws_to_ws.simps [simp del]

subsection \<open>The server's proxy\<close>

text \<open>
  The streams that are waited for, by id: \<open>'w\<close> stands for the \<^verbatim>\<open>oneshot\<close> sender, which belongs to the waiting task.
\<close>

record 'w nebula_server =
  next_dedup_stream_id :: u64
  pending_dedup_streams :: "u64 \<Rightarrow> 'w option"

definition ns_new :: "'w nebula_server" where
  "ns_new = \<lparr> next_dedup_stream_id = 1, pending_dedup_streams = (\<lambda>_. None) \<rparr>"

datatype 'w accepted_stream = NewPeer | HandedTo 'w

definition accept_stream :: "u64 \<Rightarrow> 'w nebula_server \<Rightarrow> 'w accepted_stream res \<times> 'w nebula_server" where
  "accept_stream stream_id s =
     (if stream_id = 0 then (Inr NewPeer, s)
      else case pending_dedup_streams s stream_id of
             None \<Rightarrow> (Inl (Anyhow ''Client sent dedup stream with unknown id''), s)
           | Some tx \<Rightarrow> (Inr (HandedTo tx), s\<lparr> pending_dedup_streams := (pending_dedup_streams s)(stream_id := None) \<rparr>))"

definition register_stream :: "'w \<Rightarrow> 'w nebula_server \<Rightarrow> u64 \<times> 'w nebula_server" where
  "register_stream tx s =
     (let stream_id = next_dedup_stream_id s
      in (stream_id, \<lparr> next_dedup_stream_id = stream_id + 1,
            pending_dedup_streams = (pending_dedup_streams s)(stream_id \<mapsto> tx) \<rparr>))"

definition MINIMUM_DEDUP_SIZE :: nat where "MINIMUM_DEDUP_SIZE = 128 * 1024"

text \<open>
  The rest of a fragmented packet. \<open>None\<close>: a new message started, and was forwarded.
\<close>

function collect_packet ::
  "(ws_write \<Rightarrow> bool) \<Rightarrow> bytes \<Rightarrow> web_socket_read \<Rightarrow> ws_write \<Rightarrow> bytes option res \<times> web_socket_read \<times> ws_write" where
  "collect_packet ws_open packet_data r w =
     (case read_frame r of
        (Inl e, r) \<Rightarrow> (Inl (ws_error e), r, w)
      | (Inr fr, r') \<Rightarrow>
          (if opcode fr = Continuation then
             (let packet_data = packet_data @ payload fr
              in if fin fr then (Inr (Some packet_data), r', w) else collect_packet ws_open packet_data r' w)
           else
             (case write_frame ws_open fr w of
                (Inl e, w) \<Rightarrow> (Inl e, r', w)
              | (Inr _, w) \<Rightarrow>
                  (if opcode fr = Binary \<or> opcode fr = Text then (Inr None, r', w)
                   else collect_packet ws_open packet_data r' w))))"
  by pat_completeness auto
termination
  by (relation "measure (\<lambda>(ws_open, d, r, w). length (rd_frames r))") (auto dest: read_frame_shrinks [OF sym])

declare collect_packet.simps [simp del]

text \<open>A deduplicated packet: its header and data, and what there is to serve for it.\<close>

record dedup_task =
  dt_header :: nebula_packet_header
  dt_data :: bytes
  dt_id :: u64
  dt_description :: deduped_packet_description
  dt_chunks :: chunk_store

definition serve_packet ::
  "nat \<Rightarrow> messages \<Rightarrow> deduped_packet_description serde \<Rightarrow> 'n stream_io \<Rightarrow> dedup_task \<Rightarrow> 'n \<Rightarrow> (nat res \<times> 'n) option" where
  "serve_packet fuel m pd io t streams =
     (case encode_message (m_zstd m) pd (m_transport m) (dt_description t) of
        Inl e \<Rightarrow> Some (Inl e, streams)
      | Inr message_data \<Rightarrow>
          (case write_message io message_data streams of
             (Inl e, streams) \<Rightarrow> Some (Inl e, streams)
           | (Inr _, streams) \<Rightarrow> provide_chunks_as_requested fuel io m (dt_chunks t) (length message_data) streams))"

text \<open>
  The state of a peer's task: the two websockets, the shared ids, and the packets served, in order. \<open>accepted\<close> gives the streams
  the client opens for an id, or \<open>None\<close> when the sender is dropped.
\<close>

record server_copy =
  sc_read :: web_socket_read
  sc_write :: ws_write
  sc_shared :: "unit nebula_server"
  sc_tasks :: "dedup_task list"

record 'n server_env =
  se_hash :: hash_fun
  se_lz4 :: lz4_decoder
  se_messages :: messages
  se_description :: "deduped_packet_description serde"
  se_io :: "'n stream_io"
  se_accepted :: "u64 \<Rightarrow> 'n option"
  se_open :: "ws_write \<Rightarrow> bool"

definition indicator_frame :: "u64 \<Rightarrow> ws_frame" where
  "indicator_frame stream_id = \<lparr> fin = True, opcode = Binary, payload = sd_encode \<lparr> dedup_id = stream_id \<rparr> \<rparr>"

definition announce_packet ::
  "'n server_env \<Rightarrow> nebula_packet_header \<Rightarrow> bytes \<Rightarrow> server_copy \<Rightarrow> dedup_task res \<times> server_copy" where
  "announce_packet E packet_header packet_data s =
     (case nh_deconstruct (se_hash E) (se_lz4 E) packet_header packet_data [] of
        Inl e \<Rightarrow> (Inl e, s)
      | Inr (packet, all_chunks) \<Rightarrow>
          (let (stream_id, shared) = register_stream () (sc_shared s);
               t = \<lparr> dt_header = packet_header, dt_data = packet_data, dt_id = stream_id,
                     dt_description = \<lparr> pd_packet = packet, pd_original_packet_size = of_nat (length packet_data) \<rparr>,
                     dt_chunks = all_chunks \<rparr>
           in case write_frame (se_open E) (indicator_frame stream_id) (sc_write s) of
                (Inl e, w) \<Rightarrow> (Inl e, s\<lparr> sc_shared := shared, sc_write := w \<rparr>)
              | (Inr _, w) \<Rightarrow> (Inr t, s\<lparr> sc_shared := shared, sc_write := w, sc_tasks := sc_tasks s @ [t] \<rparr>)))"

text \<open>The rest of \<^verbatim>\<open>dedup_packet\<close>, once the packet has been read.\<close>

definition dedup_rest ::
  "nat \<Rightarrow> 'n server_env \<Rightarrow> nebula_packet_header \<Rightarrow> bytes option res \<Rightarrow> server_copy \<Rightarrow> (unit res \<times> server_copy) option" where
  "dedup_rest fuel E packet_header collected s =
     (case collected of
        Inl e \<Rightarrow> Some (Inl e, s)
      | Inr None \<Rightarrow> Some (Inr (), s)
      | Inr (Some packet_data) \<Rightarrow>
          (case announce_packet E packet_header packet_data s of
             (Inl e, s) \<Rightarrow> Some (Inl e, s)
           | (Inr t, s) \<Rightarrow>
               (case se_accepted E (dt_id t) of
                  None \<Rightarrow> Some (Inl (Anyhow ''channel closed''), s)
                | Some streams \<Rightarrow>
                    (case serve_packet fuel (se_messages E) (se_description E) (se_io E) t streams of
                       None \<Rightarrow> None
                     | Some (Inl e, _) \<Rightarrow> Some (Inl e, s)
                     | Some (Inr _, _) \<Rightarrow> Some (Inr (), s)))))"

definition dedup_packet ::
  "nat \<Rightarrow> 'n server_env \<Rightarrow> nebula_packet_header \<Rightarrow> bytes \<Rightarrow> bool \<Rightarrow> server_copy \<Rightarrow> (unit res \<times> server_copy) option" where
  "dedup_packet fuel E packet_header initial_data was_first_frame_final s =
     (case (if was_first_frame_final then (Inr (Some initial_data), sc_read s, sc_write s)
            else collect_packet (se_open E) initial_data (sc_read s) (sc_write s)) of
        (collected, r, w) \<Rightarrow> dedup_rest fuel E packet_header collected (s\<lparr> sc_read := r, sc_write := w \<rparr>))"

text \<open>The packet that a frame starts, when it is one to deduplicate, and what follows its header in the frame.\<close>

definition dedup_start :: "ws_frame \<Rightarrow> (nebula_packet_header \<times> bytes) option" where
  "dedup_start fr =
     (if opcode fr = Binary \<or> opcode fr = Text then
        (case nh_decode (payload fr) of
           Inr (Some packet_header, frame_data) \<Rightarrow>
             (if MINIMUM_DEDUP_SIZE < nh_approx_size packet_header then Some (packet_header, frame_data) else None)
         | _ \<Rightarrow> None)
      else None)"

text \<open>The readers by the frames that are left.\<close>

lemma read_frame_simps [simp]:
  "read_frame \<lparr> rd_frames = [], rd_end = e \<rparr> = (Inl e, \<lparr> rd_frames = [], rd_end = e \<rparr>)"
  "read_frame \<lparr> rd_frames = f # fs, rd_end = e \<rparr> = (Inr f, \<lparr> rd_frames = fs, rd_end = e \<rparr>)"
  by (simp_all add: read_frame_def)

lemma read_ws_frame_simps [simp]:
  "read_ws_frame \<lparr> rd_frames = [], rd_end = e \<rparr> =
     (if e = ConnectionClosed \<or> e = UnexpectedEOF then Inr None else Inl (ws_error e), \<lparr> rd_frames = [], rd_end = e \<rparr>)"
  "read_ws_frame \<lparr> rd_frames = f # fs, rd_end = e \<rparr> = (Inr (Some f), \<lparr> rd_frames = fs, rd_end = e \<rparr>)"
  by (simp_all add: read_ws_frame_def)

lemma collect_packet_Nil [simp]:
  "collect_packet ws_open d \<lparr> rd_frames = [], rd_end = e \<rparr> w = (Inl (ws_error e), \<lparr> rd_frames = [], rd_end = e \<rparr>, w)"
  by (simp add: collect_packet.simps)

lemmas collect_packet_Cons = collect_packet.simps [of _ _ "\<lparr> rd_frames = f # fs, rd_end = e \<rparr>" for f fs e, simplified]

lemma collect_packet_reads:
  "collect_packet ws_open d \<lparr> rd_frames = fs, rd_end = e \<rparr> w = (x, r', w') \<Longrightarrow>
    \<exists>gs. r' = \<lparr> rd_frames = gs, rd_end = e \<rparr> \<and> length gs \<le> length fs"
proof (induction fs arbitrary: d w)
  case (Cons f fs)
  then show ?case
    by (force simp: collect_packet_Cons Let_def split: if_splits sum.splits prod.splits intro: le_SucI)
qed auto

lemma collect_packet_shrinks: "collect_packet ws_open d r w = (x, r', w') \<Longrightarrow> length (rd_frames r') \<le> length (rd_frames r)"
  by (cases r) (auto dest: collect_packet_reads)

lemma announce_packet_read: "announce_packet E h d s = (x, s') \<Longrightarrow> sc_read s' = sc_read s"
  by (auto simp: announce_packet_def Let_def split: sum.splits prod.splits)

lemma dedup_packet_shrinks:
  assumes "dedup_packet fuel E h d final s = Some (x, s')"
  shows "length (rd_frames (sc_read s')) \<le> length (rd_frames (sc_read s))"
  using assms
  by (auto simp: dedup_packet_def dedup_rest_def split: if_splits sum.splits prod.splits option.splits dest!: announce_packet_read collect_packet_shrinks)

function server_copy_with_dedup :: "nat \<Rightarrow> 'n server_env \<Rightarrow> server_copy \<Rightarrow> (unit res \<times> server_copy) option" where
  "server_copy_with_dedup fuel E s =
     (case read_ws_frame (sc_read s) of
        (Inl e, r) \<Rightarrow> Some (Inl e, s\<lparr> sc_read := r \<rparr>)
      | (Inr None, r) \<Rightarrow> Some (Inr (), s\<lparr> sc_read := r \<rparr>)
      | (Inr (Some fr), r) \<Rightarrow>
          (case dedup_start fr of
             Some (packet_header, frame_data) \<Rightarrow>
               (case dedup_packet fuel E packet_header frame_data (fin fr) (s\<lparr> sc_read := r \<rparr>) of
                  None \<Rightarrow> None
                | Some (Inl e, s') \<Rightarrow> Some (Inl e, s')
                | Some (Inr _, s') \<Rightarrow> server_copy_with_dedup fuel E s')
           | None \<Rightarrow>
               (case write_frame (se_open E) fr (sc_write s) of
                  (Inl e, w) \<Rightarrow> Some (Inl e, s\<lparr> sc_read := r, sc_write := w \<rparr>)
                | (Inr _, w) \<Rightarrow> server_copy_with_dedup fuel E (s\<lparr> sc_read := r, sc_write := w \<rparr>))))"
  by pat_completeness auto
termination
  by (relation "measure (\<lambda>(fuel, E, s). length (rd_frames (sc_read s)))")
    (auto dest!: read_ws_frame_shrinks [OF sym] dedup_packet_shrinks)

declare server_copy_with_dedup.simps [simp del]

subsection \<open>The client's proxy\<close>

fun forward_fragments ::
  "(ws_write \<Rightarrow> bool) \<Rightarrow> bool \<Rightarrow> bytes option \<Rightarrow> bytes list \<Rightarrow> ws_write \<Rightarrow> unit res \<times> ws_write" where
  "forward_fragments ws_open first_frame None [] w = (Inr (), w)"
| "forward_fragments ws_open first_frame (Some last_bytes) [] w =
     write_frame ws_open \<lparr> fin = True, opcode = (if first_frame then Binary else Continuation), payload = last_bytes \<rparr> w"
| "forward_fragments ws_open first_frame None (data # rest) w = forward_fragments ws_open first_frame (Some data) rest w"
| "forward_fragments ws_open first_frame (Some last_bytes) (data # rest) w =
     (case write_frame ws_open \<lparr> fin = False, opcode = (if first_frame then Binary else Continuation), payload = last_bytes \<rparr> w of
        (Inl e, w) \<Rightarrow> (Inl e, w)
      | (Inr _, w) \<Rightarrow> forward_fragments ws_open False (Some data) rest w)"

definition forward_deduped_fragments ::
  "(u64 \<Rightarrow> bytes list) \<Rightarrow> (ws_write \<Rightarrow> bool) \<Rightarrow> start_dedup_indicator \<Rightarrow> ws_write \<Rightarrow> unit res \<times> ws_write" where
  "forward_deduped_fragments pieces ws_open indicator w =
     forward_fragments ws_open True None (pieces (dedup_id indicator)) w"

definition indicator_of :: "ws_frame \<Rightarrow> start_dedup_indicator option" where
  "indicator_of fr = (if (opcode fr = Binary \<or> opcode fr = Text) \<and> fin fr then sd_decode (payload fr) else None)"

function client_copy_with_dedup ::
  "(u64 \<Rightarrow> bytes list) \<Rightarrow> (ws_write \<Rightarrow> bool) \<Rightarrow> web_socket_read \<Rightarrow> ws_write \<Rightarrow> unit res \<times> ws_write" where
  "client_copy_with_dedup pieces ws_open r w =
     (case read_ws_frame r of
        (Inl e, _) \<Rightarrow> (Inl e, w)
      | (Inr None, _) \<Rightarrow> (Inr (), w)
      | (Inr (Some fr), r') \<Rightarrow>
          (case (case indicator_of fr of
                   Some indicator \<Rightarrow> forward_deduped_fragments pieces ws_open indicator w
                 | None \<Rightarrow> write_frame ws_open fr w) of
             (Inl e, w) \<Rightarrow> (Inl e, w)
           | (Inr _, w) \<Rightarrow> client_copy_with_dedup pieces ws_open r' w))"
  by pat_completeness auto
termination
  by (relation "measure (\<lambda>(pieces, ws_open, r, w). length (rd_frames r))") (auto dest: read_ws_frame_shrinks [OF sym])

declare client_copy_with_dedup.simps [simp del]

definition reconstruct_packet ::
  "nat \<Rightarrow> 'm linked_map \<Rightarrow> hash_fun \<Rightarrow> xxh32 \<Rightarrow> messages \<Rightarrow> deduped_packet_description serde \<Rightarrow> 'n stream_io \<Rightarrow> 'm env \<Rightarrow>
    (bytes list \<Rightarrow> bool) \<Rightarrow> (u64 \<Rightarrow> 'n res) \<Rightarrow> u64 \<Rightarrow> 'm chunk_cache \<Rightarrow> (unit res \<times> bytes list \<times> 'm chunk_cache) option" where
  "reconstruct_packet fuel lm H xxh32 m pd io env chan_open open_bi dedup_stream_id cc =
     (case open_bi dedup_stream_id of
        Inl e \<Rightarrow> Some (Inl e, [], cc)
      | Inr streams \<Rightarrow>
          (case read_message io streams of
             (Inl e, _) \<Rightarrow> Some (Inl e, [], cc)
           | (Inr packet_desc_message_data, streams) \<Rightarrow>
               (case decode_message (m_zstd m) pd (m_transport m) packet_desc_message_data of
                  Inl e \<Rightarrow> Some (Inl e, [], cc)
                | Inr packet_desc \<Rightarrow>
                    (case np_reconstruct fuel xxh32 (fetcher_provider lm H m io env) chan_open (pd_packet packet_desc)
                            ([], cf_new cc streams) of
                       None \<Rightarrow> None
                     | Some (Inl e, sent, s) \<Rightarrow> Some (Inl e, sent, cf_cache s)
                     | Some (Inr _, sent, s) \<Rightarrow> (case mark_dirty (cf_cache s) of (r, cc) \<Rightarrow> Some (r, sent, cc))))))"

section \<open>Messages from frames\<close>

text \<open>
  What a websocket endpoint makes of frames: the message it is collecting and the messages it has completed. Control frames
  may stand anywhere.
\<close>

type_synonym message = "op_code \<times> bytes"
type_synonym assembly = "message option \<times> message list"

definition starts_message :: "ws_frame \<Rightarrow> bool" where
  "starts_message f \<longleftrightarrow> opcode f = Binary \<or> opcode f = Text"

definition is_control :: "ws_frame \<Rightarrow> bool" where
  "is_control f \<longleftrightarrow> opcode f = Close \<or> opcode f = Ping \<or> opcode f = Pong"

definition assemble :: "ws_frame \<Rightarrow> assembly \<Rightarrow> assembly" where
  "assemble f a = (case a of (part, msgs) \<Rightarrow>
     if starts_message f then
       (if fin f then (None, msgs @ [(opcode f, payload f)]) else (Some (opcode f, payload f), msgs))
     else if opcode f = Continuation then
       (case part of
          None \<Rightarrow> (None, msgs)
        | Some (op, d) \<Rightarrow> if fin f then (None, msgs @ [(op, d @ payload f)]) else (Some (op, d @ payload f), msgs))
     else (part, msgs))"

definition ws_messages :: "ws_frame list \<Rightarrow> message list" where
  "ws_messages fs = snd (fold assemble fs (None, []))"

definition ws_controls :: "ws_frame list \<Rightarrow> ws_frame list" where
  "ws_controls fs = filter is_control fs"

lemma ws_controls_simps [simp]: "ws_controls [] = []" "ws_controls (f # fs) = (if is_control f then f # ws_controls fs else ws_controls fs)"
  "ws_controls (fs @ gs) = ws_controls fs @ ws_controls gs"
  by (simp_all add: ws_controls_def)

lemma control_cases: "is_control f \<longleftrightarrow> \<not> starts_message f \<and> opcode f \<noteq> Continuation"
  by (cases "opcode f") (auto simp: is_control_def starts_message_def)

lemma assemble_control [simp]: "is_control f \<Longrightarrow> assemble f a = a"
  by (cases a) (simp add: assemble_def control_cases)

lemma assemble_start: "starts_message f \<Longrightarrow> assemble f (part, msgs) = assemble f (part', msgs)"
  by (simp add: assemble_def)

lemma fold_assemble_grows: "\<exists>more. snd (fold assemble fs a) = snd a @ more"
proof (induction fs arbitrary: a)
  case (Cons f fs)
  have "\<exists>more. snd (assemble f a) = snd a @ more"
    by (cases a) (auto simp: assemble_def split: option.splits)
  with Cons.IH [of "assemble f a"] show ?case by auto
qed simp

lemma fold_assemble_controls [simp]: "list_all is_control fs \<Longrightarrow> fold assemble fs a = a"
  by (induction fs) simp_all

subsection \<open>What the client writes\<close>

primrec fragments :: "bool \<Rightarrow> bytes list \<Rightarrow> ws_frame list" where
  "fragments first_frame [] = []"
| "fragments first_frame (d # ds) =
     \<lparr> fin = (ds = []), opcode = (if first_frame then Binary else Continuation), payload = d \<rparr> # fragments False ds"

definition deliver :: "(u64 \<Rightarrow> bytes list) \<Rightarrow> ws_frame list \<Rightarrow> ws_frame list" where
  "deliver pieces fs = concat (map (\<lambda>fr. case indicator_of fr of
     Some i \<Rightarrow> fragments True (pieces (dedup_id i)) | None \<Rightarrow> [fr]) fs)"

lemma deliver_simps [simp]:
  "deliver pieces [] = []"
  "indicator_of f = None \<Longrightarrow> deliver pieces (f # fs) = f # deliver pieces fs"
  "indicator_of f = Some i \<Longrightarrow> deliver pieces (f # fs) = fragments True (pieces (dedup_id i)) @ deliver pieces fs"
  "deliver pieces (fs @ gs) = deliver pieces fs @ deliver pieces gs"
  by (simp_all add: deliver_def)

lemma write_frame_simps:
  "write_frame ws_open f w = (r, w') \<longleftrightarrow>
     (if ws_open w then r = Inr () \<and> w' = w @ [f] else r = Inl (ws_error ConnectionClosed) \<and> w' = w)"
  by (auto simp: write_frame_def)

lemma forward_fragments_prefix:
  "forward_fragments ws_open first_frame lb ds w = (r, w') \<Longrightarrow>
    \<exists>zs. w' @ zs = w @ fragments first_frame ((case lb of None \<Rightarrow> [] | Some b \<Rightarrow> [b]) @ ds) \<and> (r = Inr () \<longrightarrow> zs = [])"
proof (induction ws_open first_frame lb ds w rule: forward_fragments.induct)
  case (4 ws_open first_frame b d ds w)
  then show ?case
    by (cases "ws_open w") (auto simp: write_frame_def)
qed (auto simp: write_frame_simps split: if_splits)

lemma client_copy_prefix:
  "client_copy_with_dedup pieces ws_open \<lparr> rd_frames = fs, rd_end = e \<rparr> w = (r, w') \<Longrightarrow>
    \<exists>zs. w' @ zs = w @ deliver pieces fs \<and> (r = Inr () \<longrightarrow> zs = [])"
proof (induction fs arbitrary: w)
  case Nil
  then show ?case by (auto simp: client_copy_with_dedup.simps split: if_splits)
next
  case (Cons f fs)
  let ?step = "case indicator_of f of Some i \<Rightarrow> forward_deduped_fragments pieces ws_open i w | None \<Rightarrow> write_frame ws_open f w"
  obtain r1 w1 where step: "?step = (r1, w1)" by fastforce
  have "\<exists>zs. w1 @ zs = w @ deliver pieces [f] \<and> (r1 = Inr () \<longrightarrow> zs = [])"
  proof (cases "indicator_of f")
    case None
    with step show ?thesis by (auto simp: write_frame_simps split: if_splits)
  next
    case (Some i)
    with step have "forward_fragments ws_open True None (pieces (dedup_id i)) w = (r1, w1)"
      by (simp add: forward_deduped_fragments_def)
    from forward_fragments_prefix [OF this] Some show ?thesis by simp
  qed
  then obtain zs where zs: "w1 @ zs = w @ deliver pieces [f]" "r1 = Inr () \<Longrightarrow> zs = []" by blast
  have all: "deliver pieces (f # fs) = deliver pieces [f] @ deliver pieces fs" using deliver_simps(4) [of pieces "[f]" fs] by simp
  show ?case
  proof (cases r1)
    case (Inl x)
    with Cons.prems step have "w' = w1" "r \<noteq> Inr ()" by (auto simp: client_copy_with_dedup.simps)
    with zs(1) all show ?thesis by (auto intro!: exI [of _ "zs @ deliver pieces fs"])
  next
    case (Inr u)
    with Cons.prems step have "client_copy_with_dedup pieces ws_open \<lparr> rd_frames = fs, rd_end = e \<rparr> w1 = (r, w')"
      by (simp add: client_copy_with_dedup.simps [of pieces ws_open "\<lparr> rd_frames = f # fs, rd_end = e \<rparr>"])
    from Cons.IH [OF this] zs Inr all show ?thesis by auto
  qed
qed

lemma assemble_rest:
  "ds \<noteq> [] \<Longrightarrow> fold assemble (fragments False ds) (Some (op, d), msgs) = (None, msgs @ [(op, d @ concat ds)])"
proof (induction ds arbitrary: d)
  case (Cons x ds)
  then show ?case by (cases "ds = []") (simp_all add: assemble_def starts_message_def)
qed simp

lemma assemble_fragments: "ds \<noteq> [] \<Longrightarrow> fold assemble (fragments True ds) a = (None, snd a @ [(Binary, concat ds)])"
  by (cases ds; cases a; cases "tl ds = []") (simp_all add: assemble_def starts_message_def assemble_rest)

lemma fragments_no_control [simp]: "ws_controls (fragments b ds) = []"
  by (induction ds arbitrary: b) (simp_all add: is_control_def)

section \<open>The server's loop carries the messages\<close>

lemma indicator_frame_simps [simp]:
  "indicator_of (indicator_frame i) = Some \<lparr> dedup_id = i \<rparr>" "\<not> is_control (indicator_frame i)"
  using u64bec.dec_enc [of i "[]"]
  by (simp_all add: indicator_of_def indicator_frame_def sd_decode_def sd_encode_def is_control_def)

lemma control_no_indicator [simp]: "is_control f \<Longrightarrow> indicator_of f = None"
  by (auto simp: is_control_def indicator_of_def)

lemma deliver_controls [simp]: "list_all is_control fs \<Longrightarrow> deliver pieces fs = fs"
  by (induction fs) simp_all

lemma controls_id [simp]: "list_all is_control fs \<Longrightarrow> ws_controls fs = fs"
  by (induction fs) simp_all

text \<open>Reading the rest of a fragmented packet: what was read, and what was forwarded meanwhile.\<close>

definition collected :: "bytes \<Rightarrow> ws_frame list \<Rightarrow> ws_frame list \<Rightarrow> bytes option res \<Rightarrow> bool" where
  "collected d got out x \<longleftrightarrow> (case x of
     Inl _ \<Rightarrow> list_all is_control out \<and> (\<exists>zs. ws_controls got = out @ zs)
   | Inr None \<Rightarrow> (\<exists>ctrl g. out = ctrl @ [g] \<and> list_all is_control ctrl \<and> g \<in> set got \<and> starts_message g \<and> ws_controls got = ctrl \<and>
       (\<forall>op b msgs part. fold assemble got (Some (op, b), msgs) = assemble g (part, msgs)))
   | Inr (Some d') \<Rightarrow> list_all is_control out \<and> ws_controls got = out \<and>
       (\<exists>conts. d' = d @ conts \<and> (\<forall>op b msgs. fold assemble got (Some (op, b), msgs) = (None, msgs @ [(op, b @ conts)]))))"

lemma collected_continue:
  assumes "collected (d @ payload f) got out x" "opcode f = Continuation" "\<not> fin f"
  shows "collected d (f # got) out x"
proof -
  have f: "\<not> is_control f" "assemble f (Some (op, b), msgs) = (Some (op, b @ payload f), msgs)" for op b msgs
    using assms(2,3) by (simp_all add: control_cases assemble_def starts_message_def)
  show ?thesis
    using assms(1) f(1) by (cases x; cases "projr x") (auto simp: collected_def f(2))
qed

lemma collected_control: "collected d got out x \<Longrightarrow> is_control f \<Longrightarrow> collected d (f # got) (f # out) x"
  by (cases x; cases "projr x") (auto simp: collected_def Cons_eq_append_conv)

lemma collect_packet_collected:
  "collect_packet ws_open d \<lparr> rd_frames = fs, rd_end = e \<rparr> w = (x, r', w') \<Longrightarrow>
    \<exists>got gs out. fs = got @ gs \<and> r' = \<lparr> rd_frames = gs, rd_end = e \<rparr> \<and> w' = w @ out \<and> collected d got out x"
proof (induction fs arbitrary: d w)
  case Nil
  then show ?case by (auto simp: collected_def)
next
  case (Cons f fs)
  consider (last) "opcode f = Continuation" "fin f" | (more) "opcode f = Continuation" "\<not> fin f"
    | (shut) "opcode f \<noteq> Continuation" "\<not> ws_open w" | (start) "starts_message f" "ws_open w" | (control) "is_control f" "ws_open w"
    using control_cases by blast
  then show ?case
  proof cases
    case last
    with Cons.prems have "x = Inr (Some (d @ payload f))" "r' = \<lparr> rd_frames = fs, rd_end = e \<rparr>" "w' = w" by (simp_all add: collect_packet_Cons)
    with last show ?thesis
      by (intro exI [of _ "[f]"] exI [of _ fs] exI [of _ "[]"]) (simp add: collected_def assemble_def starts_message_def control_cases)
  next
    case more
    with Cons.prems have "collect_packet ws_open (d @ payload f) \<lparr> rd_frames = fs, rd_end = e \<rparr> w = (x, r', w')" by (simp add: collect_packet_Cons)
    from Cons.IH [OF this] collected_continue [OF _ more] show ?thesis by (metis append_Cons)
  next
    case shut
    with Cons.prems have "x = Inl (ws_error ConnectionClosed)" "r' = \<lparr> rd_frames = fs, rd_end = e \<rparr>" "w' = w"
      by (simp_all add: collect_packet_Cons write_frame_def)
    then show ?thesis by (intro exI [of _ "[f]"] exI [of _ fs] exI [of _ "[]"]) (simp add: collected_def)
  next
    case start
    with Cons.prems have "x = Inr None" "r' = \<lparr> rd_frames = fs, rd_end = e \<rparr>" "w' = w @ [f]"
      by (auto simp: collect_packet_Cons write_frame_def starts_message_def)
    with start show ?thesis
      by (intro exI [of _ "[f]"] exI [of _ fs]) (auto simp: collected_def control_cases intro: assemble_start)
  next
    case control
    then have "opcode f \<noteq> Continuation" "opcode f \<noteq> Binary" "opcode f \<noteq> Text" by (auto simp: is_control_def)
    with Cons.prems control have "collect_packet ws_open d \<lparr> rd_frames = fs, rd_end = e \<rparr> (w @ [f]) = (x, r', w')"
      by (simp add: collect_packet_Cons write_frame_def)
    from Cons.IH [OF this] collected_control [OF _ control(1)] show ?thesis by (metis append_Cons append_assoc append_Nil)
  qed
qed

text \<open>Two messages that say the same: equal, or packets with the same content, of which the first was rebuilt.\<close>

definition same_message :: "lz4_decoder \<Rightarrow> message \<Rightarrow> message \<Rightarrow> bool" where
  "same_message lz4 m m' \<longleftrightarrow> m = m' \<or>
     (fst m = Binary \<and> (\<exists>c. packet_content lz4 (snd m) = Inr c \<and> packet_content lz4 (snd m') = Inr c))"

definition carried :: "lz4_decoder \<Rightarrow> (u64 \<Rightarrow> bytes list) \<Rightarrow> ws_frame list \<Rightarrow> ws_frame list \<Rightarrow> unit res \<Rightarrow> bool" where
  "carried lz4 pieces ins outs x \<longleftrightarrow>
     (\<forall>part msgs msgs'. list_all2 (same_message lz4) msgs msgs' \<longrightarrow>
        (let a = fold assemble (deliver pieces outs) (part, msgs);
             b = fold assemble ins (part, msgs')
         in (\<exists>more bs. snd b = bs @ more \<and> list_all2 (same_message lz4) (snd a) bs \<and> (x = Inr () \<longrightarrow> more = [] \<and> fst a = fst b)))) \<and>
     (\<exists>more. ws_controls ins = ws_controls (deliver pieces outs) @ more \<and> (x = Inr () \<longrightarrow> more = []))"

lemma carriedD:
  assumes "carried lz4 pieces ins outs x" "list_all2 (same_message lz4) msgs msgs'"
  shows "\<exists>more bs. snd (fold assemble ins (part, msgs')) = bs @ more \<and>
    list_all2 (same_message lz4) (snd (fold assemble (deliver pieces outs) (part, msgs))) bs \<and>
    (x = Inr () \<longrightarrow> more = [] \<and> fst (fold assemble (deliver pieces outs) (part, msgs)) = fst (fold assemble ins (part, msgs')))"
  using assms unfolding carried_def Let_def by blast

lemma carried_controlsD:
  "carried lz4 pieces ins outs x \<Longrightarrow> \<exists>more. ws_controls ins = ws_controls (deliver pieces outs) @ more \<and> (x = Inr () \<longrightarrow> more = [])"
  unfolding carried_def by blast

lemma carriedI:
  assumes "\<And>part msgs msgs'. list_all2 (same_message lz4) msgs msgs' \<Longrightarrow>
      \<exists>more bs. snd (fold assemble ins (part, msgs')) = bs @ more \<and>
      list_all2 (same_message lz4) (snd (fold assemble (deliver pieces outs) (part, msgs))) bs \<and>
      (x = Inr () \<longrightarrow> more = [] \<and> fst (fold assemble (deliver pieces outs) (part, msgs)) = fst (fold assemble ins (part, msgs')))"
    and "ws_controls ins = ws_controls (deliver pieces outs) @ zs" "x = Inr () \<Longrightarrow> zs = []"
  shows "carried lz4 pieces ins outs x"
  using assms unfolding carried_def Let_def by blast

lemma carried_append:
  assumes "carried lz4 pieces i1 o1 (Inr ())" "carried lz4 pieces i2 o2 x"
  shows "carried lz4 pieces (i1 @ i2) (o1 @ o2) x"
proof -
  obtain zs where zs: "ws_controls i2 = ws_controls (deliver pieces o2) @ zs" "x = Inr () \<Longrightarrow> zs = []"
    using carried_controlsD [OF assms(2)] by blast
  show ?thesis
  proof (rule carriedI [where zs = zs])
    fix part msgs msgs' assume all: "list_all2 (same_message lz4) msgs msgs'"
    let ?a = "fold assemble (deliver pieces o1) (part, msgs)" and ?b = "fold assemble i1 (part, msgs')"
    from carriedD [OF assms(1) all, of part] have 1: "list_all2 (same_message lz4) (snd ?a) (snd ?b)" "fst ?a = fst ?b" by auto
    have "fold assemble (deliver pieces (o1 @ o2)) (part, msgs) = fold assemble (deliver pieces o2) (fst ?b, snd ?a)"
      by (simp add: 1(2) [symmetric])
    moreover have "fold assemble (i1 @ i2) (part, msgs') = fold assemble i2 (fst ?b, snd ?b)" by simp
    ultimately show "\<exists>more bs. snd (fold assemble (i1 @ i2) (part, msgs')) = bs @ more \<and>
        list_all2 (same_message lz4) (snd (fold assemble (deliver pieces (o1 @ o2)) (part, msgs))) bs \<and> (x = Inr () \<longrightarrow> more = [] \<and>
        fst (fold assemble (deliver pieces (o1 @ o2)) (part, msgs)) = fst (fold assemble (i1 @ i2) (part, msgs')))"
      using carriedD [OF assms(2) 1(1), of "fst ?b"] by simp
  next
    show "ws_controls (i1 @ i2) = ws_controls (deliver pieces (o1 @ o2)) @ zs"
      using carried_controlsD [OF assms(1)] zs by auto
  qed (rule zs(2))
qed

lemma carried_stop:
  assumes "carried lz4 pieces i1 o1 (Inl e)"
  shows "carried lz4 pieces (i1 @ i2) o1 (Inl e)"
proof -
  obtain zs where zs: "ws_controls i1 = ws_controls (deliver pieces o1) @ zs" using carried_controlsD [OF assms] by blast
  show ?thesis
  proof (rule carriedI [where zs = "zs @ ws_controls i2"])
    fix part msgs msgs' assume "list_all2 (same_message lz4) msgs msgs'"
    from carriedD [OF assms this, of part] fold_assemble_grows [of i2 "fold assemble i1 (part, msgs')"] obtain more bs more'
      where "snd (fold assemble i1 (part, msgs')) = bs @ more" "snd (fold assemble i2 (fold assemble i1 (part, msgs'))) = (bs @ more) @ more'"
        "list_all2 (same_message lz4) (snd (fold assemble (deliver pieces o1) (part, msgs))) bs" by auto
    then show "\<exists>more bs. snd (fold assemble (i1 @ i2) (part, msgs')) = bs @ more \<and>
        list_all2 (same_message lz4) (snd (fold assemble (deliver pieces o1) (part, msgs))) bs \<and> (Inl e = Inr () \<longrightarrow> more = [] \<and>
        fst (fold assemble (deliver pieces o1) (part, msgs)) = fst (fold assemble (i1 @ i2) (part, msgs')))"
      by (intro exI [of _ "more @ more'"] exI [of _ bs]) simp
  qed (use zs in simp_all)
qed

lemma same_message_refl [simp]: "same_message lz4 m m"
  by (simp add: same_message_def)

lemma list_all2_same_appendI: "list_all2 P xs ys \<Longrightarrow> P x y \<Longrightarrow> list_all2 P (xs @ [x]) (ys @ [y])"
  by (simp add: list_all2_appendI)

lemma carried_forward:
  assumes "indicator_of f = None"
  shows "carried lz4 pieces [f] [f] (Inr ())"
  by (rule carriedI [where zs = "[]"]) (use assms in \<open>auto simp: assemble_def list_all2_same_appendI split: option.splits\<close>)

lemma carried_controls:
  assumes "list_all is_control outs" "ws_controls ins = outs @ zs"
  shows "carried lz4 pieces ins outs (Inl e)"
proof (rule carriedI [where zs = zs])
  fix part msgs msgs' assume "list_all2 (same_message lz4) msgs msgs'"
  with assms(1) fold_assemble_grows [of ins "(part, msgs')"]
  show "\<exists>more bs. snd (fold assemble ins (part, msgs')) = bs @ more \<and>
      list_all2 (same_message lz4) (snd (fold assemble (deliver pieces outs) (part, msgs))) bs \<and> (Inl e = Inr () \<longrightarrow> more = [] \<and>
      fst (fold assemble (deliver pieces outs) (part, msgs)) = fst (fold assemble ins (part, msgs')))" by auto
qed (use assms in simp_all)

lemma carried_dropped:
  assumes "starts_message f" "\<not> fin f" "collected d got outs (Inr None)" "\<forall>g \<in> set got. indicator_of g = None"
  shows "carried lz4 pieces (f # got) outs (Inr ())"
proof -
  from assms(3) obtain ctrl g where g: "outs = ctrl @ [g]" "list_all is_control ctrl" "g \<in> set got" "starts_message g" "ws_controls got = ctrl"
    and got: "\<And>op b msgs part. fold assemble got (Some (op, b), msgs) = assemble g (part, msgs)"
    by (auto simp: collected_def)
  have f: "fold assemble (f # got) (part, msgs) = assemble g (part, msgs)" for part msgs
    using assms(1,2) got by (simp add: assemble_def [of f])
  have out: "fold assemble (deliver pieces outs) a = assemble g a" "\<not> is_control f" "\<not> is_control g" "ws_controls (deliver pieces outs) = ctrl" for a
    using assms(1,4) g by (simp_all add: control_cases)
  show ?thesis
    by (rule carriedI [where zs = "[]"]) (use f out g(4,5) in \<open>auto simp: assemble_def list_all2_same_appendI\<close>)
qed

lemma carried_rebuilt:
  assumes f: "starts_message f" "nh_decode (payload f) = Inr (Some h, rest)"
    and got: "if fin f then got = [] \<and> ctrl = [] \<and> d = rest else collected rest got ctrl (Inr (Some d))"
    and c: "header_content lz4 h d = Inr c"
    and ps: "pieces i \<noteq> []" "packet_content lz4 (concat (pieces i)) = Inr c"
  shows "carried lz4 pieces (f # got) (ctrl @ [indicator_frame i]) x"
proof -
  have "\<exists>conts. d = rest @ conts \<and> list_all is_control ctrl \<and> ws_controls got = ctrl \<and>
    (\<forall>part msgs. fold assemble (f # got) (part, msgs) = (None, msgs @ [(opcode f, payload f @ conts)]))"
    using got f(1) by (cases "fin f") (auto simp: collected_def assemble_def)
  then obtain conts where k: "d = rest @ conts" "list_all is_control ctrl" "ws_controls got = ctrl"
    and ins: "\<And>part msgs. fold assemble (f # got) (part, msgs) = (None, msgs @ [(opcode f, payload f @ conts)])" by blast
  have "packet_content lz4 (payload f @ conts) = Inr c"
    using nh_decode_append [OF f(2), of conts] c k(1) by (simp add: packet_content_def)
  with ps(2) have same: "same_message lz4 (Binary, concat (pieces i)) (opcode f, payload f @ conts)" by (auto simp: same_message_def)
  have out: "fold assemble (deliver pieces (ctrl @ [indicator_frame i])) (part, msgs) = (None, msgs @ [(Binary, concat (pieces i))])" for part msgs
    using k(2) ps(1) by (simp add: assemble_fragments)
  show ?thesis
  proof (rule carriedI [where zs = "[]"], unfold ins out)
    fix msgs msgs' assume "list_all2 (same_message lz4) msgs msgs'"
    from list_all2_same_appendI [OF this same]
    show "\<exists>more bs. snd (None, msgs' @ [(opcode f, payload f @ conts)]) = bs @ more \<and>
        list_all2 (same_message lz4) (snd (None, msgs @ [(Binary, concat (pieces i))])) bs \<and>
        (x = Inr () \<longrightarrow> more = [] \<and> fst (None, msgs @ [(Binary, concat (pieces i))]) = fst (None, msgs' @ [(opcode f, payload f @ conts)]))"
      by (intro exI [of _ "[]"] exI [of _ "msgs' @ [(opcode f, payload f @ conts)]"]) simp
  qed (use k f(1) in \<open>simp_all add: control_cases\<close>)
qed

subsection \<open>One packet, and the whole loop\<close>

definition task_ok :: "'n server_env \<Rightarrow> dedup_task \<Rightarrow> bool" where
  "task_ok E t \<longleftrightarrow>
     nh_deconstruct (se_hash E) (se_lz4 E) (dt_header t) (dt_data t) [] = Inr (pd_packet (dt_description t), dt_chunks t)"

text \<open>The pieces for a task make up a packet with the content of the one that was deduplicated.\<close>

definition pieces_ok :: "'n server_env \<Rightarrow> (u64 \<Rightarrow> bytes list) \<Rightarrow> dedup_task \<Rightarrow> bool" where
  "pieces_ok E pieces t \<longleftrightarrow> pieces (dt_id t) \<noteq> [] \<and>
     (\<forall>c. header_content (se_lz4 E) (dt_header t) (dt_data t) = Inr c \<longrightarrow> packet_content (se_lz4 E) (concat (pieces (dt_id t))) = Inr c)"

text \<open>A part of a run, from \<open>s\<close> to \<open>s'\<close>, that has read \<open>ins\<close> and ended with \<open>x\<close>.\<close>

definition copies :: "'n server_env \<Rightarrow> (u64 \<Rightarrow> bytes list) \<Rightarrow> ws_frame list \<Rightarrow> server_copy \<Rightarrow> unit res \<Rightarrow> server_copy \<Rightarrow> bool" where
  "copies E pieces ins s x s' \<longleftrightarrow> (\<exists>outs ts. sc_write s' = sc_write s @ outs \<and> sc_tasks s' = sc_tasks s @ ts \<and> list_all (task_ok E) ts \<and>
     (list_all (pieces_ok E pieces) ts \<longrightarrow> carried (se_lz4 E) pieces ins outs x))"

lemma copiesI:
  "sc_write s' = sc_write s @ outs \<Longrightarrow> sc_tasks s' = sc_tasks s @ ts \<Longrightarrow> list_all (task_ok E) ts \<Longrightarrow>
    (list_all (pieces_ok E pieces) ts \<Longrightarrow> carried (se_lz4 E) pieces ins outs x) \<Longrightarrow> copies E pieces ins s x s'"
  unfolding copies_def by blast

lemma copies_quiet:
  "sc_write s' = sc_write s @ outs \<Longrightarrow> sc_tasks s' = sc_tasks s \<Longrightarrow> carried (se_lz4 E) pieces ins outs x \<Longrightarrow> copies E pieces ins s x s'"
  by (rule copiesI [where ts = "[]"]) simp_all

lemma copies_append:
  assumes "copies E pieces ins s (Inr ()) s1" "copies E pieces ins' s1 x s'"
  shows "copies E pieces (ins @ ins') s x s'"
proof -
  from assms(1) obtain outs ts where 1: "sc_write s1 = sc_write s @ outs" "sc_tasks s1 = sc_tasks s @ ts" "list_all (task_ok E) ts"
    "list_all (pieces_ok E pieces) ts \<longrightarrow> carried (se_lz4 E) pieces ins outs (Inr ())" unfolding copies_def by blast
  from assms(2) obtain outs' ts' where 2: "sc_write s' = sc_write s1 @ outs'" "sc_tasks s' = sc_tasks s1 @ ts'" "list_all (task_ok E) ts'"
    "list_all (pieces_ok E pieces) ts' \<longrightarrow> carried (se_lz4 E) pieces ins' outs' x" unfolding copies_def by blast
  show ?thesis by (rule copiesI [where outs = "outs @ outs'" and ts = "ts @ ts'"]) (use 1 2 carried_append in \<open>auto simp: list_all_append\<close>)
qed

lemma copies_stop: "copies E pieces ins s (Inl e) s' \<Longrightarrow> copies E pieces (ins @ ins') s (Inl e) s'"
  unfolding copies_def using carried_stop by blast

lemma announce_packet_outcome:
  assumes "announce_packet E h d s = (x, s')"
  shows "sc_read s' = sc_read s \<and> ((\<exists>e. x = Inl e \<and> sc_write s' = sc_write s \<and> sc_tasks s' = sc_tasks s) \<or>
    (\<exists>t. x = Inr t \<and> sc_write s' = sc_write s @ [indicator_frame (dt_id t)] \<and> sc_tasks s' = sc_tasks s @ [t] \<and>
      task_ok E t \<and> dt_header t = h \<and> dt_data t = d))"
  using assms
  by (auto simp: announce_packet_def Let_def write_frame_def task_ok_def split: sum.splits prod.splits if_splits)

lemma dedup_rest_carries:
  assumes run: "dedup_rest fuel E h y s = Some (x, s')" and start: "starts_message f" "nh_decode (payload f) = Inr (Some h, rest)"
    and got: "if fin f then got = [] \<and> outs = [] \<and> y = Inr (Some rest) else collected rest got outs y"
    and s: "sc_write s = sc_write s0 @ outs" "sc_tasks s = sc_tasks s0" and none: "\<forall>g \<in> set got. indicator_of g = None"
  shows "sc_read s' = sc_read s \<and> copies E pieces (f # got) s0 x s'"
proof -
  have nc: "\<not> is_control f" using start(1) by (simp add: control_cases)
  consider (err) e where "y = Inl e" | (drop) "y = Inr None" | (data) d where "y = Inr (Some d)" by (metis obj_sumE option.exhaust)
  then show ?thesis
  proof cases
    case err
    with run have "x = Inl e" "s' = s" by (simp_all add: dedup_rest_def)
    moreover from err got nc obtain zs where "list_all is_control outs" "ws_controls (f # got) = outs @ zs"
      by (auto simp: collected_def split: if_splits)
    ultimately show ?thesis using s copies_quiet carried_controls by blast
  next
    case drop
    with run have "x = Inr ()" "s' = s" by (simp_all add: dedup_rest_def)
    moreover from drop got have "\<not> fin f" "collected rest got outs (Inr None)" by (auto split: if_splits)
    ultimately show ?thesis using s copies_quiet carried_dropped [OF start(1) _ _ none] by blast
  next
    case (data d)
    obtain z s1 where a: "announce_packet E h d s = (z, s1)" by fastforce
    from announce_packet_outcome [OF a] consider
      (failed) e1 where "z = Inl e1" "sc_write s1 = sc_write s0 @ outs" "sc_tasks s1 = sc_tasks s0" "sc_read s1 = sc_read s"
    | (announced) t where "z = Inr t" "sc_write s1 = sc_write s0 @ outs @ [indicator_frame (dt_id t)]" "sc_tasks s1 = sc_tasks s0 @ [t]"
        "sc_read s1 = sc_read s" "task_ok E t" "dt_header t = h" "dt_data t = d"
      using s by auto
    then show ?thesis
    proof cases
      case failed
      with run data a have "x = Inl e1" "s' = s1" by (simp_all add: dedup_rest_def)
      moreover from data got nc have "list_all is_control outs" "ws_controls (f # got) = outs @ []"
        by (auto simp: collected_def split: if_splits)
      ultimately show ?thesis using failed copies_quiet carried_controls by metis
    next
      case announced
      with run data a have "s' = s1" by (auto simp: dedup_rest_def split: option.splits prod.splits sum.splits)
      moreover from announced(5) obtain ct where "header_content (se_lz4 E) h d = Inr ct"
        using deconstruct_content unfolding task_ok_def announced(6,7) by blast
      moreover have "if fin f then got = [] \<and> outs = [] \<and> d = rest else collected rest got outs (Inr (Some d))"
        using got data by (auto split: if_splits)
      ultimately show ?thesis
        using announced carried_rebuilt [OF start, of got outs d "se_lz4 E" ct pieces "dt_id t" x]
        by (auto intro!: copiesI [where ts = "[t]"] simp: pieces_ok_def)
    qed
  qed
qed

lemma dedup_packet_carries:
  assumes run: "dedup_packet fuel E h rest (fin f) s = Some (x, s')" and f: "dedup_start f = Some (h, rest)"
    and s: "sc_read s = \<lparr> rd_frames = fs, rd_end = e \<rparr>" and none: "\<forall>g \<in> set fs. indicator_of g = None"
  shows "\<exists>got gs. fs = got @ gs \<and> sc_read s' = \<lparr> rd_frames = gs, rd_end = e \<rparr> \<and> copies E pieces (f # got) s x s'"
proof -
  have start: "starts_message f" "nh_decode (payload f) = Inr (Some h, rest)"
    using f by (auto simp: dedup_start_def starts_message_def split: if_splits sum.splits prod.splits option.splits)
  obtain y r w where c: "(if fin f then (Inr (Some rest), sc_read s, sc_write s)
            else collect_packet (se_open E) rest (sc_read s) (sc_write s)) = (y, r, w)" by (metis prod_cases3)
  obtain got gs outs where g: "fs = got @ gs" "r = \<lparr> rd_frames = gs, rd_end = e \<rparr>" "w = sc_write s @ outs"
    "if fin f then got = [] \<and> outs = [] \<and> y = Inr (Some rest) else collected rest got outs y"
    using c s collect_packet_collected [of "se_open E" rest fs e "sc_write s" y r w] by (cases "fin f") auto
  let ?s = "s\<lparr> sc_read := r, sc_write := w \<rparr>"
  from run c have "dedup_rest fuel E h y ?s = Some (x, s')"
    by (simp add: dedup_packet_def)
  from dedup_rest_carries [OF this start g(4), of s pieces] g none show ?thesis by auto
qed

lemma carried_Nil: "carried lz4 pieces [] [] x"
  by (rule carriedI [where zs = "[]"]; (rule exI [of _ "[]"])?) auto

lemma server_copy_carries:
  assumes "server_copy_with_dedup fuel E s = Some (x, s')" "sc_read s = \<lparr> rd_frames = fs, rd_end = e \<rparr>"
    "\<forall>g \<in> set fs. indicator_of g = None"
  shows "copies E pieces fs s x s'"
  using assms
proof (induction "length fs" arbitrary: fs s rule: less_induct)
  case less
  note step = less.prems(1) [unfolded server_copy_with_dedup.simps [of fuel E s] less.prems(2)]
  show ?case
  proof (cases fs)
    case Nil
    with step have "sc_write s' = sc_write s @ []" "sc_tasks s' = sc_tasks s" by (auto split: if_splits)
    with Nil carried_Nil show ?thesis by (simp add: copies_quiet)
  next
    case (Cons f gs)
    let ?r = "\<lparr> rd_frames = gs, rd_end = e \<rparr>"
    note step = step [unfolded Cons read_ws_frame_simps prod.case sum.case option.case]
    have none: "indicator_of f = None" "\<forall>g \<in> set gs. indicator_of g = None" using less.prems(3) Cons by simp_all
    obtain y s1 where 1: "if y = Inr () then server_copy_with_dedup fuel E s1 = Some (x, s') else x = y \<and> s' = s1"
      "\<exists>got hs. gs = got @ hs \<and> sc_read s1 = \<lparr> rd_frames = hs, rd_end = e \<rparr> \<and> copies E pieces (f # got) s y s1"
    proof (cases "dedup_start f")
      case None
      let ?s = "s\<lparr> sc_read := ?r, sc_write := sc_write s @ [f] \<rparr>"
      have "copies E pieces [f] s (Inr ()) ?s" "copies E pieces [f] s (Inl (ws_error ConnectionClosed)) (s\<lparr> sc_read := ?r \<rparr>)"
        using carried_forward [OF none(1)] carried_controls [of "[]" "[f]" "ws_controls [f]"] by (auto intro: copies_quiet)
      with that [of "Inr ()" ?s] that [of "Inl (ws_error ConnectionClosed)" "s\<lparr> sc_read := ?r \<rparr>"] step None show ?thesis
        by (auto simp: write_frame_def split: if_splits)
    next
      case (Some hr)
      obtain h rest where hr: "hr = (h, rest)" by fastforce
      from step Some hr obtain y s1 where d: "dedup_packet fuel E h rest (fin f) (s\<lparr> sc_read := ?r \<rparr>) = Some (y, s1)"
        by (auto split: option.splits)
      have "copies E pieces ins (s\<lparr> sc_read := ?r \<rparr>) y s1 = copies E pieces ins s y s1" for ins by (simp add: copies_def)
      with that [of y s1] dedup_packet_carries [OF d Some [unfolded hr] _ none(2), of e pieces] step Some hr d show ?thesis
        by (auto split: sum.splits)
    qed
    from 1(2) obtain got hs where 2: "gs = got @ hs" "sc_read s1 = \<lparr> rd_frames = hs, rd_end = e \<rparr>" "copies E pieces (f # got) s y s1" by blast
    show ?thesis
    proof (cases y)
      case (Inl e1)
      with 1(1) 2 Cons copies_stop [of E pieces "f # got" s e1 s1 hs] show ?thesis by simp
    next
      case (Inr u)
      with 1(1) 2 Cons less.hyps [of hs s1] none(2) copies_append [of E pieces "f # got" s s1 hs x s'] show ?thesis by simp
    qed
  qed
qed

end
