(* ===== verification/Nebula_Connect.thy ===== *)
theory Nebula_Connect
  imports Nebula_Proxy
begin

text \<open>
  How a websocket connection of the Nebula cacher is set up (\<^verbatim>\<open>dsp-nebula-cacher/src/proxy\<close>): the
  client accepts a TCP connection, answers the upgrade request and opens a stream on which it
  announces the peer; the server reads the announcement and opens a websocket to the game
  with the URI the peer asked for.

  The HTTP and websocket libraries are parameters: \<open>is_upgrade\<close> and \<open>upgrade\<close> judge and answer a request, \<open>connect\<close>,
  \<open>build\<close> and \<open>handshake\<close> are the steps of a connection to the game. Logging and socket options are
  not modelled.
\<close>

section \<open>Definitions\<close>

record initial_connection_info =
  client_uri :: string

record http_request =
  req_method :: string
  req_uri :: string
  req_headers :: "(string \<times> string) list"

datatype 'r http_response = BadRequest | Upgraded 'r

subsection \<open>The client\<close>

text \<open>
  The accept loop: the peers for which a task has been spawned, and how the loop ended.
\<close>

datatype 'p listen_event = Accepted 'p | AcceptFailed error | QuicClosed

fun run_client_proxy :: "'p listen_event list \<Rightarrow> unit res option \<times> 'p list" where
  "run_client_proxy [] = (None, [])"
| "run_client_proxy (Accepted p # rest) = (case run_client_proxy rest of (r, ps) \<Rightarrow> (r, p # ps))"
| "run_client_proxy (AcceptFailed e # _) = (Some (Inl e), [])"
| "run_client_proxy (QuicClosed # _) = (Some (Inr ()), [])"

text \<open>
  The second result is the stream on which the websocket of the peer continues, when the task for
  it is spawned.
\<close>

definition handle_request ::
  "zstd \<Rightarrow> initial_connection_info serde \<Rightarrow> message_transport \<Rightarrow> 'n stream_io \<Rightarrow>
   (http_request \<Rightarrow> bool) \<Rightarrow> (http_request \<Rightarrow> 'r res) \<Rightarrow> 'n res \<Rightarrow> http_request \<Rightarrow>
   'r http_response res \<times> 'n option" where
  "handle_request z rmp mt io is_upgrade upgrade open_bi request =
     (if \<not> is_upgrade request then (Inr BadRequest, None)
      else case upgrade request of
        Inl e \<Rightarrow> (Inl e, None)
      | Inr response \<Rightarrow>
          (case open_bi of
             Inl e \<Rightarrow> (Inl e, None)
           | Inr s \<Rightarrow>
               (case encode_message z rmp mt \<lparr> client_uri = req_uri request \<rparr> of
                  Inl e \<Rightarrow> (Inl e, None)
                | Inr message_data \<Rightarrow>
                    (case io_write_all io (put_u64 0) s of
                       (Inl e, s) \<Rightarrow> (Inl e, None)
                     | (Inr _, s) \<Rightarrow>
                         (case write_message io message_data s of
                            (Inl e, s) \<Rightarrow> (Inl e, None)
                          | (Inr _, s) \<Rightarrow> (Inr (Upgraded response), Some s))))))"

subsection \<open>The server\<close>

text \<open>One turn of the loop of \<^verbatim>\<open>run_server_proxy\<close> on an accepted stream: its id, and what happens to it.\<close>

definition next_stream ::
  "'n stream_io \<Rightarrow> 'n \<Rightarrow> 'w nebula_server \<Rightarrow> ('w accepted_stream \<times> 'n) res \<times> 'w nebula_server" where
  "next_stream io s ns =
     (case io_read_exact io 8 s of
        (Inl e, s) \<Rightarrow> (Inl e, ns)
      | (Inr b, s) \<Rightarrow>
          (case accept_stream (from_le (rev b)) ns of
             (Inl e, ns) \<Rightarrow> (Inl e, ns)
           | (Inr a, ns) \<Rightarrow> (Inr (a, s), ns)))"

definition game_request :: "string \<Rightarrow> initial_connection_info \<Rightarrow> http_request" where
  "game_request key initial_info = \<lparr> req_method = ''GET'', req_uri = client_uri initial_info,
     req_headers = [(''Host'', ''localhost''), (''upgrade'', ''websocket''), (''connection'', ''upgrade''),
       (''Sec-WebSocket-Key'', key), (''Sec-WebSocket-Version'', ''13'')] \<rparr>"

text \<open>\<^verbatim>\<open>proxy_server\<close> up to the websocket to the game; \<open>s\<close> is the stream of the peer.\<close>

definition proxy_server ::
  "zstd \<Rightarrow> initial_connection_info serde \<Rightarrow> message_transport \<Rightarrow> 'n stream_io \<Rightarrow>
   's res \<Rightarrow> (http_request \<Rightarrow> 'q res) \<Rightarrow> ('q \<Rightarrow> 's \<Rightarrow> 'ws res) \<Rightarrow> string \<Rightarrow> 'n \<Rightarrow> 'ws res \<times> 'n" where
  "proxy_server z rmp mt io connect build handshake key s =
     (case read_message io s of
        (Inl e, s) \<Rightarrow> (Inl e, s)
      | (Inr message_data, s) \<Rightarrow>
          (and_then (decode_message z rmp mt message_data) (\<lambda>initial_info.
             and_then connect (\<lambda>socket.
               and_then (build (game_request key initial_info)) (\<lambda>req. handshake req socket))), s))"

section \<open>A peer reaches the game\<close>

lemma run_client_proxy_accepted:
  "run_client_proxy (map Accepted ps @ evs) = (case run_client_proxy evs of (r, qs) \<Rightarrow> (r, ps @ qs))"
  by (induction ps) (auto split: prod.splits)

text \<open>A request that is no upgrade is refused and opens no stream.\<close>

lemma no_upgrade_refused:
  "\<not> is_upgrade request \<Longrightarrow> handle_request z rmp mt io is_upgrade upgrade open_bi request = (Inr BadRequest, None)"
  by (simp add: handle_request_def)

text \<open>What the client writes makes the server treat the stream as a new peer and request the URI of the peer from the game;
  the websocket frames behind the announcement are left in the stream.\<close>

lemma peer_reaches_game:
  assumes "is_upgrade request" "upgrade request = Inr response"
    "encode_message z rmp mt \<lparr> client_uri = req_uri request \<rparr> = Inr d" "length d \<le> MESSAGE_SIZE_LIMIT"
    "decode_message z rmp mt d = Inr \<lparr> client_uri = req_uri request \<rparr>"
  shows "\<exists>out. handle_request z rmp mt pipe_io is_upgrade upgrade (Inr ([], [])) request = (Inr (Upgraded response), Some ([], out)) \<and>
    (\<exists>s. next_stream pipe_io (out @ frames, back) ns = (Inr (NewPeer, s), ns) \<and>
      proxy_server z rmp mt pipe_io (Inr socket) build handshake key s =
        (and_then (build (game_request key \<lparr> client_uri = req_uri request \<rparr>)) (\<lambda>req. handshake req socket), (frames, back)))"
proof -
  let ?out = "put_u64 0 @ Protocol_Utils.frame d"
  have "handle_request z rmp mt pipe_io is_upgrade upgrade (Inr ([], [])) request = (Inr (Upgraded response), Some ([], ?out))"
    using assms by (simp add: handle_request_def pipe_io_def [THEN arg_cong [of _ _ io_write_all]] write_message_pipe)
  moreover have "next_stream pipe_io (?out @ frames, back) ns = (Inr (NewPeer, (Protocol_Utils.frame d @ frames, back)), ns)"
    by (simp add: next_stream_def pipe_io_def accept_stream_def put_u64_def from_le_to_le)
  moreover have "proxy_server z rmp mt pipe_io (Inr socket) build handshake key (Protocol_Utils.frame d @ frames, back) =
      (and_then (build (game_request key \<lparr> client_uri = req_uri request \<rparr>)) (\<lambda>req. handshake req socket), (frames, back))"
    using assms by (simp add: proxy_server_def read_message_pipe)
  ultimately show ?thesis by blast
qed

end
