(* ===== verification/Nebula_Transfer.thy ===== *)
theory Nebula_Transfer
  imports Nebula_Proxy
begin

text \<open>
  The two Nebula proxies together: the ids that match a deduplicated packet with the stream the client opens for it, a packet from
  the task of the server to the task of the client, and the messages of a whole connection.
\<close>

section \<open>One packet across the connection\<close>











section \<open>The ids of the streams\<close>

text \<open>
  What happens to the ids while a connection lasts: tasks of the connection register, streams are accepted, and tasks of
  other connections take ids from the same counter.
\<close>

datatype 'w stream_event = Registered 'w u64 | Accepted u64 "'w accepted_stream" | Elsewhere

inductive ns_run :: "u64 \<Rightarrow> 'w stream_event list \<Rightarrow> 'w nebula_server \<Rightarrow> bool" for n0 where
  start: "ns_run n0 [] \<lparr> next_dedup_stream_id = n0, pending_dedup_streams = (\<lambda>_. None) \<rparr>"
| register: "ns_run n0 es s \<Longrightarrow> register_stream tx s = (i, s') \<Longrightarrow> ns_run n0 (es @ [Registered tx i]) s'"
| accept: "ns_run n0 es s \<Longrightarrow> accept_stream i s = (Inr a, s') \<Longrightarrow> ns_run n0 (es @ [Accepted i a]) s'"
| elsewhere: "ns_run n0 es s \<Longrightarrow> ns_run n0 (es @ [Elsewhere]) (s\<lparr> next_dedup_stream_id := next_dedup_stream_id s + 1 \<rparr>)"

fun registered :: "'w stream_event list \<Rightarrow> (u64 \<times> 'w) list" where
  "registered [] = []"
| "registered (Registered tx i # es) = (i, tx) # registered es"
| "registered (_ # es) = registered es"

fun handed :: "'w stream_event list \<Rightarrow> (u64 \<times> 'w) list" where
  "handed [] = []"
| "handed (Accepted i (HandedTo tx) # es) = (i, tx) # handed es"
| "handed (_ # es) = handed es"

fun ids_taken :: "'w stream_event list \<Rightarrow> nat" where
  "ids_taken [] = 0"
| "ids_taken (Accepted _ _ # es) = ids_taken es"
| "ids_taken (_ # es) = Suc (ids_taken es)"

lemma registered_append [simp]: "registered (es @ fs) = registered es @ registered fs"
  by (induction es rule: registered.induct) simp_all

lemma handed_append [simp]: "handed (es @ fs) = handed es @ handed fs"
  by (induction es rule: handed.induct) simp_all

lemma ids_taken_append [simp]: "ids_taken (es @ fs) = ids_taken es + ids_taken fs"
  by (induction es rule: ids_taken.induct) simp_all

definition ids_ok :: "u64 \<Rightarrow> 'w stream_event list \<Rightarrow> 'w nebula_server \<Rightarrow> bool" where
  "ids_ok n0 es s \<longleftrightarrow> unat (next_dedup_stream_id s) = unat n0 + ids_taken es \<and>
     (\<forall>(i, tx) \<in> set (registered es). unat n0 \<le> unat i \<and> unat i < unat n0 + ids_taken es) \<and>
     distinct (map fst (registered es)) \<and> distinct (map fst (handed es)) \<and> set (handed es) \<subseteq> set (registered es) \<and>
     (\<forall>i tx. pending_dedup_streams s i = Some tx \<longleftrightarrow> (i, tx) \<in> set (registered es) \<and> i \<notin> fst ` set (handed es))"

lemma next_id: "unat (x :: u64) + 1 < 2 ^ 64 \<Longrightarrow> unat (x + 1) = unat x + 1"
  using unat_add_lem [of x 1] by simp

lemma ns_run_ids:
  assumes "ns_run n0 es s" "unat n0 + ids_taken es < 2 ^ 64"
  shows "ids_ok n0 es s"
  using assms
proof (induction rule: ns_run.induct)
  case start
  then show ?case by (simp add: ids_ok_def)
next
  case (register es s tx i s')
  then have ok: "ids_ok n0 es s" by simp
  from register.hyps(2) have s': "i = next_dedup_stream_id s" "next_dedup_stream_id s' = i + 1"
    "pending_dedup_streams s' = (pending_dedup_streams s)(i \<mapsto> tx)" by (auto simp: register_stream_def Let_def)
  have i: "unat i = unat n0 + ids_taken es" using ok s'(1) by (simp add: ids_ok_def)
  have new: "i \<notin> fst ` set (registered es)"
  proof
    assume "i \<in> fst ` set (registered es)"
    then obtain tx' where "(i, tx') \<in> set (registered es)" by auto
    with ok have "unat i < unat n0 + ids_taken es" by (auto simp: ids_ok_def)
    with i show False by simp
  qed
  moreover have "fst ` set (handed es) \<subseteq> fst ` set (registered es)" using ok unfolding ids_ok_def by (intro image_mono) blast
  with new have "i \<notin> fst ` set (handed es)" by blast
  moreover have "unat (i + 1) = unat n0 + Suc (ids_taken es)" using i register.prems next_id [of i] by simp
  ultimately show ?case
    using ok i unfolding ids_ok_def s' by (auto simp: rev_image_eqI)
next
  case (accept es s i a s')
  then have ok: "ids_ok n0 es s" by simp
  show ?case
  proof (cases a)
    case NewPeer
    with accept.hyps(2) ok show ?thesis by (auto simp: ids_ok_def accept_stream_def split: if_splits option.splits)
  next
    case (HandedTo tx)
    with accept.hyps(2) have s': "pending_dedup_streams s i = Some tx" "s' = s\<lparr> pending_dedup_streams := (pending_dedup_streams s)(i := None) \<rparr>"
      by (auto simp: accept_stream_def split: if_splits option.splits)
    from s'(1) ok have "(i, tx) \<in> set (registered es)" "i \<notin> fst ` set (handed es)" by (auto simp: ids_ok_def)
    with ok HandedTo show ?thesis unfolding ids_ok_def s'(2) by (auto simp: rev_image_eqI)
  qed
next
  case (elsewhere es s)
  then have ok: "ids_ok n0 es s" by simp
  then have "unat (next_dedup_stream_id s + 1) = unat n0 + Suc (ids_taken es)"
    using elsewhere.prems next_id [of "next_dedup_stream_id s"] by (simp add: ids_ok_def)
  with ok show ?case by (fastforce simp: ids_ok_def)
qed


section \<open>Properties\<close>


text \<open>An environment in which a packet is deduplicated: its data stands for three bytes.\<close>

definition big_data :: bytes where "big_data = replicate 131073 0"






abbreviation "big_header \<equiv> GlobalGameDataHeader \<lparr> gh_data_type = 5, gh_data_length = 131073 \<rparr>"


lemma length_big_data [simp]: "length big_data = 131073"
  by (simp add: big_data_def)









abbreviation "ping \<equiv> \<lparr> fin = True, opcode = Ping, payload = [] \<rparr>"
abbreviation "hi \<equiv> \<lparr> fin = True, opcode = Text, payload = [104, 105] \<rparr>"







text \<open>
  C27. Streams meet their packets: as long as the counter has not wrapped, whatever ids other connections take in between,
  every packet gets an id of its own, which is never the 0 of a new peer; a stream is
  handed to the task that announced its id, and to it alone, once; and what an accepted stream leads to is determined by that: an
  announced id that was not used yet is handed over, every other one but 0 ends the connection.
\<close>

theorem dedup_streams_matched:
  assumes "ns_run n0 es s" "0 < n0" "unat n0 + ids_taken es < 2 ^ 64"
  shows "distinct (map fst (registered es)) \<and> 0 \<notin> fst ` set (registered es) \<and>
    distinct (map fst (handed es)) \<and> set (handed es) \<subseteq> set (registered es) \<and>
    fst (accept_stream i s) = (if i = 0 then Inr NewPeer
      else case map_of (registered es) i of
        Some tx \<Rightarrow> if i \<in> fst ` set (handed es) then Inl (Anyhow ''Client sent dedup stream with unknown id'') else Inr (HandedTo tx)
      | None \<Rightarrow> Inl (Anyhow ''Client sent dedup stream with unknown id''))"
proof -
  have ok: "ids_ok n0 es s" by (rule ns_run_ids [OF assms(1,3)])
  then have d: "distinct (map fst (registered es))" "distinct (map fst (handed es))" "set (handed es) \<subseteq> set (registered es)"
    and p: "\<And>i tx. pending_dedup_streams s i = Some tx \<longleftrightarrow> map_of (registered es) i = Some tx \<and> i \<notin> fst ` set (handed es)"
    by (simp_all add: ids_ok_def)
  have "0 < unat n0" using assms(2) by (simp add: unat_gt_0 word_gt_0)
  then have "0 \<notin> fst ` set (registered es)" using ok by (fastforce simp: ids_ok_def)
  moreover have "pending_dedup_streams s i = (case map_of (registered es) i of
      Some tx \<Rightarrow> if i \<in> fst ` set (handed es) then None else Some tx | None \<Rightarrow> None)"
    using p [of i] by (cases "pending_dedup_streams s i") (auto split: option.splits)
  ultimately show ?thesis using d by (auto simp: accept_stream_def split: option.splits)
qed

theorem dedup_streams_matched_witness:
  "\<exists>s. ns_run 1 [Registered ''a'' 1, Elsewhere, Registered ''b'' 3, Accepted 1 (HandedTo ''a'')] s \<and>
     fst (accept_stream 3 s) = Inr (HandedTo ''b'') \<and> fst (accept_stream 1 s) = Inl (Anyhow ''Client sent dedup stream with unknown id'')"
proof -
  let ?es = "[Registered ''a'' 1, Elsewhere, Registered ''b'' 3, Accepted 1 (HandedTo ''a'')]"
  have 1: "ns_run 1 ([] @ [Registered ''a'' 1]) \<lparr> next_dedup_stream_id = 2, pending_dedup_streams = [1 \<mapsto> ''a''] \<rparr>"
    by (rule ns_run.register [OF ns_run.start]) (simp add: register_stream_def Let_def)
  have 2: "ns_run 1 (([] @ [Registered ''a'' 1]) @ [Elsewhere]) \<lparr> next_dedup_stream_id = 3, pending_dedup_streams = [1 \<mapsto> ''a''] \<rparr>"
    using ns_run.elsewhere [OF 1] by simp
  have 3: "ns_run 1 ((([] @ [Registered ''a'' 1]) @ [Elsewhere]) @ [Registered ''b'' 3]) \<lparr> next_dedup_stream_id = 4, pending_dedup_streams = [1 \<mapsto> ''a'', 3 \<mapsto> ''b''] \<rparr>"
    by (rule ns_run.register [OF 2]) (simp add: register_stream_def Let_def)
  obtain s where s: "ns_run 1 ?es s" using ns_run.accept [OF 3, of 1 "HandedTo ''a''"] by (auto simp: accept_stream_def)
  show ?thesis
    using s dedup_streams_matched [OF s, of 3] dedup_streams_matched [OF s, of 1] by auto
qed



end
