(* ===== verification/Spec2Isabelle.thy ===== *)
theory Spec2Isabelle
  imports Prelude Utils Dedup Rev_Crc Cache_Tasks Protocol_Utils Programs World_Transfer Client_Peers Server_Peers Nebula_Connect Nebula_Transfer
begin

text \<open>
  Factory Cacher: a verification library.

  \<^bold>\<open>The program.\<close> Two pairs of proxies make multiplayer games start faster by not sending again what the player already has.
  \<^verbatim>\<open>factorio-cacher\<close> sits between Factorio clients and a Factorio server: the proxy next to the game downloads the saved world itself,
  takes its zip archive apart into content-defined chunks and sends a description; the proxy next to the player fetches the
  chunks it has not cached, writes a new archive and forges its size and checksum to those that were announced to the player.
  \<^verbatim>\<open>dsp-nebula-cacher\<close> does the same for the three large packets of the Nebula mod of Dyson Sphere Program, inside a
  websocket. \<^verbatim>\<open>common\<close> holds what they share: the chunker, chunk trees, the chunk cache, messages and the transfer of chunks.

  \<^bold>\<open>The shared part\<close> (\<^verbatim>\<open>src/common/src\<close>).
  \<^item> \<open>Prelude\<close>: machine integers (words of their width), bytes, \<^verbatim>\<open>Result\<close> as a sum whose left side has the panics as values, the
    integer codecs and the locale \<open>codec\<close>. \<open>Utils\<close> (\<^verbatim>\<open>utils.rs\<close>): the readers of packets, the locale \<open>reader\<close>, the abbreviation of sizes.
  \<^item> \<open>Chunker\<close> (\<^verbatim>\<open>chunker.rs\<close>): the rolling hash and the iterator. The hash is the polynomial hash of the window; the chunks are
    a partition with the sizes promised, cut at the first place allowed, and resynchronise after a common cut.
  \<^item> \<open>Dedup\<close> (\<^verbatim>\<open>dedup.rs\<close>): chunk lists, trees of them, \<open>chunk_data\<close>, minimisation and reconstruction. \<open>tree\<close> says what a root
    stands for; the locale \<open>chunk_source\<close> is what reconstruction needs of a provider, interpreted for the hash map and for the
    fetching provider. Reconstruction gives the data back, and the tree has a bounded height.
  \<^item> \<open>Chunk_Cache\<close> (\<^verbatim>\<open>chunk_cache.rs\<close>): the least-recently-used cache over an ordered hash map (locale \<open>hashlink\<close>), batches of
    requests, and the cache file. \<open>Cache_Tasks\<close>: all interleavings of the tasks that share a cache, as the step relation
    \<open>cache_step\<close> with an invariant by rule induction.
  \<^item> \<open>Protocol_Utils\<close> (\<^verbatim>\<open>protocol_utils.rs\<close>): messages on a stream, the serving loop, and the provider that fetches batches. The
    locales \<open>transport\<close> and \<open>fetch_setting\<close> state what the codecs and the other tasks promise. What is fetched from an honest server
    reconstructs; what any peer sends is only used when its hash is right.
  \<^item> \<open>Common_Lib\<close> (\<^verbatim>\<open>lib.rs\<close>, \<^verbatim>\<open>cli_args.rs\<close>): options, creation of the cache, its writer task, the accept loop, shutdown. \<open>Programs\<close>
    (\<^verbatim>\<open>quic.rs\<close>, \<^verbatim>\<open>upnp.rs\<close>, both \<^verbatim>\<open>main.rs\<close>): the network configuration, the port mapping and the commands of both programs. Idle
    connections are kept alive, and a port that was opened is given back however a program ends.

  \<^bold>\<open>The Factorio cacher\<close> (\<^verbatim>\<open>src/factorio-cacher/src\<close>).
  \<^item> \<open>Rev_Crc\<close> (\<^verbatim>\<open>rev_crc.rs\<close>): the reversed checksum; the forged bytes reach the target. \<open>Zip_Writer\<close> (\<^verbatim>\<open>zip_writer.rs\<close>), with a reader of
    the zip format to judge it. \<open>Factorio_World\<close> (\<^verbatim>\<open>factorio_world.rs\<close>): description and reconstruction of a world; the
    result has exactly the size and checksum announced and holds the files of the original.
  \<^item> \<open>Factorio_Protocol\<close> (\<^verbatim>\<open>factorio_protocol.rs\<close>, \<^verbatim>\<open>protocol.rs\<close>): the packets. \<open>Factorio_Proxy\<close> (\<^verbatim>\<open>proxy/mod.rs\<close>, \<^verbatim>\<open>lan_discovery.rs\<close>).
  \<^item> \<open>Client_Proxy\<close> and \<open>Server_Proxy\<close> (\<^verbatim>\<open>proxy/client_proxy.rs\<close>, \<^verbatim>\<open>proxy/server_proxy.rs\<close>): the table of peers, the state machine of each proxy as a
    function of a packet and a time, runs of events (\<open>client_runs\<close>, \<open>server_runs\<close>) and the tasks that transfer a world. The locale
    \<open>finder\<close> is the contract of the substring search. \<open>World_Transfer\<close> connects the two: the player gets an archive of the
    announced size and checksum with the files of the original.

  \<^item> \<open>Channels\<close>: the bounded queues between tasks (locale \<open>mpsc\<close>). \<open>Client_Peers\<close> and \<open>Server_Peers\<close>: the whole of each proxy, its routing loop and all
    the tasks it has spawned, as a step function on events with every interleaving a run (\<open>client_sys_runs\<close>, \<open>server_sys_runs\<close>). A
    task behaves as if it were alone, on a subsequence of the packets meant for it; no task of the server proxy panics; the
    tables, queues and requests of the client proxy stay well formed. The locale \<open>server_peers\<close> joins \<open>mpsc\<close> and \<open>finder\<close>.

  \<^bold>\<open>The Nebula cacher\<close> (\<^verbatim>\<open>src/dsp-nebula-cacher/src\<close>).
  \<^item> \<open>Lz4_Frame\<close> (\<^verbatim>\<open>lz4_frame_encoder.rs\<close>), with a reader of the frame format. \<open>Nebula_Protocol\<close> (\<^verbatim>\<open>nebula_protocol\<close>, \<^verbatim>\<open>protocol.rs\<close>): headers, taking
    packets apart and rebuilding them. \<open>Nebula_Proxy\<close> (\<^verbatim>\<open>proxy\<close>): websocket frames and the copying loops of both sides.
    \<open>Nebula_Connect\<close>: setting up a connection. \<open>Nebula_Transfer\<close>: the messages of a whole connection across both proxies.

  \<^bold>\<open>State and effects.\<close> A struct is a record, a method a function from state to result and state. Everything the repository
  does not contain is an argument: blake3 (\<open>hash32\<close> says it has 32 bytes; it is assumed
  not to collide on the finitely many blobs of a transfer, never in general), zstd, rmp-serde, miniz, lz4, xxHash, the ordered
  map, the substring search, the floating point estimate of the world size, queues, quinn, rustls, igd-next, sockets, files and the clock. Each contract has a
  concrete instance in the development, so that it is known to be satisfiable. What other tasks do to the shared cache
  while a task waits is the argument \<open>env\<close>. Arithmetic wraps as in a release build.

  \<^bold>\<open>Loops.\<close> Loops over finite data are structural or have a termination proof. Walking a tree of chunks and serving requests
  take fuel and return \<open>None\<close> when it runs out: the fuel bounds the depth of the tree, and the properties that promise a result state
  that every fuel above a bound gives it; the serving loop needs one more than the bytes it reads. Endless loops of
  the program are functions of the finite sequence of events so far.

  \<^bold>\<open>Not modelled.\<close>
  \<^item> The parsing of the command line (a macro for argh) and the choice of the command by it, \<^verbatim>\<open>setup_logging\<close> and \<^verbatim>\<open>get_local_ip\<close>.
  \<^item> In the Nebula client proxy \<^verbatim>\<open>handle_connection\<close> and \<^verbatim>\<open>handle_ws_connection\<close>: they hand a connection to hyper and fastwebsockets and join the two copying loops,
    which are modelled. The \<^verbatim>\<open>serde\<close> implementations of \<^verbatim>\<open>ChunkKey\<close> are part of the codec that is an argument.
  \<^item> Logging, statistics for it, elapsed times, and the unit tests of the sources.
  \<^item> The scheduling of \<^verbatim>\<open>select!\<close> and \<^verbatim>\<open>try_join!\<close>: an event sequence stands for the order in which they complete; a connection torn down
    in the middle of a copy is not followed further.
  \<^item> Two programs that share one cache file, and a file that changes between the test for it and its reading.
\<close>

end
